(* ===== verification/Prelude.thy ===== *)
theory Prelude
  imports Complex_Main "HOL-Library.Word"
begin

text \<open>
  Shared vocabulary of the development: Python \<^emph>\<open>bytes\<close> as lists of 8-bit words,
  exceptions as values (with the class hierarchy that the \<^emph>\<open>except\<close> clauses of the
  source look at), slicing, \<^emph>\<open>int(x)\<close> on a clock reading, decimal rendering for the
  f-strings, and the lemma collections the component theories extend.
\<close>

named_theorems wire_simps \<open>layout facts about encoded byte strings\<close>
named_theorems check_defs \<open>definitions of the pipeline checks\<close>

section \<open>Bytes and slices\<close>

type_synonym byte = "8 word"
type_synonym bytes = "byte list"

text \<open>\<open>xs[a:b]\<close> for \<open>0 \<le> a\<close>, \<open>0 \<le> b\<close>: out-of-range bounds are clipped, as in Python.\<close>

definition slice :: "nat \<Rightarrow> nat \<Rightarrow> 'a list \<Rightarrow> 'a list" where
  "slice a b xs = take (b - a) (drop a xs)"

lemma length_slice [simp]: "length (slice a b xs) = min (b - a) (length xs - a)"
  by (simp add: slice_def)

lemma slice_append_left [simp]: "length xs \<le> a \<Longrightarrow> slice a b (xs @ ys) = slice (a - length xs) (b - length xs) ys"
  by (simp add: slice_def)

lemma slice_0 [simp]: "slice 0 b xs = take b xs"
  by (simp add: slice_def)

lemma slice_all: "b = length xs \<Longrightarrow> slice a b xs = drop a xs"
  by (simp add: slice_def)

lemma slice_take: "b \<le> n \<Longrightarrow> slice a b (take n xs) = slice a b xs"
  by (simp add: slice_def drop_take)

lemma take_slice_drop: "a \<le> b \<Longrightarrow> take a xs @ slice a b xs @ drop b xs = xs"
  by (metis append_take_drop_id drop_drop le_add_diff_inverse2 slice_def)

text \<open>\<open>xs[i] = v\<close> followed by reading back whole segments around \<open>i\<close>.\<close>

lemma two_byte_rewrite:
  assumes "i + 2 \<le> length xs"
  shows "take i xs @ [u, v] @ drop (i + 2) xs = (xs[i := u])[Suc i := v]"
proof (rule nth_equalityI)
  show "length (take i xs @ [u, v] @ drop (i + 2) xs) = length ((xs[i := u])[Suc i := v])"
    using assms by simp
next
  fix k assume "k < length (take i xs @ [u, v] @ drop (i + 2) xs)"
  with assms have k: "k < length xs" by simp
  show "(take i xs @ [u, v] @ drop (i + 2) xs) ! k = ((xs[i := u])[Suc i := v]) ! k"
  proof -
    consider "k < i" | "k = i" | "k = Suc i" | j where "k = Suc (Suc (i + j))"
      by (metis add_Suc le_Suc_ex linorder_neqE_nat not_less_eq_eq not_less_less_Suc_eq less_Suc_eq_le Suc_leI)
    then show ?thesis
      using assms k by cases (auto simp: nth_append nth_list_update)
  qed
qed

text \<open>A Python \<^emph>\<open>str\<close>: its code points. \<open>str ''abc''\<close> is a literal.\<close>

type_synonym pystr = "nat list"

definition str :: "string \<Rightarrow> pystr" where
  "str s = map of_char s"

section \<open>Exceptions\<close>

text \<open>
  One constructor per exception class that reaches the modelled code. \<open>ValueError\<close> carries
  its message, since \<^emph>\<open>RelayPipeline.process\<close> prints it into the drop reason.
  The \<^emph>\<open>Nacl\<close> classes derive from the builtin class of the same name and from
  \<^emph>\<open>CryptoError\<close>; \<open>BadSignatureError\<close> derives from \<^emph>\<open>CryptoError\<close>; the unicode,
  JSON and binascii errors derive from \<^emph>\<open>ValueError\<close>, \<open>RecursionError\<close> from \<^emph>\<open>RuntimeError\<close>.
\<close>

datatype exn =
    ValueError string
  | UnicodeError
  | JSONDecodeError
  | BinasciiError
  | NaclValueError
  | NaclTypeError
  | NaclRuntimeError
  | CryptoError
  | BadSignatureError
  | StructError
  | KeyError
  | TypeError
  | AttributeError
  | IndexError
  | OverflowError
  | FileExistsError
  | StopIteration
  | RuntimeError
  | RecursionError
  | OSError
  | SystemExit int

fun is_ValueError :: "exn \<Rightarrow> bool" where
  "is_ValueError (ValueError m) = True"
| "is_ValueError UnicodeError = True"
| "is_ValueError JSONDecodeError = True"
| "is_ValueError BinasciiError = True"
| "is_ValueError NaclValueError = True"
| "is_ValueError _ = False"

fun is_CryptoError :: "exn \<Rightarrow> bool" where
  "is_CryptoError CryptoError = True"
| "is_CryptoError BadSignatureError = True"
| "is_CryptoError NaclValueError = True"
| "is_CryptoError NaclTypeError = True"
| "is_CryptoError NaclRuntimeError = True"
| "is_CryptoError _ = False"

fun is_TypeError :: "exn \<Rightarrow> bool" where
  "is_TypeError TypeError = True"
| "is_TypeError NaclTypeError = True"
| "is_TypeError _ = False"

type_synonym 'a res = "exn + 'a"

text \<open>Sequencing: the first exception ends the computation.\<close>

definition res_bind :: "'a res \<Rightarrow> ('a \<Rightarrow> 'b res) \<Rightarrow> 'b res" where
  "res_bind m f = (case m of Inl e \<Rightarrow> Inl e | Inr x \<Rightarrow> f x)"

lemma res_bind_simps [simp]:
  "res_bind (Inl e) f = Inl e"
  "res_bind (Inr x) f = f x"
  by (simp_all add: res_bind_def)

lemma res_bind_eq_Inr [simp]:
  "(res_bind m f = Inr y) \<longleftrightarrow> (\<exists>x. m = Inr x \<and> f x = Inr y)"
  by (cases m) auto

lemma res_bind_eq_Inl:
  "(res_bind m f = Inl e) \<longleftrightarrow> (m = Inl e \<or> (\<exists>x. m = Inr x \<and> f x = Inl e))"
  by (cases m) auto

text \<open>\<open>returns r\<close>: the call came back with a value.\<close>

fun returns :: "'a res \<Rightarrow> bool" where
  "returns (Inr x) = True"
| "returns (Inl e) = False"

lemma returns_iff: "returns r \<longleftrightarrow> (\<exists>x. r = Inr x)"
  by (cases r) auto

section \<open>Clock readings and rendering\<close>

text \<open>
  \<^emph>\<open>time.time()\<close> returns a double; a double is a dyadic rational, and the differences the
  code takes (readings within a factor of two of each other) and the sums (a reading plus 60)
  are exact in that range, so readings are exact rationals here.
  \<^emph>\<open>int(x)\<close> truncates towards zero.
\<close>

type_synonym time = rat

definition py_int :: "time \<Rightarrow> int" where
  "py_int x = (if 0 \<le> x then \<lfloor>x\<rfloor> else \<lceil>x\<rceil>)"

lemma py_int_of_int [simp]: "py_int (of_int n) = n"
  by (simp add: py_int_def)

lemma py_int_numeral [simp]: "py_int (numeral k) = numeral k"
  by (simp add: py_int_def)

lemma py_int_mono: "x \<le> y \<Longrightarrow> py_int x \<le> py_int y"
proof (cases "0 \<le> x \<or> y < 0")
  case True
  assume "x \<le> y"
  with True show ?thesis by (auto simp: py_int_def floor_mono ceiling_mono)
next
  case False
  then have "\<lceil>x\<rceil> \<le> 0" "0 \<le> \<lfloor>y\<rfloor>" by auto
  then have "\<lceil>x\<rceil> \<le> \<lfloor>y\<rfloor>" by (rule order_trans)
  with False show ?thesis by (simp add: py_int_def)
qed

lemma py_int_bounds: "x - 1 < of_int (py_int x)" "of_int (py_int x) < x + 1"
  unfolding py_int_def by (auto; linarith)+

text \<open>Decimal rendering, as an f-string renders an \<^emph>\<open>int\<close>.\<close>

fun show_nat :: "nat \<Rightarrow> string" where
  "show_nat n = (if n < 10 then [char_of (48 + n)] else show_nat (n div 10) @ [char_of (48 + n mod 10)])"

declare show_nat.simps [simp del]

definition show_int :: "int \<Rightarrow> string" where
  "show_int i = (if i < 0 then CHR ''-'' # show_nat (nat (- i)) else show_nat (nat i))"

section \<open>Lists and maps\<close>

lemma filter_all_imp: "(\<And>x. x \<in> set xs \<Longrightarrow> P x) \<Longrightarrow> filter P xs = xs"
  by (induction xs) auto

lemma sorted_dropWhile_filter:
  fixes xs :: "time list"
  assumes "sorted xs"
  shows "dropWhile (\<lambda>t. now - t > w) xs = filter (\<lambda>t. now - t \<le> w) xs"
  using assms
proof (induction xs)
  case Nil
  then show ?case by simp
next
  case (Cons x xs)
  show ?case
  proof (cases "now - x > w")
    case True
    with Cons show ?thesis by simp
  next
    case False
    with Cons.prems have "\<And>t. t \<in> set xs \<Longrightarrow> now - t \<le> w" by fastforce
    with False show ?thesis by (simp add: filter_all_imp)
  qed
qed

lemma sorted_appendI: "sorted xs \<Longrightarrow> (\<And>x. x \<in> set xs \<Longrightarrow> x \<le> y) \<Longrightarrow> sorted (xs @ [y])"
  by (simp add: sorted_append)

end
