(* ===== verification/Struct_Codec.thy ===== *)
theory Struct_Codec
  imports Prelude
begin

text \<open>
  Python's \<^emph>\<open>struct\<close> module, as far as the source uses it: big-endian standard-size
  formats (a leading \<open>>\<close>) over the codes \<open>s\<close>, \<open>B\<close>, \<open>H\<close>, \<open>I\<close> and \<open>i\<close>.
  Format strings are parsed, so the formats of the source stand here as the literals they are.
  The interface locale \<open>fixed_layout\<close> states what a fixed-size codec promises; the generic
  packer is its first instance, and every binary layout of the program is another.
\<close>

section \<open>Big-endian integers\<close>

fun be_bytes :: "nat \<Rightarrow> int \<Rightarrow> bytes" where
  "be_bytes 0 v = []"
| "be_bytes (Suc n) v = be_bytes n (v div 256) @ [word_of_int v]"

definition be_val :: "bytes \<Rightarrow> int" where
  "be_val bs = foldl (\<lambda>a b. a * 256 + uint b) 0 bs"

lemma be_val_Nil [simp]: "be_val [] = 0"
  by (simp add: be_val_def)

lemma be_val_snoc [simp]: "be_val (bs @ [b]) = be_val bs * 256 + uint b"
  by (simp add: be_val_def)

lemma length_be_bytes [simp]: "length (be_bytes n v) = n"
  by (induction n arbitrary: v) auto

lemma uint_byte: "uint (word_of_int v :: byte) = v mod 256"
  by (simp add: unsigned_of_int take_bit_eq_mod)

lemma be_val_be_bytes: "be_val (be_bytes n v) = v mod 256 ^ n"
proof (induction n arbitrary: v)
  case 0
  then show ?case by simp
next
  case (Suc n)
  have "v mod (256 * 256 ^ n) = 256 * (v div 256 mod 256 ^ n) + v mod 256"
    by (rule zmod_zmult2_eq) simp
  with Suc show ?case by (simp add: uint_byte)
qed

lemma uint_byte_bounds: "0 \<le> uint (b :: byte)" "uint (b :: byte) < 256"
  using uint_lt2p [of b] by simp_all

lemma be_val_bounds: "0 \<le> be_val bs" "be_val bs < 256 ^ length bs"
proof (induction bs rule: rev_induct)
  case (snoc b bs)
  have "be_val bs * 256 + uint b < (be_val bs + 1) * 256"
    using uint_byte_bounds [of b] by simp
  also have "(be_val bs + 1) * 256 \<le> 256 ^ length bs * 256"
    using snoc(2) by simp
  finally show "be_val (bs @ [b]) < 256 ^ length (bs @ [b])" by simp
  show "0 \<le> be_val (bs @ [b])" using snoc(1) by simp
qed simp_all

lemma be_bytes_be_val: "be_bytes (length bs) (be_val bs) = bs"
proof (induction bs rule: rev_induct)
  case (snoc b bs)
  have d: "(be_val bs * 256 + uint b) div 256 = be_val bs"
    using uint_byte_bounds [of b] by simp
  have "word_of_int (be_val bs * 256 + uint b) = (b :: byte)"
  proof (rule word_uint_eq_iff [THEN iffD2])
    show "uint (word_of_int (be_val bs * 256 + uint b) :: byte) = uint b"
      unfolding uint_byte using uint_byte_bounds [of b] by simp
  qed
  with d snoc show ?case by simp
qed simp

lemma be_bytes_mod: "be_bytes n (v mod 256 ^ n) = be_bytes n v"
  by (metis be_bytes_be_val be_val_be_bytes length_be_bytes)

section \<open>Formats\<close>

datatype fmt = FStr nat | FUInt nat | FInt nat

datatype fval = VB bytes | VI int

fun fmt_size :: "fmt \<Rightarrow> nat" where
  "fmt_size (FStr n) = n"
| "fmt_size (FUInt n) = n"
| "fmt_size (FInt n) = n"

definition items_size :: "fmt list \<Rightarrow> nat" where
  "items_size fs = sum_list (map fmt_size fs)"

lemma items_size_simps [simp]:
  "items_size [] = 0"
  "items_size (f # fs) = fmt_size f + items_size fs"
  by (simp_all add: items_size_def)

text \<open>One format character with its repeat count; for \<open>s\<close> the count is the length.\<close>

definition fmt_code :: "nat \<Rightarrow> char \<Rightarrow> fmt list res" where
  "fmt_code n c =
    (if c = CHR ''s'' then Inr [FStr n]
     else if c = CHR ''B'' then Inr (replicate n (FUInt 1))
     else if c = CHR ''H'' then Inr (replicate n (FUInt 2))
     else if c = CHR ''I'' then Inr (replicate n (FUInt 4))
     else if c = CHR ''i'' then Inr (replicate n (FInt 4))
     else Inl StructError)"

definition digit_val :: "char \<Rightarrow> nat option" where
  "digit_val c = (let d = of_char c :: nat in if 48 \<le> d \<and> d < 58 then Some (d - 48) else None)"

fun parse_items :: "nat option \<Rightarrow> string \<Rightarrow> fmt list res" where
  "parse_items None [] = Inr []"
| "parse_items (Some n) [] = Inl StructError"
| "parse_items acc (c # cs) =
     (case digit_val c of
        Some d \<Rightarrow> parse_items (Some (10 * (case acc of None \<Rightarrow> 0 | Some n \<Rightarrow> n) + d)) cs
      | None \<Rightarrow> res_bind (fmt_code (case acc of None \<Rightarrow> 1 | Some n \<Rightarrow> n) c)
                  (\<lambda>f. res_bind (parse_items None cs) (\<lambda>fs. Inr (f @ fs))))"

fun parse_fmt :: "string \<Rightarrow> fmt list res" where
  "parse_fmt [] = Inl StructError"
| "parse_fmt (c # cs) = (if c = CHR ''>'' then parse_items None cs else Inl StructError)"

declare parse_fmt.simps [simp del] parse_items.simps [simp del]

lemmas fmt_eval = parse_fmt.simps parse_items.simps digit_val_def fmt_code_def

section \<open>Packing and unpacking\<close>

text \<open>
  \<open>s\<close> truncates a long argument and pads a short one with zero bytes, without an error;
  an integer out of the field's range is a \<^emph>\<open>struct.error\<close>.
\<close>

fun pack1 :: "fmt \<Rightarrow> fval \<Rightarrow> bytes res" where
  "pack1 (FStr n) (VB b) = Inr (take n b @ replicate (n - length b) 0)"
| "pack1 (FUInt n) (VI v) = (if 0 \<le> v \<and> v < 256 ^ n then Inr (be_bytes n v) else Inl StructError)"
| "pack1 (FInt n) (VI v) =
     (if - (256 ^ n div 2) \<le> v \<and> v < 256 ^ n div 2 then Inr (be_bytes n v) else Inl StructError)"
| "pack1 _ _ = Inl StructError"

fun pack_items :: "fmt list \<Rightarrow> fval list \<Rightarrow> bytes res" where
  "pack_items [] [] = Inr []"
| "pack_items (f # fs) (v # vs) =
     res_bind (pack1 f v) (\<lambda>b. res_bind (pack_items fs vs) (\<lambda>r. Inr (b @ r)))"
| "pack_items _ _ = Inl StructError"

fun unpack1 :: "fmt \<Rightarrow> bytes \<Rightarrow> fval" where
  "unpack1 (FStr n) b = VB b"
| "unpack1 (FUInt n) b = VI (be_val b)"
| "unpack1 (FInt n) b = VI (if be_val b < 256 ^ n div 2 then be_val b else be_val b - 256 ^ n)"

fun unpack_items :: "fmt list \<Rightarrow> bytes \<Rightarrow> fval list" where
  "unpack_items [] bs = []"
| "unpack_items (f # fs) bs =
     unpack1 f (take (fmt_size f) bs) # unpack_items fs (drop (fmt_size f) bs)"

definition unpack_exact :: "fmt list \<Rightarrow> bytes \<Rightarrow> fval list res" where
  "unpack_exact fs bs = (if length bs = items_size fs then Inr (unpack_items fs bs) else Inl StructError)"

definition struct_calcsize :: "string \<Rightarrow> nat res" where
  "struct_calcsize s = res_bind (parse_fmt s) (\<lambda>fs. Inr (items_size fs))"

definition struct_pack :: "string \<Rightarrow> fval list \<Rightarrow> bytes res" where
  "struct_pack s vs = res_bind (parse_fmt s) (\<lambda>fs. pack_items fs vs)"

definition struct_unpack :: "string \<Rightarrow> bytes \<Rightarrow> fval list res" where
  "struct_unpack s bs = res_bind (parse_fmt s) (\<lambda>fs. unpack_exact fs bs)"

definition struct_unpack_from :: "string \<Rightarrow> bytes \<Rightarrow> fval list res" where
  "struct_unpack_from s bs =
     res_bind (parse_fmt s)
       (\<lambda>fs. if items_size fs \<le> length bs then Inr (unpack_items fs bs) else Inl StructError)"

text \<open>The values a field stores without loss.\<close>

fun fits1 :: "fmt \<Rightarrow> fval \<Rightarrow> bool" where
  "fits1 (FStr n) (VB b) = (length b = n)"
| "fits1 (FUInt n) (VI v) = (0 \<le> v \<and> v < 256 ^ n)"
| "fits1 (FInt n) (VI v) = (0 < n \<and> - (256 ^ n div 2) \<le> v \<and> v < 256 ^ n div 2)"
| "fits1 _ _ = False"

definition fits :: "fmt list \<Rightarrow> fval list \<Rightarrow> bool" where
  "fits fs vs = list_all2 fits1 fs vs"

text \<open>Formats every field of which has a positive width where it is signed.\<close>

fun wf_fmt :: "fmt \<Rightarrow> bool" where
  "wf_fmt (FInt n) = (0 < n)"
| "wf_fmt _ = True"

lemma fits_simps [simp]:
  "fits [] vs = (vs = [])"
  "fits (f # fs) [] = False"
  "fits (f # fs) (v # vs) = (fits1 f v \<and> fits fs vs)"
  by (simp_all add: fits_def)

lemma half_pow256: "0 < n \<Longrightarrow> 2 * (256 ^ n div 2) = (256 ^ n :: int)"
  by (cases n) simp_all

lemma pack1_length: "pack1 f v = Inr b \<Longrightarrow> length b = fmt_size f"
  by (cases "(f, v)" rule: pack1.cases) (auto split: if_splits)

lemma pack_items_length: "pack_items fs vs = Inr bs \<Longrightarrow> length bs = items_size fs"
  by (induction fs vs arbitrary: bs rule: pack_items.induct) (auto dest: pack1_length)

lemma signed_mod:
  assumes "0 < n" "- (256 ^ n div 2) \<le> v" "v < 256 ^ n div 2"
  shows "(if v mod 256 ^ n < 256 ^ n div 2 then v mod 256 ^ n else v mod 256 ^ n - 256 ^ n) = (v::int)"
proof (cases "0 \<le> v")
  case True
  with assms have "v < 256 ^ n" using half_pow256 [of n] by linarith
  with True assms show ?thesis by simp
next
  case False
  with assms have "(v + 256 ^ n) mod 256 ^ n = v + 256 ^ n"
    using half_pow256 [of n] by (intro mod_pos_pos_trivial) linarith+
  then have "v mod 256 ^ n = v + 256 ^ n" by simp
  with False assms show ?thesis using half_pow256 [of n] by auto
qed

lemma pack1_fits:
  assumes "fits1 f v"
  shows "\<exists>b. pack1 f v = Inr b \<and> length b = fmt_size f \<and> unpack1 f b = v"
  using assms
proof (cases "(f, v)" rule: fits1.cases)
  case (2 n w)
  with assms show ?thesis by (simp add: be_val_be_bytes)
next
  case (3 n w)
  with assms signed_mod [of n w] show ?thesis by (auto simp: be_val_be_bytes split: if_splits)
qed auto

lemma pack_items_fits:
  "fits fs vs \<Longrightarrow> \<exists>bs. pack_items fs vs = Inr bs \<and> unpack_items fs bs = vs"
proof (induction fs arbitrary: vs)
  case Nil
  then show ?case by simp
next
  case (Cons f fs)
  then obtain v ws where vs: "vs = v # ws" and v: "fits1 f v" and ws: "fits fs ws"
    by (cases vs) auto
  obtain b where b: "pack1 f v = Inr b" "length b = fmt_size f" "unpack1 f b = v"
    using pack1_fits [OF v] by blast
  obtain r where r: "pack_items fs ws = Inr r" "unpack_items fs r = ws"
    using Cons.IH [OF ws] by blast
  from b r vs show ?case by simp
qed

lemma unpack1_fits:
  assumes "length b = fmt_size f" "wf_fmt f"
  shows "fits1 f (unpack1 f b)" "pack1 f (unpack1 f b) = Inr b"
proof -
  have A: "fits1 f (unpack1 f b) \<and> pack1 f (unpack1 f b) = Inr b"
  proof (cases f)
    case (FInt n)
    let ?v = "be_val b"
    have n: "0 < n" "length b = n" using assms FInt by auto
    have bnd: "0 \<le> ?v" "?v < 256 ^ n" using be_val_bounds [of b] n by auto
    have "be_bytes n (?v - 256 ^ n) = be_bytes n ?v"
      using be_bytes_mod [of n "?v - 256 ^ n"] be_bytes_mod [of n ?v] by simp
    then have same: "be_bytes n (?v - 256 ^ n) = b" "be_bytes n ?v = b"
      using be_bytes_be_val [of b] n by auto
    define H :: int where "H = 256 ^ n div 2"
    have "256 ^ n = 2 * H" using half_pow256 [OF n(1)] by (simp add: H_def)
    with bnd have "- H \<le> (if ?v < H then ?v else ?v - 256 ^ n)" "(if ?v < H then ?v else ?v - 256 ^ n) < H"
      by auto
    with FInt n(1) same show ?thesis by (simp add: H_def)
  qed (use assms be_val_bounds [of b] be_bytes_be_val [of b] in auto)
  from A show "fits1 f (unpack1 f b)" "pack1 f (unpack1 f b) = Inr b" by auto
qed

lemma unpack_items_fits:
  "length bs = items_size fs \<Longrightarrow> list_all wf_fmt fs \<Longrightarrow>
   fits fs (unpack_items fs bs) \<and> pack_items fs (unpack_items fs bs) = Inr bs"
proof (induction fs arbitrary: bs)
  case (Cons f fs)
  have l: "length (take (fmt_size f) bs) = fmt_size f" "length (drop (fmt_size f) bs) = items_size fs"
    using Cons.prems by auto
  show ?case
    using Cons.IH [OF l(2)] Cons.prems(2) unpack1_fits [OF l(1)] by simp
qed simp

lemma unpack_items_append:
  "items_size fs \<le> length bs \<Longrightarrow> unpack_items fs (bs @ cs) = unpack_items fs bs"
  by (induction fs arbitrary: bs) auto

lemma unpack_items_take:
  "items_size fs \<le> n \<Longrightarrow> unpack_items fs (take n bs) = unpack_items fs bs"
proof (induction fs arbitrary: n bs)
  case (Cons f fs)
  then show ?case
    by (simp add: drop_take min_absorb1)
qed simp

section \<open>The interface of a fixed-size codec\<close>

text \<open>
  What the senders and receivers of a fixed-size layout rely on: every value in range has an
  encoding of exactly \<open>size\<close> bytes that decodes to it, and whatever decodes is the encoding
  of its value (no second encoding of the same value).
\<close>

locale fixed_layout =
  fixes enc :: "'a \<Rightarrow> bytes res"
    and dec :: "bytes \<Rightarrow> 'a res"
    and ok :: "'a \<Rightarrow> bool"
    and size :: nat
  assumes enc_ok: "ok x \<Longrightarrow> \<exists>bs. enc x = Inr bs \<and> length bs = size \<and> dec bs = Inr x"
    and dec_ok: "dec bs = Inr x \<Longrightarrow> length bs = size \<and> ok x \<and> enc x = Inr bs"
begin

lemma roundtrip: "ok x \<Longrightarrow> res_bind (enc x) dec = Inr x"
  using enc_ok by fastforce

lemma enc_length: "ok x \<Longrightarrow> enc x = Inr bs \<Longrightarrow> length bs = size"
  using enc_ok by fastforce

lemma dec_enc: "ok x \<Longrightarrow> enc x = Inr bs \<Longrightarrow> dec bs = Inr x"
  using enc_ok by fastforce

lemma dec_canonical: "dec bs = Inr x \<Longrightarrow> enc x = Inr bs"
  using dec_ok by blast

lemma dec_inj: "dec cs = Inr x \<Longrightarrow> dec bs = Inr x \<Longrightarrow> cs = bs"
  using dec_ok by (metis sum.inject(2))

lemma enc_inj: "ok x \<Longrightarrow> ok y \<Longrightarrow> enc x = enc y \<Longrightarrow> x = y"
  using enc_ok by (metis sum.inject(2))

lemma dec_wrong_size: "length bs \<noteq> size \<Longrightarrow> \<exists>e. dec bs = Inl e"
  using dec_ok by (cases "dec bs") auto

text \<open>Two encodings at the front of the same byte string are of the same value.\<close>

lemma prefix_free:
  assumes "ok x" "ok y" "enc x = Inr cs" "enc y = Inr bs" "cs @ us = bs @ vs"
  shows "x = y \<and> us = vs"
proof -
  have "length cs = length bs" using assms enc_length by metis
  with assms(5) have "cs = bs" "us = vs" by auto
  moreover have "x = y" using assms(1-4) \<open>cs = bs\<close> enc_inj by metis
  ultimately show ?thesis by blast
qed

end

text \<open>The generic packer provides the interface, for every well-formed format.\<close>

interpretation packer: fixed_layout
  "\<lambda>vs. if list_all wf_fmt fs then pack_items fs vs else Inl StructError"
  "\<lambda>bs. if list_all wf_fmt fs then unpack_exact fs bs else Inl StructError"
  "\<lambda>vs. list_all wf_fmt fs \<and> fits fs vs" "items_size fs"
  for fs
proof
  fix vs assume "list_all wf_fmt fs \<and> fits fs vs"
  then show "\<exists>bs. (if list_all wf_fmt fs then pack_items fs vs else Inl StructError) = Inr bs \<and>
      length bs = items_size fs \<and>
      (if list_all wf_fmt fs then unpack_exact fs bs else Inl StructError) = Inr vs"
    using pack_items_fits [of fs vs] pack_items_length [of fs vs]
    by (auto simp: unpack_exact_def)
next
  fix bs vs
  assume "(if list_all wf_fmt fs then unpack_exact fs bs else Inl StructError) = Inr vs"
  then show "length bs = items_size fs \<and> (list_all wf_fmt fs \<and> fits fs vs) \<and>
      (if list_all wf_fmt fs then pack_items fs vs else Inl StructError) = Inr bs"
    using unpack_items_fits [of bs fs] by (auto simp: unpack_exact_def split: if_splits)
qed

text \<open>A layout given by a format string and a bijection with the fields' values.\<close>

lemma struct_layoutI:
  assumes "parse_fmt s = Inr fs" "list_all wf_fmt fs"
    and enc: "\<And>x. ok x \<Longrightarrow> enc x = struct_pack s (vals_of x) \<and> fits fs (vals_of x) \<and> of_vals (vals_of x) = Inr x"
    and dec: "\<And>bs. dec bs = (if length bs = items_size fs then of_vals (unpack_items fs bs) else Inl e)"
    and inv: "\<And>vs x. fits fs vs \<Longrightarrow> of_vals vs = Inr x \<Longrightarrow> ok x \<and> vals_of x = vs"
  shows "fixed_layout enc dec ok (items_size fs)"
proof
  fix x assume x: "ok x"
  then show "\<exists>bs. enc x = Inr bs \<and> length bs = items_size fs \<and> dec bs = Inr x"
    using enc [OF x] assms(1) pack_items_fits [of fs "vals_of x"] pack_items_length [of fs "vals_of x"]
    by (auto simp: struct_pack_def dec)
next
  fix bs x assume "dec bs = Inr x"
  then have l: "length bs = items_size fs" and f: "of_vals (unpack_items fs bs) = Inr x"
    by (auto simp: dec split: if_splits)
  then show "length bs = items_size fs \<and> ok x \<and> enc x = Inr bs"
    using unpack_items_fits [OF l assms(2)] inv [OF _ f] enc [of x] assms(1)
    by (auto simp: struct_pack_def)
qed

end
