(* ===== verification/Utf8.thy ===== *)
theory Utf8
  imports Prelude
begin

text \<open>
  \<^emph>\<open>str.encode("utf-8")\<close> and \<^emph>\<open>bytes.decode("utf-8")\<close> in strict mode: surrogates are not
  encodable; the decoder refuses stray and missing continuation bytes, overlong forms,
  surrogates and code points above 0x10FFFF. A code point above that bound is no character of
  a Python string; the encoder gives it the same error.
\<close>

section \<open>One character\<close>

definition scalar :: "nat \<Rightarrow> bool" where
  "scalar c \<longleftrightarrow> c < 0xD800 \<or> 0xE000 \<le> c \<and> c < 0x110000"

definition utf8_char :: "nat \<Rightarrow> nat list" where
  "utf8_char c =
     (if c < 0x80 then [c]
      else if c < 0x800 then [0xC0 + c div 64, 0x80 + c mod 64]
      else if c < 0x10000 then [0xE0 + c div 4096, 0x80 + c div 64 mod 64, 0x80 + c mod 64]
      else [0xF0 + c div 262144, 0x80 + c div 4096 mod 64, 0x80 + c div 64 mod 64, 0x80 + c mod 64])"

definition cont :: "nat \<Rightarrow> bool" where
  "cont b \<longleftrightarrow> 0x80 \<le> b \<and> b < 0xC0"

text \<open>The length of the sequence a first byte announces, and its own bits; 0 for a bad one.\<close>

definition lead :: "nat \<Rightarrow> nat \<times> nat" where
  "lead a =
     (if a < 0x80 then (1, a) else if a < 0xC2 then (0, 0) else if a < 0xE0 then (2, a - 0xC0)
      else if a < 0xF0 then (3, a - 0xE0) else if a < 0xF5 then (4, a - 0xF0) else (0, 0))"

definition utf8_value :: "nat \<Rightarrow> nat list \<Rightarrow> nat" where
  "utf8_value a bs = foldl (\<lambda>v b. v * 64 + (b - 0x80)) a bs"

fun utf8_least :: "nat \<Rightarrow> nat" where
  "utf8_least n = (if n = 2 then 0x80 else if n = 3 then 0x800 else if n = 4 then 0x10000 else 0)"

text \<open>The first character of a non-empty string and how many bytes it takes.\<close>

definition utf8_next :: "nat list \<Rightarrow> (nat \<times> nat) option" where
  "utf8_next xs =
     (let (n, a) = lead (hd xs); more = take (n - 1) (tl xs); c = utf8_value a more in
      if n = 0 \<or> length more \<noteq> n - 1 \<or> \<not> list_all cont more \<or> c < utf8_least n \<or> \<not> scalar c then None
      else Some (c, n))"

lemma lead_cases:
  "lead a = (n, v) \<Longrightarrow> n = 0 \<or> n = 1 \<and> v = a \<and> a < 128 \<or> n = 2 \<and> a = v + 192 \<and> v < 32
     \<or> n = 3 \<and> a = v + 224 \<and> v < 16 \<or> n = 4 \<and> a = v + 240 \<and> v < 5"
  by (auto simp: lead_def split: if_splits)

lemma utf8_next_some: "utf8_next xs = Some (c, n) \<Longrightarrow> 0 < n"
  by (auto simp: utf8_next_def Let_def split: prod.splits if_splits)

lemma utf8_char_nonempty [simp]: "utf8_char c \<noteq> []"
  by (simp add: utf8_char_def)

lemma utf8_char_bytes: "scalar c \<Longrightarrow> b \<in> set (utf8_char c) \<Longrightarrow> b < 256"
  by (auto simp: utf8_char_def scalar_def split: if_splits)

text \<open>Digits in base 64.\<close>

lemma digit64: "b < 64 \<Longrightarrow> (v * 64 + b) div 64 = v \<and> (v * 64 + b) mod 64 = (b :: nat)"
  by simp

lemma digits64_2:
  assumes "b < 64" "d < 64"
  shows "(4096 * v + b * 64 + d) div 64 mod 64 = (b :: nat)" "(4096 * v + b * 64 + d) mod 64 = d"
    "(4096 * v + b * 64 + d) div 4096 = v"
proof -
  have e: "4096 * v + b * 64 + d = (v * 64 + b) * 64 + d" by simp
  have q: "x div 4096 = x div 64 div 64" for x :: nat by (simp add: div_mult2_eq [symmetric])
  show "(4096 * v + b * 64 + d) div 64 mod 64 = b" "(4096 * v + b * 64 + d) mod 64 = d"
    "(4096 * v + b * 64 + d) div 4096 = v"
    unfolding e q using digit64 [OF assms(2)] digit64 [OF assms(1)] by presburger+
qed

lemma digits64_3:
  assumes "b < 64" "d < 64" "e < 64"
  shows "(262144 * v + 4096 * b + d * 64 + e) div 262144 = (v :: nat)"
    "(262144 * v + 4096 * b + d * 64 + e) div 4096 mod 64 = b"
    "(262144 * v + 4096 * b + d * 64 + e) div 64 mod 64 = d"
    "(262144 * v + 4096 * b + d * 64 + e) mod 64 = e"
proof -
  have n: "262144 * v + 4096 * b + d * 64 + e = ((v * 64 + b) * 64 + d) * 64 + e" by simp
  have q: "x div 4096 = x div 64 div 64" "x div 262144 = x div 64 div 64 div 64" for x :: nat
    by (simp_all add: div_mult2_eq [symmetric])
  show "(262144 * v + 4096 * b + d * 64 + e) div 262144 = v"
    "(262144 * v + 4096 * b + d * 64 + e) div 4096 mod 64 = b"
    "(262144 * v + 4096 * b + d * 64 + e) div 64 mod 64 = d"
    "(262144 * v + 4096 * b + d * 64 + e) mod 64 = e"
    unfolding n q using digit64 [OF assms(1)] digit64 [OF assms(2)] digit64 [OF assms(3)] by presburger+
qed

lemma utf8_value_simps [simp]:
  "utf8_value a [] = a"
  "utf8_value a (b # bs) = utf8_value (a * 64 + (b - 0x80)) bs"
  by (simp_all add: utf8_value_def)

lemma utf8_value_digits:
  "utf8_value (c div 64) [0x80 + c mod 64] = c"
  "utf8_value (c div 4096) [0x80 + c div 64 mod 64, 0x80 + c mod 64] = c"
  "utf8_value (c div 262144) [0x80 + c div 4096 mod 64, 0x80 + c div 64 mod 64, 0x80 + c mod 64] = c"
proof -
  have q: "c div 4096 = c div 64 div 64" "c div 262144 = c div 64 div 64 div 64"
    by (simp_all add: div_mult2_eq [symmetric])
  show "utf8_value (c div 64) [0x80 + c mod 64] = c"
    "utf8_value (c div 4096) [0x80 + c div 64 mod 64, 0x80 + c mod 64] = c"
    "utf8_value (c div 262144) [0x80 + c div 4096 mod 64, 0x80 + c div 64 mod 64, 0x80 + c mod 64] = c"
    by (simp_all only: utf8_value_simps q add_diff_cancel_left' div_mult_mod_eq)
qed

lemma utf8_next_char:
  assumes "scalar c"
  shows "utf8_next (utf8_char c @ r) = Some (c, length (utf8_char c))"
proof -
  note d = utf8_char_def utf8_next_def lead_def cont_def utf8_value_digits
  consider "c < 128" | "128 \<le> c" "c < 2048" | "2048 \<le> c" "c < 65536" | "65536 \<le> c" "c < 0x110000"
    using assms unfolding scalar_def by linarith
  then show ?thesis
  proof cases
    case 1
    then show ?thesis using assms by (simp add: d)
  next
    case 2
    have "2 \<le> c div 64" "c div 64 < 32"
      using div_le_mono [OF 2(1), of 64] 2(2) by (simp_all add: less_mult_imp_div_less)
    with 2 assms show ?thesis by (simp add: d del: utf8_value_simps)
  next
    case 3
    have "c div 4096 < 16" using 3(2) by (simp add: less_mult_imp_div_less)
    with 3 assms show ?thesis by (simp add: d del: utf8_value_simps)
  next
    case 4
    have "c div 262144 < 5" using 4(2) by (simp add: less_mult_imp_div_less)
    with 4 assms show ?thesis by (simp add: d del: utf8_value_simps)
  qed
qed

lemma utf8_next_inverse:
  assumes "utf8_next xs = Some (c, n)" "xs \<noteq> []"
  shows "scalar c \<and> take n xs = utf8_char c \<and> length (utf8_char c) = n"
proof -
  obtain x ys where xs: "xs = x # ys" using assms(2) by (cases xs) auto
  obtain v where l: "lead x = (n, v)" and n: "n \<noteq> 0" and len: "length (take (n - 1) ys) = n - 1"
    and ct: "list_all cont (take (n - 1) ys)" and c: "c = utf8_value v (take (n - 1) ys)"
    and g: "utf8_least n \<le> c" "scalar c"
    using assms(1) by (auto simp: utf8_next_def xs Let_def not_less split: prod.splits if_splits)
  from lead_cases [OF l] n consider "n = 1" "v = x" "x < 128" | "n = 2" "x = v + 192" "v < 32"
    | "n = 3" "x = v + 224" "v < 16" | "n = 4" "x = v + 240" "v < 5" by auto
  then show ?thesis
  proof cases
    case 1
    with c g show ?thesis by (simp add: xs utf8_value_def utf8_char_def)
  next
    case 2
    then obtain b r where "ys = b # r" using len by (cases ys) auto
    moreover from this 2 ct obtain b' where "b = b' + 128" "b' < 64"
      by (auto simp: cont_def nat_le_iff_add)
    ultimately show ?thesis using 2 c g by (auto simp: xs utf8_value_def utf8_char_def)
  next
    case 3
    then obtain b d r where "ys = b # d # r" using len by (cases ys; cases "tl ys") auto
    moreover from this 3 ct obtain b' d' where "b = b' + 128" "b' < 64" "d = d' + 128" "d' < 64"
      by (auto simp: cont_def nat_le_iff_add)
    ultimately show ?thesis using 3 c g by (auto simp: xs utf8_value_def utf8_char_def digits64_2)
  next
    case 4
    then obtain b d e r where "ys = b # d # e # r"
      using len by (cases ys; cases "tl ys"; cases "tl (tl ys)") auto
    moreover from this 4 ct obtain b' d' e' where "b = b' + 128" "b' < 64" "d = d' + 128" "d' < 64"
      "e = e' + 128" "e' < 64" by (auto simp: cont_def nat_le_iff_add)
    ultimately show ?thesis using 4 c g by (auto simp: xs utf8_value_def utf8_char_def digits64_3)
  qed
qed

section \<open>Strings\<close>

definition utf8_encode :: "pystr \<Rightarrow> bytes res" where
  "utf8_encode s = (if list_all scalar s then Inr (map of_nat (concat (map utf8_char s))) else Inl UnicodeError)"

function utf8_scan :: "nat list \<Rightarrow> pystr res" where
  "utf8_scan xs =
     (if xs = [] then Inr []
      else case utf8_next xs of
        None \<Rightarrow> Inl UnicodeError
      | Some (c, n) \<Rightarrow> res_bind (utf8_scan (drop n xs)) (\<lambda>s. Inr (c # s)))"
  by auto
termination
  by (relation "measure length") (auto dest: utf8_next_some)

declare utf8_scan.simps [simp del]

definition utf8_decode :: "bytes \<Rightarrow> pystr res" where
  "utf8_decode bs = utf8_scan (map unat bs)"

lemma utf8_scan_concat: "list_all scalar s \<Longrightarrow> utf8_scan (concat (map utf8_char s)) = Inr s"
proof (induction s)
  case Nil
  then show ?case by (simp add: utf8_scan.simps)
next
  case (Cons c s)
  then show ?case
    by (subst utf8_scan.simps) (simp add: utf8_next_char)
qed

lemma utf8_scan_inverse: "utf8_scan xs = Inr s \<Longrightarrow> list_all scalar s \<and> concat (map utf8_char s) = xs"
proof (induction xs arbitrary: s rule: utf8_scan.induct)
  case (1 xs)
  show ?case
  proof (cases "xs = []")
    case True
    with 1(2) show ?thesis by (simp add: utf8_scan.simps)
  next
    case False
    with 1(2) obtain c n t where n: "utf8_next xs = Some (c, n)" and t: "utf8_scan (drop n xs) = Inr t"
      and s: "s = c # t"
      by (subst (asm) utf8_scan.simps) (auto split: option.splits)
    from 1(1) [OF False n refl t] utf8_next_inverse [OF n False] show ?thesis
      using append_take_drop_id [of n xs] by (simp add: s)
  qed
qed

lemma map_unat_of_nat: "(\<And>n. n \<in> set ns \<Longrightarrow> n < 256) \<Longrightarrow> map unat (map of_nat ns :: bytes) = ns"
  by (induction ns) (auto simp: unsigned_of_nat take_bit_eq_mod)

lemma utf8_decode_encode:
  assumes "utf8_encode s = Inr bs"
  shows "utf8_decode bs = Inr s"
proof -
  from assms have s: "list_all scalar s" and b: "bs = map of_nat (concat (map utf8_char s))"
    by (auto simp: utf8_encode_def split: if_splits)
  have "map unat bs = concat (map utf8_char s)"
    unfolding b using s by (intro map_unat_of_nat) (auto simp: list_all_iff dest: utf8_char_bytes)
  with s show ?thesis by (simp add: utf8_decode_def utf8_scan_concat)
qed

lemma utf8_encode_decode:
  assumes "utf8_decode bs = Inr s"
  shows "utf8_encode s = Inr bs"
proof -
  from utf8_scan_inverse [OF assms [unfolded utf8_decode_def]] have
    "list_all scalar s" "concat (map utf8_char s) = map unat bs" by auto
  then show ?thesis by (simp add: utf8_encode_def map_idI)
qed

lemma utf8_scan_error: "utf8_scan xs = Inl e \<Longrightarrow> e = UnicodeError"
proof (induction xs rule: utf8_scan.induct)
  case (1 xs)
  from 1(2) show ?case
    by (subst (asm) utf8_scan.simps)
       (auto simp: res_bind_eq_Inl split: if_splits option.splits intro: 1(1))
qed

lemma utf8_decode_error: "utf8_decode bs = Inl e \<Longrightarrow> e = UnicodeError"
  unfolding utf8_decode_def by (rule utf8_scan_error)

lemma utf8_encode_error: "utf8_encode s = Inl e \<Longrightarrow> e = UnicodeError"
  by (simp add: utf8_encode_def split: if_splits)

text \<open>
  UTF-8 is an exact correspondence: a string encodes to a byte string if and only if the
  byte string decodes to it, so the decoder accepts no second spelling of a text.
\<close>

lemma utf8_exact: "utf8_encode s = Inr bs \<longleftrightarrow> utf8_decode bs = Inr s"
  using utf8_decode_encode utf8_encode_decode by blast

end
