(* ===== verification/Transport.thy ===== *)
theory Transport
  imports Struct_Codec Utf8
begin

text \<open>
  The framing of \<^emph>\<open>transport/socket_transport.py\<close>: the frame \<^emph>\<open>send\<close> writes and the reads of
  \<^emph>\<open>_handle\<close>. A connection is the list of chunks the operating system will hand over: TCP keeps
  the bytes and their order but not the boundaries, so the chunks are arbitrary. An empty read is
  the end of the stream.
\<close>

section \<open>Sending\<close>

text \<open>\<^emph>\<open>bytes([n])\<close> and \<^emph>\<open>n.to_bytes(4, "big")\<close>.\<close>

definition byte_of_len :: "nat \<Rightarrow> bytes res" where
  "byte_of_len n = (if n < 256 then Inr [word_of_nat n] else Inl (ValueError ''bytes must be in range(0, 256)''))"

definition to_bytes4 :: "nat \<Rightarrow> bytes res" where
  "to_bytes4 n = (if int n < 256 ^ 4 then Inr (be_bytes 4 (int n)) else Inl OverflowError)"

definition send_frame :: "pystr \<Rightarrow> bytes \<Rightarrow> bytes res" where
  "send_frame address bs =
     res_bind (utf8_encode address) (\<lambda>addr_bytes.
     res_bind (byte_of_len (length addr_bytes)) (\<lambda>l.
     res_bind (to_bytes4 (length bs)) (\<lambda>n.
     Inr (l @ addr_bytes @ n @ bs))))"

section \<open>Receiving\<close>

text \<open>\<^emph>\<open>conn.recv(k)\<close>: at most \<open>k\<close> bytes of what has arrived; the rest of a chunk stays.\<close>

fun conn_recv :: "nat \<Rightarrow> bytes list \<Rightarrow> bytes \<times> bytes list" where
  "conn_recv k [] = ([], [])"
| "conn_recv k (c # cs) = (take k c, if length c \<le> k then cs else drop k c # cs)"

function recv_loop :: "nat \<Rightarrow> bytes \<Rightarrow> bytes list \<Rightarrow> bytes option \<times> bytes list" where
  "recv_loop n buf conn =
     (if length buf < n then
        (case conn_recv (n - length buf) conn of (chunk, conn') \<Rightarrow>
           if chunk = [] then (None, conn') else recv_loop n (buf @ chunk) conn')
      else (Some buf, conn))"
  by pat_completeness auto
termination
  by (relation "measure (\<lambda>(n, buf, conn). n - length buf)") (auto simp: diff_less_mono2)

declare recv_loop.simps [simp del]

definition recv_exact :: "nat \<Rightarrow> bytes list \<Rightarrow> bytes option \<times> bytes list" where
  "recv_exact n conn = recv_loop n [] conn"

text \<open>
  \<^emph>\<open>_handle\<close>: the call of the callback it makes, if any. Decoding the address may raise.
\<close>

definition handle_conn :: "bytes list \<Rightarrow> (pystr \<times> bytes) option res" where
  "handle_conn conn =
     (case recv_exact 1 conn of (addr_len_raw, conn1) \<Rightarrow>
      if addr_len_raw = None \<or> addr_len_raw = Some [] then Inr None
      else
        (case recv_exact (unat (the addr_len_raw ! 0)) conn1 of (addr_bytes, conn2) \<Rightarrow>
         if addr_bytes = None \<or> addr_bytes = Some [] then Inr None
         else
           (case recv_exact 4 conn2 of (data_len_raw, conn3) \<Rightarrow>
            if data_len_raw = None \<or> data_len_raw = Some [] then Inr None
            else
              (case recv_exact (nat (be_val (the data_len_raw))) conn3 of (dat, _) \<Rightarrow>
               if dat = None then Inr None
               else res_bind (utf8_decode (the addr_bytes)) (\<lambda>sender_id. Inr (Some (sender_id, the dat)))))))"

section \<open>Reading from arbitrary chunks\<close>

lemma conn_recv_concat:
  assumes "[] \<notin> set conn" "0 < k"
  shows "concat conn = fst (conn_recv k conn) @ concat (snd (conn_recv k conn))"
    "[] \<notin> set (snd (conn_recv k conn))" "length (fst (conn_recv k conn)) \<le> k"
    "fst (conn_recv k conn) = [] \<longleftrightarrow> conn = []"
  using assms by (cases conn; auto)+

text \<open>
  A read of \<open>n\<close> bytes takes exactly the next \<open>n\<close> bytes of the stream, however they are cut, or
  fails at the end of a stream that is too short.
\<close>

lemma recv_loop_spec:
  assumes "[] \<notin> set conn" "length buf \<le> n"
  shows "(n - length buf \<le> length (concat conn) \<longrightarrow>
      (\<exists>conn'. recv_loop n buf conn = (Some (buf @ take (n - length buf) (concat conn)), conn') \<and>
        [] \<notin> set conn' \<and> concat conn' = drop (n - length buf) (concat conn))) \<and>
    (length (concat conn) < n - length buf \<longrightarrow> fst (recv_loop n buf conn) = None)"
  using assms
proof (induction n buf conn rule: recv_loop.induct)
  case (1 n buf conn)
  show ?case
  proof (cases "length buf < n")
    case False
    with 1(3) have "length buf = n" by simp
    then show ?thesis using 1(2) by (simp add: recv_loop.simps)
  next
    case True
    obtain chunk conn' where r: "conn_recv (n - length buf) conn = (chunk, conn')" by fastforce
    note c = conn_recv_concat [OF 1(2), of "n - length buf", unfolded r, simplified]
    show ?thesis
    proof (cases "chunk = []")
      case True
      with c(4) \<open>length buf < n\<close> have "conn = []" by simp
      with r \<open>length buf < n\<close> True show ?thesis by (subst (1 2) recv_loop.simps) simp
    next
      case False
      have l: "length chunk \<le> n - length buf" "concat conn = chunk @ concat conn'" "[] \<notin> set conn'"
        using c True by simp_all
      have e: "recv_loop n buf conn = recv_loop n (buf @ chunk) conn'"
        using True False r by (subst recv_loop.simps) simp
      have "length (buf @ chunk) \<le> n" using l(1) True by simp
      from 1(1) [OF True r [symmetric] False l(3) this] show ?thesis
        unfolding e l(2) using l(1) by (auto simp: diff_diff_left)
    qed
  qed
qed

lemma recv_exact_some:
  assumes "[] \<notin> set conn" "concat conn = xs @ ys" "length xs = n"
  shows "\<exists>conn'. recv_exact n conn = (Some xs, conn') \<and> [] \<notin> set conn' \<and> concat conn' = ys"
  using recv_loop_spec [OF assms(1), of "[]" n] assms(2,3) by (auto simp: recv_exact_def)

lemma recv_exact_none:
  assumes "[] \<notin> set conn" "length (concat conn) < n"
  shows "fst (recv_exact n conn) = None"
  using recv_loop_spec [OF assms(1), of "[]" n] assms(2) by (simp add: recv_exact_def)

section \<open>Frames\<close>

lemma be_bytes_4:
  "be_bytes 4 v = [word_of_int (v div 256 div 256 div 256), word_of_int (v div 256 div 256),
     word_of_int (v div 256), word_of_int v]"
proof -
  have "(4 :: nat) = Suc (Suc (Suc (Suc 0)))" by simp
  then show ?thesis by (simp only: be_bytes.simps append.simps)
qed

lemma demo_frame: "send_frame [97, 58, 49] [7, 8] = Inr [3, 97, 58, 49, 0, 0, 0, 2, 7, 8]"
  by (simp add: send_frame_def utf8_encode_def utf8_char_def scalar_def byte_of_len_def to_bytes4_def be_bytes_4)

text \<open>
  Frames survive the stream: a frame that \<^emph>\<open>send\<close> builds, cut into any non-empty chunks and
  followed by anything, makes the receiver call back with exactly the sender's address and data.
\<close>

lemma frame_roundtrip:
  assumes "send_frame address bs = Inr frame" "address \<noteq> []"
    and "[] \<notin> set chunks" "concat chunks = frame @ rest"
  shows "handle_conn chunks = Inr (Some (address, bs))"
proof -
  obtain a where a: "utf8_encode address = Inr a" "length a < 256" "length bs < 256 ^ 4"
    and f: "frame = word_of_nat (length a) # a @ be_bytes 4 (int (length bs)) @ bs"
    using assms(1) by (auto simp: send_frame_def byte_of_len_def to_bytes4_def split: if_splits)
  have ne: "a \<noteq> []" using a(1) assms(2) by (auto simp: utf8_encode_def split: if_splits)
  have la: "unat (word_of_nat (length a) :: byte) = length a"
    using a(2) by (simp add: unsigned_of_nat take_bit_eq_mod)
  have lb: "nat (be_val (be_bytes 4 (int (length bs)))) = length bs"
    using a(3) by (simp add: be_val_be_bytes)
  obtain c1 where c1: "recv_exact 1 chunks = (Some [word_of_nat (length a)], c1)" "[] \<notin> set c1"
    "concat c1 = a @ be_bytes 4 (int (length bs)) @ bs @ rest"
    using recv_exact_some [OF assms(3), of "[word_of_nat (length a)]"] assms(4) f by auto
  obtain c2 where c2: "recv_exact (length a) c1 = (Some a, c2)" "[] \<notin> set c2"
    "concat c2 = be_bytes 4 (int (length bs)) @ bs @ rest"
    using recv_exact_some [OF c1(2,3)] by auto
  obtain c3 where c3: "recv_exact 4 c2 = (Some (be_bytes 4 (int (length bs))), c3)" "[] \<notin> set c3"
    "concat c3 = bs @ rest"
    using recv_exact_some [OF c2(2,3)] by auto
  obtain c4 where c4: "recv_exact (length bs) c3 = (Some bs, c4)"
    using recv_exact_some [OF c3(2,3)] by auto
  have n4: "be_bytes 4 (int (length bs)) \<noteq> []" by (simp add: be_bytes_4)
  show ?thesis
    using ne n4 by (simp add: handle_conn_def c1(1) [simplified] la c2(1) c3(1) lb c4 utf8_decode_encode [OF a(1)])
qed

lemma frame_roundtrip_witness:
  "handle_conn [[3, 97, 58], [49, 0, 0, 0], [2, 7], [8]] = Inr (Some ([97, 58, 49], [7, 8]))"
proof (rule frame_roundtrip [where rest = "[]"])
  show "send_frame [97, 58, 49] [7, 8] = Inr [3, 97, 58, 49, 0, 0, 0, 2, 7, 8]" by (rule demo_frame)
qed simp_all

text \<open>
  No partial delivery: while only a proper prefix of a frame has arrived when the connection
  ends, the callback is not called and nothing is raised.
\<close>

lemma truncated_frame_is_ignored:
  assumes "send_frame address bs = Inr frame" "[] \<notin> set chunks"
    and "frame = concat chunks @ missing" "missing \<noteq> []"
  shows "handle_conn chunks = Inr None"
proof -
  obtain a where a: "length a < 256" "length bs < 256 ^ 4"
    and f: "frame = [word_of_nat (length a)] @ a @ be_bytes 4 (int (length bs)) @ bs"
    using assms(1) by (auto simp: send_frame_def byte_of_len_def to_bytes4_def split: if_splits)
  have la: "unat (word_of_nat (length a) :: byte) = length a"
    using a(1) by (simp add: unsigned_of_nat take_bit_eq_mod)
  have lb: "nat (be_val (be_bytes 4 (int (length bs)))) = length bs"
    using a(2) by (simp add: be_val_be_bytes)
  have read: "fst (recv_exact (length xs) conn) = None \<or>
      (\<exists>conn'. recv_exact (length xs) conn = (Some xs, conn') \<and> [] \<notin> set conn' \<and> ys = concat conn' @ missing)"
    if "[] \<notin> set conn" "xs @ ys = concat conn @ missing" for xs ys :: bytes and conn
  proof (cases "length (concat conn) < length xs")
    case True
    with recv_exact_none [OF that(1)] show ?thesis by blast
  next
    case False
    then have "concat conn = xs @ drop (length xs) (concat conn)"
      using arg_cong [OF that(2), of "take (length xs)"] append_take_drop_id [of "length xs" "concat conn"] by simp
    then obtain zs where z: "concat conn = xs @ zs" by blast
    with that(2) have "ys = zs @ missing" by simp
    note z = z this
    from recv_exact_some [OF that(1) z(1) refl] z(2) show ?thesis by auto
  qed
  have n4: "be_bytes 4 (int (length bs)) \<noteq> []" by (simp add: be_bytes_4)
  show ?thesis
  proof (cases "fst (recv_exact 1 chunks) = None")
    case True
    then show ?thesis by (auto simp: handle_conn_def split: prod.splits)
  next
    case False
    with read [OF assms(2) assms(3) [unfolded f]] obtain c1 where c1:
      "recv_exact 1 chunks = (Some [word_of_nat (length a)], c1)" "[] \<notin> set c1"
      "a @ be_bytes 4 (int (length bs)) @ bs = concat c1 @ missing" by auto
    show ?thesis
    proof (cases "fst (recv_exact (length a) c1) = None")
      case True
      then show ?thesis by (auto simp: handle_conn_def c1(1) [simplified] la split: prod.splits)
    next
      case False
      with read [OF c1(2,3)] obtain c2 where c2: "recv_exact (length a) c1 = (Some a, c2)" "[] \<notin> set c2"
        "be_bytes 4 (int (length bs)) @ bs = concat c2 @ missing" by auto
      show ?thesis
      proof (cases "fst (recv_exact 4 c2) = None")
        case True
        then show ?thesis by (auto simp: handle_conn_def c1(1) [simplified] la c2(1) split: prod.splits)
      next
        case False
        with read [OF c2(2,3)] obtain c3 where c3:
          "recv_exact 4 c2 = (Some (be_bytes 4 (int (length bs))), c3)" "[] \<notin> set c3"
          "bs = concat c3 @ missing" by auto
        have "fst (recv_exact (length bs) c3) = None"
          using assms(4) c3(3) by (intro recv_exact_none [OF c3(2)]) simp
        then show ?thesis
          by (auto simp: handle_conn_def c1(1) [simplified] la c2(1) c3(1) lb split: prod.splits)
      qed
    qed
  qed
qed

lemma truncated_frame_is_ignored_witness:
  "handle_conn [[3, 97, 58], [49, 0, 0, 0], [2, 7]] = Inr None"
proof (rule truncated_frame_is_ignored [where missing = "[8]"])
  show "send_frame [97, 58, 49] [7, 8] = Inr [3, 97, 58, 49, 0, 0, 0, 2, 7, 8]" by (rule demo_frame)
qed simp_all

end
