(* ===== verification/Py_Text.thy ===== *)
theory Py_Text
  imports Prelude
begin

text \<open>
  What the code uses of Python's text methods: \<^emph>\<open>split\<close>, \<^emph>\<open>rsplit\<close>, \<^emph>\<open>str\<close> of an integer and
  \<^emph>\<open>int\<close> of a text, bases 10 and 0. The two Unicode tables that \<^emph>\<open>int\<close> consults for
  characters outside ASCII are a parameter.
\<close>

section \<open>Splitting\<close>

text \<open>\<^emph>\<open>s.split(sep)\<close> for a one-character separator: one part more than separators.\<close>

fun split_on :: "nat \<Rightarrow> pystr \<Rightarrow> pystr list" where
  "split_on c [] = [[]]"
| "split_on c (x # xs) =
     (if x = c then [] # split_on c xs
      else case split_on c xs of [] \<Rightarrow> [[x]] | p # ps \<Rightarrow> (x # p) # ps)"

text \<open>\<^emph>\<open>s.split(sep, 1)\<close> and \<^emph>\<open>s.rsplit(sep, 1)\<close>.\<close>

fun split_first :: "nat \<Rightarrow> pystr \<Rightarrow> pystr list" where
  "split_first c [] = [[]]"
| "split_first c (x # xs) =
     (if x = c then [[], xs]
      else case split_first c xs of [] \<Rightarrow> [[x]] | p # ps \<Rightarrow> (x # p) # ps)"

definition rsplit_last :: "nat \<Rightarrow> pystr \<Rightarrow> pystr list" where
  "rsplit_last c s = rev (map rev (split_first c (rev s)))"

lemma split_on_none: "c \<notin> set xs \<Longrightarrow> split_on c xs = [xs]"
  by (induction xs) auto

lemma split_on_app: "c \<notin> set xs \<Longrightarrow> split_on c (xs @ c # ys) = xs # split_on c ys"
  by (induction xs) auto

lemma split_first_none: "c \<notin> set xs \<Longrightarrow> split_first c xs = [xs]"
  by (induction xs) auto

lemma split_first_app: "c \<notin> set xs \<Longrightarrow> split_first c (xs @ c # ys) = [xs, ys]"
  by (induction xs) auto

lemma rsplit_last_none: "c \<notin> set xs \<Longrightarrow> rsplit_last c xs = [xs]"
  by (simp add: rsplit_last_def split_first_none)

lemma rsplit_last_app: "c \<notin> set ys \<Longrightarrow> rsplit_last c (xs @ c # ys) = [xs, ys]"
  using split_first_app [of c "rev ys" "rev xs"] by (simp add: rsplit_last_def)

text \<open>\<^emph>\<open>sep.join(parts)\<close>, the inverse of \<^emph>\<open>split\<close> on parts without the separator.\<close>

fun join :: "nat \<Rightarrow> pystr list \<Rightarrow> pystr" where
  "join c [] = []"
| "join c [p] = p"
| "join c (p # q # ps) = p @ c # join c (q # ps)"

lemma split_on_join:
  assumes "ps \<noteq> []" "list_all (\<lambda>p. c \<notin> set p) ps"
  shows "split_on c (join c ps) = ps"
  using assms by (induction c ps rule: join.induct) (simp_all add: split_on_none split_on_app)

section \<open>Integers\<close>

record unicode =
  decimal_value :: "nat \<Rightarrow> nat option"   \<comment> \<open>unicodedata.decimal, of a character above 127\<close>
  is_uspace :: "nat \<Rightarrow> bool"              \<comment> \<open>isspace, of a character above 127\<close>

text \<open>
  Every decimal digit and space of another script is replaced by its ASCII counterpart; a question
  mark stands for what is neither, and no integer contains one.
\<close>

definition to_ascii :: "unicode \<Rightarrow> nat \<Rightarrow> nat" where
  "to_ascii U c =
     (if c < 128 then c else if is_uspace U c then 32
      else case decimal_value U c of Some d \<Rightarrow> 48 + d | None \<Rightarrow> 63)"

definition c_space :: "nat \<Rightarrow> bool" where
  "c_space c \<longleftrightarrow> c \<in> {9, 10, 11, 12, 13, 32}"

definition digit_val :: "nat \<Rightarrow> nat option" where
  "digit_val c =
     (if 48 \<le> c \<and> c \<le> 57 then Some (c - 48)
      else if 97 \<le> c \<and> c \<le> 122 then Some (c - 87)
      else if 65 \<le> c \<and> c \<le> 90 then Some (c - 55) else None)"

text \<open>
  The digits of a base, single underscores between them allowed, and what follows. The flag says
  that a digit must come: at the start and after an underscore.
\<close>

fun scan_digits :: "nat \<Rightarrow> bool \<Rightarrow> pystr \<Rightarrow> (nat list \<times> pystr) option" where
  "scan_digits b must [] = (if must then None else Some ([], []))"
| "scan_digits b must (c # cs) =
     (if c = 95 then (if must then None else scan_digits b True cs)
      else case digit_val c of
        Some d \<Rightarrow>
          if d < b then map_option (\<lambda>(ds, rest). (d # ds, rest)) (scan_digits b False cs)
          else if must then None else Some ([], c # cs)
      | None \<Rightarrow> if must then None else Some ([], c # cs))"

definition digits_value :: "nat \<Rightarrow> nat list \<Rightarrow> nat" where
  "digits_value b ds = foldl (\<lambda>a d. a * b + d) 0 ds"

text \<open>The interpreter's limit on decimal conversions, \<^emph>\<open>sys.int_info.default_max_str_digits\<close>.\<close>

definition MAX_STR_DIGITS :: nat where "MAX_STR_DIGITS = 4300"

lemma MAX_STR_DIGITS_pos: "0 < MAX_STR_DIGITS"
  by (simp add: MAX_STR_DIGITS_def)

definition bad_literal :: exn where
  "bad_literal = ValueError ''invalid literal for int()''"

text \<open>
  The base a literal announces, and its digits: with base 0 a prefix decides, an underscore may
  follow it, and a decimal literal that starts with 0 must be zero.
\<close>

definition literal_base :: "nat \<Rightarrow> pystr \<Rightarrow> nat \<times> bool \<times> pystr" where
  "literal_base base s =
     (let unders = (\<lambda>t. case t of c # cs \<Rightarrow> (if c = 95 then cs else t) | [] \<Rightarrow> []) in
      if base \<noteq> 0 then (base, False, s)
      else case s of
        c # cs \<Rightarrow>
          if c \<noteq> 48 then (10, False, s)
          else (case cs of
              x # t \<Rightarrow>
                if x = 120 \<or> x = 88 then (16, False, unders t)
                else if x = 111 \<or> x = 79 then (8, False, unders t)
                else if x = 98 \<or> x = 66 then (2, False, unders t)
                else (10, True, s)
            | [] \<Rightarrow> (10, True, s))
      | [] \<Rightarrow> (10, False, s))"

definition int_magnitude :: "nat \<Rightarrow> pystr \<Rightarrow> nat res" where
  "int_magnitude base s =
     (case literal_base base s of (b, only_zero, t) \<Rightarrow>
      case scan_digits b True t of
        None \<Rightarrow> Inl bad_literal
      | Some (ds, rest) \<Rightarrow>
          if b = 10 \<and> length ds > MAX_STR_DIGITS
          then Inl (ValueError ''Exceeds the limit for integer string conversion'')
          else if only_zero \<and> digits_value b ds \<noteq> 0 then Inl bad_literal
          else if list_all c_space rest then Inr (digits_value b ds) else Inl bad_literal)"

text \<open>\<^emph>\<open>int(s, base)\<close> for base 10 (the default) and 0.\<close>

definition int_of_text :: "unicode \<Rightarrow> nat \<Rightarrow> pystr \<Rightarrow> int res" where
  "int_of_text U base s =
     (case dropWhile c_space (map (to_ascii U) s) of
        [] \<Rightarrow> Inl bad_literal
      | c # cs \<Rightarrow>
          if c = 45 then res_bind (int_magnitude base cs) (\<lambda>n. Inr (- int n))
          else res_bind (int_magnitude base (if c = 43 then cs else c # cs)) (\<lambda>n. Inr (int n)))"

lemma int_of_text_error: "int_of_text U base s = Inl e \<Longrightarrow> is_ValueError e"
  by (auto simp: int_of_text_def int_magnitude_def bad_literal_def res_bind_eq_Inl
      split: list.splits if_splits prod.splits option.splits)

section \<open>Printing and reading back\<close>

text \<open>\<^emph>\<open>str(i)\<close>.\<close>

definition text_of_int :: "int \<Rightarrow> pystr" where
  "text_of_int i = str (show_int i)"

text \<open>The digits of a number as they are printed.\<close>

definition decimal_of :: "nat \<Rightarrow> nat list \<Rightarrow> bool" where
  "decimal_of n ds \<longleftrightarrow>
     str (show_nat n) = map (\<lambda>d. 48 + d) ds \<and> ds \<noteq> [] \<and> (\<forall>d \<in> set ds. d < 10) \<and>
     digits_value 10 ds = n \<and> (hd ds = 0 \<longrightarrow> n = 0) \<and> (\<forall>k. n < 10 ^ k \<longrightarrow> 0 < k \<longrightarrow> length ds \<le> k)"

lemma decimal_of_exists: "\<exists>ds. decimal_of n ds"
proof (induction n rule: show_nat.induct)
  case (1 n)
  show ?case
  proof (cases "n < 10")
    case True
    then show ?thesis
      by (intro exI [of _ "[n]"]) (auto simp: decimal_of_def show_nat.simps [of n] str_def digits_value_def)
  next
    case False
    then obtain ds where ds: "decimal_of (n div 10) ds" using "1.IH" by blast
    have "(of_char (char_of (48 + n mod 10) :: char) :: nat) = 48 + n mod 10" by simp
    then have t: "str (show_nat n) = map (\<lambda>d. 48 + d) (ds @ [n mod 10])"
      using False ds by (simp add: show_nat.simps [of n] str_def decimal_of_def)
    have len: "length (ds @ [n mod 10]) \<le> k" if "n < 10 ^ k" "0 < k" for k
    proof -
      note k = that
      obtain j where j: "k = Suc j" using k(2) by (cases k) auto
      have "0 < j" using k(1) False j by (cases j) auto
      moreover have "n div 10 < 10 ^ j"
        using k(1) unfolding j by (intro less_mult_imp_div_less) (simp add: mult.commute)
      ultimately show ?thesis using ds j by (simp add: decimal_of_def)
    qed
    have "digits_value 10 (ds @ [n mod 10]) = n" using ds by (simp add: decimal_of_def digits_value_def)
    with t len ds False show ?thesis
      by (intro exI [of _ "ds @ [n mod 10]"]) (auto simp: decimal_of_def)
  qed
qed

lemma scan_digits_all:
  assumes "\<forall>d \<in> set ds. d < 10" "must \<longrightarrow> ds \<noteq> []"
  shows "scan_digits 10 must (map (\<lambda>d. 48 + d) ds) = Some (ds, [])"
  using assms
proof (induction ds arbitrary: must)
  case (Cons d ds)
  then have "digit_val (48 + d) = Some d" "48 + d \<noteq> 95" by (auto simp: digit_val_def)
  with Cons show ?case by simp
qed simp

lemma int_magnitude_show:
  assumes "n < 10 ^ MAX_STR_DIGITS" "base = 0 \<or> base = 10"
  shows "int_magnitude base (str (show_nat n)) = Inr n"
proof -
  obtain ds where "decimal_of n ds" using decimal_of_exists by blast
  with assms(1) MAX_STR_DIGITS_pos have ds: "str (show_nat n) = map (\<lambda>d. 48 + d) ds" "ds \<noteq> []"
    "\<forall>d \<in> set ds. d < 10" "digits_value 10 ds = n" "hd ds = 0 \<longrightarrow> n = 0" "length ds \<le> MAX_STR_DIGITS"
    unfolding decimal_of_def by blast+
  obtain d r where d: "ds = d # r" using ds(2) by (cases ds) auto
  have "literal_base base (map (\<lambda>d. 48 + d) ds) = (10, base = 0 \<and> d = 0, map (\<lambda>d. 48 + d) ds)"
    using assms(2) ds(3) unfolding d literal_base_def by (cases r) auto
  moreover have "scan_digits 10 True (map (\<lambda>d. 48 + d) ds) = Some (ds, [])"
    using ds(2,3) by (intro scan_digits_all) auto
  moreover have "\<not> length ds > MAX_STR_DIGITS" using ds(6) by simp
  moreover have "d = 0 \<longrightarrow> n = 0" using ds(5) d by simp
  ultimately show ?thesis
    using ds(4) by (auto simp: int_magnitude_def ds(1))
qed

lemma show_nat_nonempty: "str (show_nat n) \<noteq> []"
  using decimal_of_exists [of n] by (auto simp: decimal_of_def)

lemma show_nat_ascii:
  assumes "c \<in> set (str (show_nat n))"
  shows "48 \<le> c \<and> c \<le> 57"
proof -
  obtain ds where ds: "decimal_of n ds" using decimal_of_exists by blast
  with assms obtain d where "d \<in> set ds" "c = 48 + d" unfolding decimal_of_def by (metis in_set_conv_nth length_map nth_map)
  with ds have "d < 10" by (simp add: decimal_of_def)
  with \<open>c = 48 + d\<close> show ?thesis by simp
qed

lemma text_of_int_ascii: "c \<in> set (text_of_int i) \<Longrightarrow> c = 45 \<or> (48 \<le> c \<and> c \<le> 57)"
  using show_nat_ascii by (auto simp: text_of_int_def show_int_def str_def split: if_splits)

text \<open>Printing an integer and reading it back, in either base.\<close>

lemma int_of_text_of_int:
  assumes "\<bar>i\<bar> < 10 ^ MAX_STR_DIGITS" "base = 0 \<or> base = 10"
  shows "int_of_text U base (text_of_int i) = Inr i"
proof -
  have "map (to_ascii U) (text_of_int i) = text_of_int i"
    by (intro map_idI) (auto simp: to_ascii_def dest!: text_of_int_ascii)
  moreover have "nat \<bar>i\<bar> < 10 ^ MAX_STR_DIGITS"
    using assms(1) by (simp add: nat_less_iff)
  moreover have m: "int_magnitude base (str (show_nat (nat \<bar>i\<bar>))) = Inr (nat \<bar>i\<bar>)"
    using \<open>nat \<bar>i\<bar> < _\<close> assms(2) by (rule int_magnitude_show)
  moreover obtain c cs where c: "str (show_nat (nat \<bar>i\<bar>)) = c # cs" "48 \<le> c" "c \<le> 57"
    using show_nat_ascii [of _ "nat \<bar>i\<bar>"] show_nat_nonempty [of "nat \<bar>i\<bar>"]
    by (cases "str (show_nat (nat \<bar>i\<bar>))") auto
  moreover have "text_of_int i = (if i < 0 then 45 # c # cs else c # cs)"
    using c(1) by (auto simp: text_of_int_def show_int_def str_def)
  ultimately show ?thesis
    by (auto simp: int_of_text_def c_space_def)
qed

text \<open>Tables without any character above 127.\<close>

definition ascii_unicode :: unicode where
  "ascii_unicode = \<lparr> decimal_value = (\<lambda>c. None), is_uspace = (\<lambda>c. False) \<rparr>"

end
