(* ===== verification/Socket.thy ===== *)
theory Socket
  imports Transport Py_Text
begin

text \<open>
  The object of \<^emph>\<open>transport/socket_transport.py\<close> and \<^emph>\<open>transport/base.py\<close>: its fields, its life
  from \<^emph>\<open>start\<close> to \<^emph>\<open>stop\<close>, the addresses it hands out and reads, and the listening loop. The
  operating system is an argument of the calls that ask it: the port \<^emph>\<open>bind\<close> assigns or the
  error it raises, and what each \<^emph>\<open>accept\<close> gives. \<^emph>\<open>send\<close> yields what it hands over: host, port, frame.
\<close>

section \<open>The object\<close>

record 'cb socket_transport =
  host :: pystr
  port :: int
  server :: bool                 \<comment> \<open>self._server is not None\<close>
  callback :: "'cb option"
  peers :: "pystr set"
  running :: bool

definition new_transport :: "pystr \<Rightarrow> int \<Rightarrow> 'cb socket_transport" where
  "new_transport h p =
     \<lparr> host = h, port = p, server = False, callback = None, peers = {}, running = False \<rparr>"

text \<open>\<^emph>\<open>f"{self._host}:{self._port}"\<close>.\<close>

definition transport_address :: "'cb socket_transport \<Rightarrow> pystr" where
  "transport_address t = host t @ [58] @ text_of_int (port t)"

text \<open>
  \<^emph>\<open>start\<close>: the socket is in place before \<^emph>\<open>bind\<close> and \<^emph>\<open>listen\<close>, which may raise; afterwards the
  port is the one the system assigned.
\<close>

definition transport_start :: "(pystr \<Rightarrow> int \<Rightarrow> int res) \<Rightarrow> 'cb socket_transport \<Rightarrow> unit res \<times> 'cb socket_transport" where
  "transport_start bind t =
     (let t1 = t\<lparr>server := True\<rparr> in
      case bind (host t) (port t) of
        Inl e \<Rightarrow> (Inl e, t1)
      | Inr p \<Rightarrow> (Inr (), t1\<lparr>port := p, running := True\<rparr>))"

definition transport_stop :: "'cb socket_transport \<Rightarrow> 'cb socket_transport" where
  "transport_stop t =
     (let t1 = t\<lparr>running := False\<rparr> in if server t1 then t1\<lparr>server := False\<rparr> else t1)"

definition connect_peer :: "pystr \<Rightarrow> 'cb socket_transport \<Rightarrow> 'cb socket_transport" where
  "connect_peer peer_id t = t\<lparr>peers := insert peer_id (peers t)\<rparr>"

definition on_receive :: "'cb \<Rightarrow> 'cb socket_transport \<Rightarrow> 'cb socket_transport" where
  "on_receive cb t = t\<lparr>callback := Some cb\<rparr>"

text \<open>\<^emph>\<open>list(self._peers)\<close>: every peer once, in the order of the set, which Python leaves open.\<close>

definition lists_peers :: "'cb socket_transport \<Rightarrow> pystr list \<Rightarrow> bool" where
  "lists_peers t xs \<longleftrightarrow> distinct xs \<and> set xs = peers t"

section \<open>Sending\<close>

text \<open>
  \<^emph>\<open>send\<close>, statement by statement: the unpacking of \<^emph>\<open>rsplit\<close>, the frame, and the arguments of
  \<^emph>\<open>connect\<close>.
\<close>

definition transport_send ::
    "unicode \<Rightarrow> pystr \<Rightarrow> bytes \<Rightarrow> 'cb socket_transport \<Rightarrow> (pystr \<times> int \<times> bytes) res" where
  "transport_send U peer_id bs t =
     (case rsplit_last 58 peer_id of
        [h, port_str] \<Rightarrow>
          res_bind (send_frame (transport_address t) bs) (\<lambda>frame.
          res_bind (int_of_text U 10 port_str) (\<lambda>p. Inr (h, p, frame)))
      | _ \<Rightarrow> Inl (ValueError ''not enough values to unpack''))"

section \<open>Listening\<close>

text \<open>
  \<^emph>\<open>_accept_loop\<close>, one element per round: the flag and the socket as the round finds them (another
  thread may call \<^emph>\<open>stop\<close> at any time), and what \<^emph>\<open>accept\<close> does. The result is the connections given
  to a thread of their own, and how the loop ends.
\<close>

fun accept_loop :: "(bool \<times> bool \<times> 'conn res) list \<Rightarrow> 'conn list \<times> unit res" where
  "accept_loop [] = ([], Inr ())"
| "accept_loop ((running_now, server_now, accepted) # rounds) =
     (if \<not> running_now then ([], Inr ())
      else if \<not> server_now then ([], Inl AttributeError)
      else case accepted of
        Inl e \<Rightarrow> ([], if e = OSError then Inr () else Inl e)
      | Inr conn \<Rightarrow> (case accept_loop rounds of (conns, r) \<Rightarrow> (conn # conns, r)))"

text \<open>
  The thread of one connection: what it calls the callback with, if one is registered. The object
  is read when the data has arrived.
\<close>

definition serve_conn :: "bytes list \<Rightarrow> 'cb socket_transport \<Rightarrow> ('cb \<times> pystr \<times> bytes) option res" where
  "serve_conn conn t =
     res_bind (handle_conn conn) (\<lambda>got.
     Inr (case (got, callback t) of
        (Some (sender_id, bs), Some cb) \<Rightarrow> Some (cb, sender_id, bs)
      | _ \<Rightarrow> None))"

section \<open>Life cycle\<close>

text \<open>
  A running transport has its socket. \<^emph>\<open>stop\<close> clears the flag before it drops the socket, but the loop
  reads the flag before it reads the socket.
\<close>

definition transport_inv :: "'cb socket_transport \<Rightarrow> bool" where
  "transport_inv t \<longleftrightarrow> (running t \<longrightarrow> server t)"

datatype 'cb transport_op =
  Start "pystr \<Rightarrow> int \<Rightarrow> int res" | Stop | Connect pystr | OnReceive 'cb

fun run_op :: "'cb transport_op \<Rightarrow> 'cb socket_transport \<Rightarrow> 'cb socket_transport" where
  "run_op (Start bind) t = snd (transport_start bind t)"
| "run_op Stop t = transport_stop t"
| "run_op (Connect p) t = connect_peer p t"
| "run_op (OnReceive cb) t = on_receive cb t"

lemmas transport_op_defs =
  new_transport_def transport_start_def transport_stop_def connect_peer_def on_receive_def

lemma transport_op_inv: "transport_inv t \<Longrightarrow> transport_inv (run_op op t)"
  by (cases op) (auto simp: transport_op_defs transport_inv_def Let_def split: sum.splits)

lemma transport_run_inv: "transport_inv (foldl (\<lambda>t op. run_op op t) (new_transport h p) ops)"
proof -
  have "transport_inv t \<Longrightarrow> transport_inv (foldl (\<lambda>t op. run_op op t) t ops)" for t :: "'a socket_transport"
    by (induction ops arbitrary: t) (simp_all add: transport_op_inv)
  then show ?thesis by (simp add: transport_inv_def new_transport_def)
qed

text \<open>The last port the system assigned in a history: the address survives \<^emph>\<open>stop\<close>.\<close>

lemma transport_op_port:
  "port (run_op op t) =
     (case op of Start bind \<Rightarrow> (case bind (host t) (port t) of Inr p \<Rightarrow> p | Inl e \<Rightarrow> port t) | _ \<Rightarrow> port t)"
  "host (run_op op t) = host t"
  by (cases op; auto simp: transport_op_defs Let_def split: sum.splits)+

text \<open>The loop hands over connections in order and stops at the first \<^emph>\<open>OSError\<close>.\<close>

lemma accept_loop_prefix:
  "accept_loop (map (\<lambda>c. (True, True, Inr c)) conns @ (True, True, Inl OSError) # rest) = (conns, Inr ())"
  by (induction conns) simp_all

section \<open>From one transport to another\<close>

lemma rsplit_address: "rsplit_last 58 (transport_address t) = [host t, text_of_int (port t)]"
proof -
  have "58 \<notin> set (text_of_int (port t))" using text_of_int_ascii [of 58 "port t"] by auto
  then show ?thesis by (simp add: transport_address_def rsplit_last_app)
qed

lemma text_of_int_nonempty: "text_of_int i \<noteq> []"
  using show_nat_nonempty by (auto simp: text_of_int_def show_int_def str_def)

text \<open>A port fits the digit limit of \<^emph>\<open>int\<close>.\<close>

lemma port_digits:
  fixes p :: int
  assumes "0 \<le> p" "p < 65536"
  shows "\<bar>p\<bar> < 10 ^ MAX_STR_DIGITS"
proof -
  have "\<bar>p\<bar> < (10 :: int) ^ 5" using assms by simp
  also have "\<dots> \<le> 10 ^ MAX_STR_DIGITS" by (rule power_increasing) (simp_all add: MAX_STR_DIGITS_def)
  finally show ?thesis .
qed

text \<open>
  C33: From one transport to another: data sent to the address a transport gives out is handed to
  the system for exactly that transport's host and port, whatever its host looks like, and however
  the stream cuts the frame, the thread that serves it calls the callback registered there with the
  sender's address and the data; that address leads back to the sender in the same way.
\<close>

theorem transport_delivers:
  assumes "transport_send U (transport_address t2) bs t1 = Inr (h, p, frame)" "0 \<le> port t2" "port t2 < 65536"
    and "callback t2 = Some cb" "[] \<notin> set chunks" "concat chunks = frame @ rest"
  shows "h = host t2 \<and> p = port t2 \<and> serve_conn chunks t2 = Inr (Some (cb, transport_address t1, bs)) \<and>
    rsplit_last 58 (transport_address t1) = [host t1, text_of_int (port t1)]"
proof -
  have "int_of_text U 10 (text_of_int (port t2)) = Inr (port t2)"
    using port_digits [OF assms(2,3)] by (simp add: int_of_text_of_int)
  then have s: "send_frame (transport_address t1) bs = Inr frame" "h = host t2" "p = port t2"
    using assms(1) by (auto simp: transport_send_def rsplit_address)
  have "transport_address t1 \<noteq> []" by (simp add: transport_address_def)
  from frame_roundtrip [OF s(1) this assms(5,6)] s assms(4) show ?thesis
    by (simp add: serve_conn_def rsplit_address)
qed

text \<open>
  And nothing but the data stands in the way: it is sent whenever the sender's address is at most
  255 bytes of text without surrogates and the data is below 4 GiB.
\<close>

lemma transport_send_succeeds:
  assumes "utf8_encode (transport_address t1) = Inr a" "length a < 256" "int (length bs) < 256 ^ 4"
    and "0 \<le> port t2" "port t2 < 65536"
  shows "\<exists>frame. transport_send U (transport_address t2) bs t1 = Inr (host t2, port t2, frame)"
  using assms(1-3) port_digits [OF assms(4,5)]
  by (simp add: transport_send_def rsplit_address int_of_text_of_int send_frame_def byte_of_len_def to_bytes4_def)

definition demo_sender :: "unit socket_transport" where
  "demo_sender = (new_transport [97] 0)\<lparr>port := 1\<rparr>"

definition demo_receiver :: "unit socket_transport" where
  "demo_receiver = on_receive () (snd (transport_start (\<lambda>h p. Inr 50) (new_transport [98, 58] 0)))"

theorem transport_delivers_witness:
  "serve_conn [[3, 97], [58, 49, 0, 0, 0, 2], [7, 8]] demo_receiver = Inr (Some ((), [97, 58, 49], [7, 8]))"
proof -
  have a: "transport_address demo_sender = [97, 58, 49]"
    by (simp add: transport_address_def demo_sender_def new_transport_def text_of_int_def show_int_def show_nat.simps str_def)
  have r: "port demo_receiver = 50" "host demo_receiver = [98, 58]" "callback demo_receiver = Some ()"
    by (simp_all add: demo_receiver_def transport_op_defs)
  have "transport_send ascii_unicode (transport_address demo_receiver) [7, 8] demo_sender =
      Inr ([98, 58], 50, [3, 97, 58, 49, 0, 0, 0, 2, 7, 8])"
    using port_digits [of 50] by (simp add: transport_send_def rsplit_address a demo_frame r int_of_text_of_int)
  from transport_delivers [OF this _ _ r(3), of "[[3, 97], [58, 49, 0, 0, 0, 2], [7, 8]]" "[]"]
  show ?thesis by (simp add: a r)
qed

end
