(* ===== verification/Topology.thy ===== *)
theory Topology
  imports Prelude
begin

text \<open>
  \<^emph>\<open>sim/topologies\<close>: the adjacency dictionaries of the simulation harness. \<open>append_at\<close> is
  \<^emph>\<open>adj[k].append(v)\<close>, a \<^emph>\<open>KeyError\<close> where \<open>k\<close> is no key. \<^emph>\<open>range(n)\<close> is empty for \<open>n \<le> 0\<close>.
\<close>

type_synonym adjacency = "nat \<rightharpoonup> nat list"

definition empty_adj :: "int \<Rightarrow> adjacency" where
  "empty_adj n = (\<lambda>i. if i < nat n then Some [] else None)"

definition append_at :: "nat \<Rightarrow> nat \<Rightarrow> adjacency \<Rightarrow> adjacency res" where
  "append_at k v adj = (case adj k of None \<Rightarrow> Inl KeyError | Some xs \<Rightarrow> Inr (adj(k \<mapsto> xs @ [v])))"

fun line_loop :: "nat list \<Rightarrow> adjacency \<Rightarrow> adjacency res" where
  "line_loop [] adj = Inr adj"
| "line_loop (i # is') adj =
     res_bind (append_at i (i + 1) adj) (\<lambda>adj1. res_bind (append_at (i + 1) i adj1) (line_loop is'))"

definition line_build :: "int \<Rightarrow> adjacency res" where
  "line_build n = line_loop [0..<nat (n - 1)] (empty_adj n)"

fun star_loop :: "nat list \<Rightarrow> adjacency \<Rightarrow> adjacency res" where
  "star_loop [] adj = Inr adj"
| "star_loop (i # is') adj =
     res_bind (append_at 0 i adj) (\<lambda>adj1. res_bind (append_at i 0 adj1) (star_loop is'))"

definition star_build :: "int \<Rightarrow> adjacency res" where
  "star_build n = star_loop [1..<nat n] (empty_adj n)"

definition mesh_build :: "int \<Rightarrow> adjacency res" where
  "mesh_build n = Inr (\<lambda>i. if i < nat n then Some (filter (\<lambda>j. j \<noteq> i) [0..<nat n]) else None)"

section \<open>What the builders build\<close>

text \<open>Rows after the first \<open>k\<close> rounds of the line's and the star's loop.\<close>

definition line_row :: "nat \<Rightarrow> nat \<Rightarrow> nat list" where
  "line_row k i = (if 0 < i \<and> i \<le> k then [i - 1] else []) @ (if i < k then [i + 1] else [])"

definition star_row :: "nat \<Rightarrow> nat \<Rightarrow> nat list" where
  "star_row k i = (if i = 0 then [1..<k] else if i < k then [0] else [])"

lemma line_loop_rounds:
  assumes "k < n"
  shows "line_loop ([0..<k] @ xs) (\<lambda>i. if i < n then Some [] else None) =
    line_loop xs (\<lambda>i. if i < n then Some (line_row k i) else None)"
  using assms
proof (induction k arbitrary: xs)
  case 0
  have "line_row 0 = (\<lambda>i. [])" by (auto simp: line_row_def fun_eq_iff)
  then show ?case by (simp cong: if_cong)
next
  case (Suc k)
  let ?f = "\<lambda>i. if i < n then Some (line_row k i) else None"
  have "(?f(k \<mapsto> line_row k k @ [k + 1]))(k + 1 \<mapsto> line_row k (k + 1) @ [k]) =
      (\<lambda>i. if i < n then Some (line_row (Suc k) i) else None)"
    using Suc.prems by (auto simp: line_row_def fun_eq_iff)
  moreover have "line_loop ([0..<Suc k] @ xs) (\<lambda>i. if i < n then Some [] else None) = line_loop (k # xs) ?f"
    using Suc.IH [of "k # xs"] Suc.prems by simp
  ultimately show ?case using Suc.prems by (simp add: append_at_def)
qed

lemma line_build_eq:
  "line_build n = Inr (\<lambda>i. if i < nat n then Some (line_row (nat (n - 1)) i) else None)"
proof (cases "0 < n")
  case True
  then show ?thesis
    using line_loop_rounds [of "nat (n - 1)" "nat n" "[]"] by (simp add: line_build_def empty_adj_def)
next
  case False
  then show ?thesis by (simp add: line_build_def empty_adj_def)
qed

lemma star_loop_rounds:
  assumes "1 \<le> k" "k \<le> n"
  shows "star_loop ([1..<k] @ xs) (\<lambda>i. if i < n then Some [] else None) =
    star_loop xs (\<lambda>i. if i < n then Some (star_row k i) else None)"
  using assms
proof (induction k arbitrary: xs rule: dec_induct)
  case base
  then show ?case by (simp add: star_row_def cong: if_cong)
next
  case (step k)
  let ?f = "\<lambda>i. if i < n then Some (star_row k i) else None"
  have "(?f(0 \<mapsto> star_row k 0 @ [k]))(k \<mapsto> star_row k k @ [0]) =
      (\<lambda>i. if i < n then Some (star_row (Suc k) i) else None)"
    using step by (auto simp: star_row_def fun_eq_iff)
  moreover have "star_loop ([1..<Suc k] @ xs) (\<lambda>i. if i < n then Some [] else None) = star_loop (k # xs) ?f"
    using step.IH [of "k # xs"] step.prems step.hyps by simp
  ultimately show ?case using step by (simp add: append_at_def)
qed

lemma star_build_eq:
  "star_build n = Inr (\<lambda>i. if i < nat n then Some (star_row (nat n) i) else None)"
proof (cases "0 < n")
  case True
  then show ?thesis
    using star_loop_rounds [of "nat n" "nat n" "[]"] by (simp add: star_build_def empty_adj_def)
next
  case False
  then show ?thesis by (simp add: star_build_def empty_adj_def)
qed

section \<open>Sound topologies\<close>

definition linked :: "adjacency \<Rightarrow> nat \<Rightarrow> nat \<Rightarrow> bool" where
  "linked adj i j \<longleftrightarrow> (\<exists>xs. adj i = Some xs \<and> j \<in> set xs)"

text \<open>
  Links join existing devices, both ways, none with itself, none twice; and from device 0 every
  device can be reached.
\<close>

definition sound_topology :: "nat \<Rightarrow> adjacency \<Rightarrow> bool" where
  "sound_topology n adj \<longleftrightarrow>
     dom adj = {..<n} \<and> (\<forall>i xs. adj i = Some xs \<longrightarrow> distinct xs \<and> i \<notin> set xs \<and> set xs \<subseteq> {..<n}) \<and>
     (\<forall>i j. linked adj i j \<longrightarrow> linked adj j i) \<and>
     (\<forall>i < n. (linked adj)\<^sup>*\<^sup>* 0 i)"

lemma line_row_set: "j \<in> set (line_row k i) \<longleftrightarrow> (0 < i \<and> i \<le> k \<and> j = i - 1) \<or> (i < k \<and> j = i + 1)"
  by (auto simp: line_row_def)

lemma line_sound: "sound_topology (nat n) (\<lambda>i. if i < nat n then Some (line_row (nat (n - 1)) i) else None)"
  (is "sound_topology _ ?adj")
proof -
  have k: "Suc (nat (n - 1)) = nat n \<or> nat n = 0" by auto
  have "(linked ?adj)\<^sup>*\<^sup>* 0 i" if "i < nat n" for i
    using that
  proof (induction i)
    case (Suc i)
    then have "linked ?adj i (Suc i)" using k by (auto simp: linked_def line_row_set)
    with Suc show ?case by (meson rtranclp.rtrancl_into_rtrancl Suc_lessD)
  qed simp
  moreover have "linked ?adj j i" if "linked ?adj i j" for i j
    using that k by (auto simp: linked_def line_row_set split: if_splits)
  moreover have "distinct (line_row m i) \<and> i \<notin> set (line_row m i)" for m i
    by (auto simp: line_row_def)
  ultimately show ?thesis
    using k by (auto simp: sound_topology_def line_row_set dom_def split: if_splits)
qed

lemma star_sound: "sound_topology (nat n) (\<lambda>i. if i < nat n then Some (star_row (nat n) i) else None)"
  (is "sound_topology _ ?adj")
proof -
  have "(linked ?adj)\<^sup>*\<^sup>* 0 i" if "i < nat n" for i
  proof (cases "i = 0")
    case False
    with that have "linked ?adj 0 i" by (auto simp: linked_def star_row_def)
    then show ?thesis by blast
  qed simp
  then show ?thesis
    by (auto simp: sound_topology_def linked_def star_row_def dom_def split: if_splits)
qed

lemma mesh_sound: "sound_topology (nat n) (\<lambda>i. if i < nat n then Some (filter (\<lambda>j. j \<noteq> i) [0..<nat n]) else None)"
  (is "sound_topology _ ?adj")
proof -
  have "(linked ?adj)\<^sup>*\<^sup>* 0 i" if "i < nat n" for i
  proof (cases "i = 0")
    case False
    with that have "linked ?adj 0 i" by (auto simp: linked_def)
    then show ?thesis by blast
  qed simp
  then show ?thesis
    by (auto simp: sound_topology_def linked_def dom_def split: if_splits)
qed

text \<open>
  Every topology the harness builds is sound, for every number of devices: the builder
  raises nothing, and its links are symmetric, without self-links or duplicates, stay among the
  devices and connect them all.
\<close>

lemma topologies_are_sound:
  "\<exists>line star mesh. line_build n = Inr line \<and> star_build n = Inr star \<and> mesh_build n = Inr mesh \<and>
     sound_topology (nat n) line \<and> sound_topology (nat n) star \<and> sound_topology (nat n) mesh"
  using line_sound [of n] star_sound [of n] mesh_sound [of n] line_build_eq [of n] star_build_eq [of n]
  by (auto simp: mesh_build_def)

end
