(* ===== verification/Gate.thy ===== *)
theory Gate
  imports Prelude
begin

text \<open>
  The interface between the pipeline and its stateful checks (and between a device and its
  pipeline): an operation on a state that may raise, an invariant every call keeps, and the
  promise that in a state with the invariant the call returns. \<open>run_checks\<close> is a sequence of
  calls; the locale lifts the two laws to whole sequences.
\<close>

text \<open>One result per input, the state threaded through, as repeated calls do.\<close>

fun run_checks :: "('i \<Rightarrow> 's \<Rightarrow> 'r \<times> 's) \<Rightarrow> 'i list \<Rightarrow> 's \<Rightarrow> 'r list \<times> 's" where
  "run_checks f [] s = ([], s)"
| "run_checks f (i # xs) s =
     (case f i s of (r, s1) \<Rightarrow> case run_checks f xs s1 of (rs, s2) \<Rightarrow> (r # rs, s2))"

lemma run_checks_Cons_simps [simp]:
  "fst (run_checks f (i # xs) s) = fst (f i s) # fst (run_checks f xs (snd (f i s)))"
  "snd (run_checks f (i # xs) s) = snd (run_checks f xs (snd (f i s)))"
  by (simp_all split: prod.splits)

declare run_checks.simps(2) [simp del]

lemma length_run_checks [simp]: "length (fst (run_checks f xs s)) = length xs"
  by (induction xs arbitrary: s) auto

lemma run_checks_append:
  "fst (run_checks f (xs @ ys) s) =
     fst (run_checks f xs s) @ fst (run_checks f ys (snd (run_checks f xs s)))"
  "snd (run_checks f (xs @ ys) s) = snd (run_checks f ys (snd (run_checks f xs s)))"
  by (induction xs arbitrary: s) auto

lemma run_checks_snoc:
  "fst (run_checks f (xs @ [i]) s) = fst (run_checks f xs s) @ [fst (f i (snd (run_checks f xs s)))]"
  "snd (run_checks f (xs @ [i]) s) = snd (f i (snd (run_checks f xs s)))"
  by (simp_all add: run_checks_append)

text \<open>The answer to one call of a sequence: the call, after the calls before it.\<close>

lemma run_checks_nth:
  "i < length xs \<Longrightarrow> fst (run_checks f xs s) ! i = fst (f (xs ! i) (snd (run_checks f (take i xs) s)))"
proof (induction xs arbitrary: i s)
  case (Cons x xs)
  then show ?case by (cases i) auto
qed simp

lemma run_checks_take: "fst (run_checks f (take i xs) s) = take i (fst (run_checks f xs s))"
proof (induction xs arbitrary: i s)
  case (Cons x xs)
  then show ?case by (cases i) auto
qed simp

locale gate =
  fixes check :: "'i \<Rightarrow> 's \<Rightarrow> 'v res \<times> 's"
    and inv :: "'s \<Rightarrow> bool"
  assumes keeps: "inv s \<Longrightarrow> inv (snd (check i s))"
    and total: "inv s \<Longrightarrow> returns (fst (check i s))"
begin

lemma run_keeps: "inv s \<Longrightarrow> inv (snd (run_checks check xs s))"
  by (induction xs arbitrary: s) (auto simp: keeps)

lemma run_total: "inv s \<Longrightarrow> list_all returns (fst (run_checks check xs s))"
proof (induction xs arbitrary: s)
  case (Cons i xs)
  then show ?case
    using keeps [of s i] total [of s i] by simp
qed simp

text \<open>A call in a good state is described by its value and the next good state.\<close>

lemma value_of:
  assumes "inv s"
  obtains v s' where "check i s = (Inr v, s')" "inv s'"
  using keeps [OF assms, of i] total [OF assms, of i]
  by (cases "check i s") (auto simp: returns_iff)

end

end
