(* ===== verification/Message.thy ===== *)
theory Message
  imports Struct_Codec
begin

text \<open>
  \<^emph>\<open>pipeline/message.py\<close>: the wire constants, the message record, the parser of a received
  packet and the signed region. Field names are the source's.
\<close>

section \<open>Wire constants\<close>

datatype message_type =
    TEXT | LOCATION | ACK | ACK_SUPPRESS | ANNOUNCEMENT | ATTESTATION_PRESENT
  | FRIEND_REQUEST | FRIEND_ACCEPT | FRIEND_DECLINE
  | LOCATION_QUERY | LOCATION_RESPONSE | LOCATION_REVOKE | DIRECT_MESSAGE

fun message_type_value :: "message_type \<Rightarrow> int" where
  "message_type_value TEXT = 0x01"
| "message_type_value LOCATION = 0x02"
| "message_type_value ACK = 0x03"
| "message_type_value ACK_SUPPRESS = 0x04"
| "message_type_value ANNOUNCEMENT = 0x05"
| "message_type_value ATTESTATION_PRESENT = 0x06"
| "message_type_value FRIEND_REQUEST = 0x07"
| "message_type_value FRIEND_ACCEPT = 0x08"
| "message_type_value FRIEND_DECLINE = 0x09"
| "message_type_value LOCATION_QUERY = 0x0A"
| "message_type_value LOCATION_RESPONSE = 0x0B"
| "message_type_value LOCATION_REVOKE = 0x0C"
| "message_type_value DIRECT_MESSAGE = 0x0D"

definition HEADER_FORMAT :: string where
  "HEADER_FORMAT = ''>16s32s16sIBBHBH''"

definition HEADER_SIZE :: nat where [simp]: "HEADER_SIZE = 75"
definition SIGNATURE_SIZE :: nat where [simp]: "SIGNATURE_SIZE = 64"
definition MIN_PACKET :: nat where [simp]: "MIN_PACKET = 131"
definition MAX_PACKET :: nat where [simp]: "MAX_PACKET = 460"
definition TTL_SPRAY_OFFSET :: nat where [simp]: "TTL_SPRAY_OFFSET = 68"
definition TTL_SPRAY_SIZE :: nat where [simp]: "TTL_SPRAY_SIZE = 2"

definition header_items :: "fmt list" where
  "header_items =
     [FStr 16, FStr 32, FStr 16, FUInt 4, FUInt 1, FUInt 1, FUInt 2, FUInt 1, FUInt 2]"

lemma parse_HEADER_FORMAT [simp]: "parse_fmt HEADER_FORMAT = Inr header_items"
  by (simp add: HEADER_FORMAT_def header_items_def fmt_eval numeral_eq_Suc)

lemma header_items_size [simp]: "items_size header_items = 75"
  by (simp add: header_items_def)

lemma header_items_wf [simp]: "list_all wf_fmt header_items"
  by (simp add: header_items_def)

section \<open>Messages\<close>

record message =
  raw :: bytes
  msg_id :: bytes
  sender_key :: bytes
  ephem_id :: bytes
  timestamp :: int
  ttl :: int
  spray_l :: int
  zone_id :: int
  msg_type :: int
  payload_len :: int
  payload :: bytes
  signature :: bytes

text \<open>The lengths passed here are never negative, so the slices are plain ones.\<close>

definition signed_region :: "bytes \<Rightarrow> int \<Rightarrow> bytes" where
  "signed_region bs plen =
     take TTL_SPRAY_OFFSET bs @ slice (TTL_SPRAY_OFFSET + TTL_SPRAY_SIZE) (nat (int HEADER_SIZE + plen)) bs"

definition parse_packet :: "bytes \<Rightarrow> message res" where
  "parse_packet bs =
     (if length bs < HEADER_SIZE + SIGNATURE_SIZE
      then Inl (ValueError (''packet too short to parse: '' @ show_nat (length bs) @ '' bytes''))
      else res_bind (struct_unpack_from HEADER_FORMAT bs) (\<lambda>fields.
        case fields of
          [VB mid, VB skey, VB eid, VI ts, VI hops, VI sl, VI zid, VI mtype, VI plen] \<Rightarrow>
            (let expected_len = int HEADER_SIZE + plen + int SIGNATURE_SIZE in
             if int (length bs) \<noteq> expected_len
             then Inl (ValueError (''packet length '' @ show_nat (length bs) @ '' != expected ''
                    @ show_int expected_len @ '' (payload_len='' @ show_int plen @ '')''))
             else Inr \<lparr> raw = bs, msg_id = mid, sender_key = skey, ephem_id = eid,
                        timestamp = ts, ttl = hops, spray_l = sl, zone_id = zid, msg_type = mtype,
                        payload_len = plen,
                        payload = slice HEADER_SIZE (HEADER_SIZE + nat plen) bs,
                        signature = drop (HEADER_SIZE + nat plen) bs \<rparr>)
        | _ \<Rightarrow> Inl (ValueError ''unpack'')))"

section \<open>Layout of a packet\<close>

text \<open>The values the header's fields hold, in wire order.\<close>

definition header_values :: "message \<Rightarrow> fval list" where
  "header_values m =
     [VB (msg_id m), VB (sender_key m), VB (ephem_id m), VI (timestamp m), VI (ttl m),
      VI (spray_l m), VI (zone_id m), VI (msg_type m), VI (payload_len m)]"

lemma be_val_single [simp]: "be_val [b] = uint b"
  using be_val_snoc [of "[]" b] by simp

lemma slice_single: "i < length bs \<Longrightarrow> take (Suc 0) (drop i bs) = [bs ! i]"
  by (simp add: take_Suc_conv_app_nth)

lemma unpack_header:
  assumes "75 \<le> length bs"
  shows "unpack_items header_items bs =
    [VB (take 16 bs), VB (slice 16 48 bs), VB (slice 48 64 bs), VI (be_val (slice 64 68 bs)),
     VI (uint (bs ! 68)), VI (uint (bs ! 69)), VI (be_val (slice 70 72 bs)),
     VI (uint (bs ! 72)), VI (be_val (slice 73 75 bs))]"
  using assms by (simp add: header_items_def slice_def slice_single)

lemma parse_packet_long:
  assumes "139 \<le> length bs"
  shows "parse_packet bs =
    (let plen = be_val (slice 73 75 bs) in
     if int (length bs) \<noteq> 139 + plen
     then Inl (ValueError (''packet length '' @ show_nat (length bs) @ '' != expected ''
            @ show_int (139 + plen) @ '' (payload_len='' @ show_int plen @ '')''))
     else Inr \<lparr> raw = bs, msg_id = take 16 bs, sender_key = slice 16 48 bs, ephem_id = slice 48 64 bs,
                timestamp = be_val (slice 64 68 bs), ttl = uint (bs ! 68), spray_l = uint (bs ! 69),
                zone_id = be_val (slice 70 72 bs), msg_type = uint (bs ! 72), payload_len = plen,
                payload = slice 75 (75 + nat plen) bs, signature = drop (75 + nat plen) bs \<rparr>)"
  using assms
  by (simp add: parse_packet_def struct_unpack_from_def unpack_header Let_def add.commute)

lemma parse_packet_InrD:
  assumes "parse_packet bs = Inr m"
  shows "139 \<le> length bs" "raw m = bs" "int (length bs) = 139 + payload_len m"
    "msg_id m = take 16 bs" "sender_key m = slice 16 48 bs" "ephem_id m = slice 48 64 bs"
    "timestamp m = be_val (slice 64 68 bs)" "ttl m = uint (bs ! 68)" "spray_l m = uint (bs ! 69)"
    "zone_id m = be_val (slice 70 72 bs)" "msg_type m = uint (bs ! 72)"
    "payload_len m = be_val (slice 73 75 bs)"
    "payload m = slice 75 (75 + nat (payload_len m)) bs"
    "signature m = drop (75 + nat (payload_len m)) bs"
proof -
  show l: "139 \<le> length bs"
    using assms by (auto simp: parse_packet_def split: if_splits)
  show "raw m = bs" "int (length bs) = 139 + payload_len m"
    "msg_id m = take 16 bs" "sender_key m = slice 16 48 bs" "ephem_id m = slice 48 64 bs"
    "timestamp m = be_val (slice 64 68 bs)" "ttl m = uint (bs ! 68)" "spray_l m = uint (bs ! 69)"
    "zone_id m = be_val (slice 70 72 bs)" "msg_type m = uint (bs ! 72)"
    "payload_len m = be_val (slice 73 75 bs)"
    "payload m = slice 75 (75 + nat (payload_len m)) bs"
    "signature m = drop (75 + nat (payload_len m)) bs"
    using assms unfolding parse_packet_long [OF l] Let_def by (auto split: if_splits)
qed

lemma parse_packet_length: "parse_packet bs = Inr m \<Longrightarrow> length bs = 139 + nat (payload_len m)"
  by (frule parse_packet_InrD(1), drule parse_packet_InrD(3)) arith

text \<open>The types of the parsed fields: lengths and ranges.\<close>

definition msg_wf :: "message \<Rightarrow> bool" where
  "msg_wf m \<longleftrightarrow>
     length (msg_id m) = 16 \<and> length (sender_key m) = 32 \<and> length (ephem_id m) = 16 \<and>
     0 \<le> timestamp m \<and> timestamp m < 2 ^ 32 \<and> 0 \<le> ttl m \<and> ttl m < 2 ^ 8 \<and>
     0 \<le> spray_l m \<and> spray_l m < 2 ^ 8 \<and> 0 \<le> zone_id m \<and> zone_id m < 2 ^ 16 \<and>
     0 \<le> msg_type m \<and> msg_type m < 2 ^ 8 \<and> 0 \<le> payload_len m \<and> payload_len m < 2 ^ 16 \<and>
     int (length (payload m)) = payload_len m \<and> length (signature m) = 64"

lemma parse_packet_wf:
  assumes "parse_packet bs = Inr m"
  shows "msg_wf m"
proof -
  note d = parse_packet_InrD [OF assms]
  have l: "length (slice 64 68 bs) = 4" "length (slice 70 72 bs) = 2" "length (slice 73 75 bs) = 2"
    using d(1) by simp_all
  note v = be_val_bounds [of "slice 64 68 bs", unfolded l] be_val_bounds [of "slice 70 72 bs", unfolded l]
    be_val_bounds [of "slice 73 75 bs", unfolded l]
  note u = uint_byte_bounds [of "bs ! 68"] uint_byte_bounds [of "bs ! 69"] uint_byte_bounds [of "bs ! 72"]
  have n: "length bs = 139 + nat (payload_len m)" by (rule parse_packet_length [OF assms])
  show ?thesis
    unfolding msg_wf_def using d(1) v u n by (simp add: d(4-11,13,14) d(12))
qed

lemma fits_header: "msg_wf m \<Longrightarrow> fits header_items (header_values m)"
  by (simp add: msg_wf_def header_items_def header_values_def)

lemma parse_packet_header:
  assumes "parse_packet bs = Inr m"
  shows "struct_pack HEADER_FORMAT (header_values m) = Inr (take 75 bs)"
proof -
  note d = parse_packet_InrD [OF assms]
  have "header_values m = unpack_items header_items (take 75 bs)"
    using d(1) unfolding unpack_items_take [of header_items 75 bs, simplified]
    by (subst unpack_header) (simp_all add: header_values_def d(4-11) d(12))
  moreover have "length (take 75 bs) = items_size header_items" using d(1) by simp
  ultimately show ?thesis
    using unpack_items_fits [of "take 75 bs" header_items] by (simp add: struct_pack_def)
qed

lemma parse_packet_segments:
  assumes "parse_packet bs = Inr m"
  shows "bs = take 75 bs @ payload m @ signature m"
  using parse_packet_InrD(13,14) [OF assms] take_slice_drop [of 75 "75 + nat (payload_len m)" bs]
  by simp

text \<open>The parser inverts the serialisation of header, payload and signature.\<close>

lemma parse_packet_build:
  assumes wf: "msg_wf m"
    and hdr: "struct_pack HEADER_FORMAT (header_values m) = Inr h"
  shows "parse_packet (h @ payload m @ signature m) = Inr (m\<lparr>raw := h @ payload m @ signature m\<rparr>)"
proof -
  let ?bs = "h @ payload m @ signature m"
  obtain h' where h': "pack_items header_items (header_values m) = Inr h'"
    "unpack_items header_items h' = header_values m"
    using pack_items_fits [OF fits_header [OF wf]] by blast
  with hdr have h: "length h = 75" "unpack_items header_items h = header_values m"
    using pack_items_length [of header_items "header_values m" h] by (auto simp: struct_pack_def)
  have fields: "unpack_items header_items ?bs = header_values m"
    using h by (subst unpack_items_append) simp_all
  have pl: "payload_len m = int (length (payload m))" "length (signature m) = 64"
    using wf by (simp_all add: msg_wf_def)
  show ?thesis
    using h(1) fields pl
    by (cases m) (simp add: parse_packet_def struct_unpack_from_def header_values_def Let_def slice_def)
qed

section \<open>The signed region\<close>

lemma signed_region_rewrite [simp]:
  "signed_region ((bs[68 := u])[69 := v]) n = signed_region bs n"
  by (simp add: signed_region_def slice_def)

lemma signed_region_append:
  assumes "length bs = 75 + n"
  shows "signed_region (bs @ cs) (int n) = signed_region bs (int n)"
  using assms by (simp add: signed_region_def slice_def)

lemma nth_rewrite [simp]:
  "i \<noteq> 68 \<Longrightarrow> i \<noteq> 69 \<Longrightarrow> ((bs[68 := u])[69 := v]) ! i = bs ! i"
  "70 \<le> length bs \<Longrightarrow> ((bs[68 := u])[69 := v]) ! 68 = u"
  "70 \<le> length bs \<Longrightarrow> ((bs[68 := u])[69 := v]) ! 69 = v"
  by simp_all

lemma slice_update_outside:
  "i < a \<or> b \<le> i \<Longrightarrow> slice a b (bs[i := v]) = slice a b bs"
  by (cases "i < a") (auto simp: slice_def drop_update_swap)

text \<open>
  Rewriting the two hop-mutable bytes of a packet changes exactly the two fields they hold.
\<close>

lemma parse_packet_rewrite:
  assumes "parse_packet bs = Inr m" "bs' = (bs[68 := u])[69 := v]"
  shows "parse_packet bs' = Inr (m\<lparr>raw := bs', ttl := uint u, spray_l := uint v\<rparr>)"
proof -
  note d = parse_packet_InrD [OF assms(1)]
  have l: "139 \<le> length bs'" using d(1) assms(2) by simp
  have s: "slice a b bs' = slice a b bs" if "b \<le> 68 \<or> 70 \<le> a" for a b
    using that assms(2) by (auto simp: slice_update_outside)
  have "take 16 bs' = take 16 bs" using s [of 16 0] by simp
  moreover have "drop (75 + k) bs' = drop (75 + k) bs" for k
    using assms(2) by simp
  moreover have "bs' ! 68 = u" "bs' ! 69 = v" "bs' ! 72 = bs ! 72"
    using assms(2) d(1) by simp_all
  moreover have "length bs' = length bs" using assms(2) by simp
  ultimately show ?thesis
    unfolding parse_packet_long [OF l] using d by (simp add: s Let_def)
qed

section \<open>The parser and the signature as their callers see them\<close>

text \<open>
  C5: The parser accepts exactly the serialisations: a byte string parses to \<open>m\<close> if and only if
  \<open>m\<close> is well formed and the string is its packed header, its payload and its signature. So a
  packet has one reading and a message one encoding.
\<close>

theorem parse_packet_exact:
  "parse_packet bs = Inr m \<longleftrightarrow>
     msg_wf m \<and> raw m = bs \<and>
     (\<exists>h. struct_pack HEADER_FORMAT (header_values m) = Inr h \<and> bs = h @ payload m @ signature m)"
proof
  assume p: "parse_packet bs = Inr m"
  show "msg_wf m \<and> raw m = bs \<and>
     (\<exists>h. struct_pack HEADER_FORMAT (header_values m) = Inr h \<and> bs = h @ payload m @ signature m)"
    using parse_packet_wf [OF p] parse_packet_InrD(2) [OF p] parse_packet_header [OF p]
      parse_packet_segments [OF p] by blast
next
  assume "msg_wf m \<and> raw m = bs \<and>
     (\<exists>h. struct_pack HEADER_FORMAT (header_values m) = Inr h \<and> bs = h @ payload m @ signature m)"
  then obtain h where h: "msg_wf m" "raw m = bs" "struct_pack HEADER_FORMAT (header_values m) = Inr h"
    "bs = h @ payload m @ signature m" by blast
  from parse_packet_build [OF h(1,3)] h(2,4) show "parse_packet bs = Inr m" by (cases m) simp
qed

lemma signed_region_parts:
  assumes "parse_packet bs = Inr m"
  shows "take 68 (signed_region bs (payload_len m)) = take 68 bs"
    "drop 68 (signed_region bs (payload_len m)) = slice 70 (75 + nat (payload_len m)) bs"
  using parse_packet_InrD(1) [OF assms] parse_packet_wf [OF assms]
  by (simp_all add: signed_region_def nat_add_distrib msg_wf_def)

lemma slice_slice: "a + d \<le> b \<Longrightarrow> slice c d (slice a b xs) = slice (a + c) (a + d) xs"
  by (simp add: slice_def drop_take min_def add.commute)

text \<open>The fields outside the two hop bytes, read off the signed region.\<close>

lemma fields_of_signed_region:
  assumes "parse_packet bs = Inr m" and r: "r = signed_region bs (payload_len m)"
  shows "msg_id m = take 16 r" "sender_key m = slice 16 48 r" "ephem_id m = slice 48 64 r"
    "timestamp m = be_val (slice 64 68 r)" "zone_id m = be_val (take 2 (drop 68 r))"
    "msg_type m = uint (drop 68 r ! 2)" "payload_len m = be_val (slice 3 5 (drop 68 r))"
    "payload m = drop 5 (drop 68 r)"
proof -
  note d = parse_packet_InrD [OF assms(1)] and s = signed_region_parts [OF assms(1), folded r]
  have t: "slice a b r = slice a b bs" if "b \<le> 68" for a b
    using that by (metis s(1) slice_take)
  have u: "slice a b (drop 68 r) = slice (70 + a) (70 + b) bs" if "b \<le> 5" for a b
    using that unfolding s(2) by (simp add: slice_slice)
  have "take 16 r = take 16 bs" using t [of 16 0] by simp
  moreover have "drop 68 r ! 2 = bs ! 72" unfolding s(2) using d(1) by (simp add: slice_def)
  moreover have "take 2 (drop 68 r) = slice 70 72 bs" using u [of 2 0] by simp
  moreover have "drop 5 (drop 68 r) = slice 75 (75 + nat (payload_len m)) bs"
    unfolding s(2) by (simp add: slice_def drop_take add.commute)
  ultimately show "msg_id m = take 16 r" "sender_key m = slice 16 48 r" "ephem_id m = slice 48 64 r"
    "timestamp m = be_val (slice 64 68 r)" "zone_id m = be_val (take 2 (drop 68 r))"
    "msg_type m = uint (drop 68 r ! 2)" "payload_len m = be_val (slice 3 5 (drop 68 r))"
    "payload m = drop 5 (drop 68 r)"
    using d(4-8) d(10-11) d(13) d(12) t u by simp_all
qed

text \<open>
  C6: The signature covers everything but the hop bytes: two packets with the same signed region
  agree in every field except \<^emph>\<open>ttl\<close>, \<^emph>\<open>spray_L\<close> and the signature itself.
\<close>

theorem signed_region_binds:
  assumes "parse_packet bs = Inr m" "parse_packet bs' = Inr m'"
    and "signed_region bs' (payload_len m') = signed_region bs (payload_len m)"
  shows "m' = m\<lparr>raw := bs', ttl := ttl m', spray_l := spray_l m', signature := signature m'\<rparr>"
  using fields_of_signed_region [OF assms(1) refl] fields_of_signed_region [OF assms(2) refl]
    parse_packet_InrD(2) [OF assms(2)] assms(3)
  by (cases m; cases m') simp

end
