(* ===== verification/Crypto.thy ===== *)
theory Crypto
  imports Prelude
begin

text \<open>
  The third-party cryptography the source calls (PyNaCl and blake3), as a parameter of the
  model: a record of functions, one per call the source makes. What the proofs need of them is
  stated as named predicates, each the documented behaviour of the library. \<open>toy_crypto\<close> is a
  concrete record that satisfies all of them; the witnesses evaluate the model with it.
\<close>

record crypto =
  ed_key :: "bytes \<Rightarrow> bytes res"                 \<comment> \<open>VerifyKey(k)\<close>
  ed_verify :: "bytes \<Rightarrow> bytes \<Rightarrow> bytes \<Rightarrow> unit res"  \<comment> \<open>.verify(message, signature)\<close>
  ed_pub :: "bytes \<Rightarrow> bytes"                     \<comment> \<open>bytes(SigningKey(seed).verify_key)\<close>
  ed_sign :: "bytes \<Rightarrow> bytes \<Rightarrow> bytes"           \<comment> \<open>SigningKey(seed).sign(m).signature\<close>
  blake3 :: "bytes \<Rightarrow> bytes"                     \<comment> \<open>blake3(m).digest()\<close>
  x_base :: "bytes \<Rightarrow> bytes res"                 \<comment> \<open>crypto_scalarmult_base(n)\<close>
  x_mult :: "bytes \<Rightarrow> bytes \<Rightarrow> bytes res"         \<comment> \<open>crypto_scalarmult(n, p)\<close>
  aead_enc :: "bytes \<Rightarrow> bytes \<Rightarrow> bytes \<Rightarrow> bytes \<Rightarrow> bytes res"
  aead_dec :: "bytes \<Rightarrow> bytes \<Rightarrow> bytes \<Rightarrow> bytes \<Rightarrow> bytes res"

section \<open>Documented behaviour\<close>

text \<open>
  Ed25519: keys are 32 bytes, signatures 64; a key object of the right length can be built; a
  signature made with a key verifies under its public half.
\<close>

definition ed25519_ok :: "crypto \<Rightarrow> bool" where
  "ed25519_ok C \<longleftrightarrow>
     (\<forall>seed. length (ed_pub C seed) = 32) \<and>
     (\<forall>seed m. length (ed_sign C seed m) = 64) \<and>
     (\<forall>k. length k = 32 \<longrightarrow> ed_key C k = Inr k) \<and>
     (\<forall>seed m. ed_verify C (ed_pub C seed) m (ed_sign C seed m) = Inr ())"

text \<open>
  The exceptions of the verification calls: \<^emph>\<open>VerifyKey\<close> and \<^emph>\<open>verify\<close> raise a value error
  (a wrong length) or a crypto error (a bad signature), nothing else; and where the key and the
  signature have the right length, only \<^emph>\<open>BadSignatureError\<close>.
\<close>

definition ed25519_errors :: "crypto \<Rightarrow> bool" where
  "ed25519_errors C \<longleftrightarrow>
     (\<forall>k e. ed_key C k = Inl e \<longrightarrow> is_ValueError e \<or> is_CryptoError e) \<and>
     (\<forall>k m s e. ed_verify C k m s = Inl e \<longrightarrow> is_ValueError e \<or> is_CryptoError e) \<and>
     (\<forall>k. length k = 32 \<longrightarrow> ed_key C k = Inr k) \<and>
     (\<forall>k m s e. length k = 32 \<and> length s = 64 \<and> ed_verify C k m s = Inl e \<longrightarrow> e = BadSignatureError)"

text \<open>
  X25519 and the AEAD: public keys are 32 bytes, the two ends of an exchange between 32-byte
  private keys derive the same secret, decryption under the same key and nonce inverts
  encryption, which adds a 16-byte tag; BLAKE3 digests are 32 bytes.
\<close>

definition box_ok :: "crypto \<Rightarrow> bool" where
  "box_ok C \<longleftrightarrow>
     (\<forall>n p. x_base C n = Inr p \<longrightarrow> length p = 32) \<and>
     (\<forall>a b pa pb. length a = 32 \<and> length b = 32 \<and> x_base C a = Inr pa \<and> x_base C b = Inr pb \<longrightarrow>
        x_mult C a pb = x_mult C b pa) \<and>
     (\<forall>m ad n k c. aead_enc C m ad n k = Inr c \<longrightarrow> length c = length m + 16 \<and> aead_dec C c ad n k = Inr m) \<and>
     (\<forall>m. length (blake3 C m) = 32)"

text \<open>Exchanges with honest keys, and encryption under a 32-byte key, do not fail.\<close>

definition box_total :: "crypto \<Rightarrow> bool" where
  "box_total C \<longleftrightarrow>
     (\<forall>n. length n = 32 \<longrightarrow> (\<exists>p. x_base C n = Inr p)) \<and>
     (\<forall>a b pb. length a = 32 \<and> length b = 32 \<and> x_base C b = Inr pb \<longrightarrow> (\<exists>s. x_mult C a pb = Inr s)) \<and>
     (\<forall>m ad n k. length n = 12 \<and> length k = 32 \<longrightarrow> (\<exists>c. aead_enc C m ad n k = Inr c))"

definition hash_ok :: "crypto \<Rightarrow> bool" where
  "hash_ok C \<longleftrightarrow> (\<forall>m. length (blake3 C m) = 32)"

lemma ed25519_okD:
  assumes "ed25519_ok C"
  shows "length (ed_pub C seed) = 32" "length (ed_sign C seed m) = 64"
    "length k = 32 \<Longrightarrow> ed_key C k = Inr k"
    "ed_verify C (ed_pub C seed) m (ed_sign C seed m) = Inr ()"
  using assms by (simp_all add: ed25519_ok_def)

lemma box_okD:
  assumes "box_ok C"
  shows "x_base C n = Inr p \<Longrightarrow> length p = 32"
    "length a = 32 \<Longrightarrow> length b = 32 \<Longrightarrow> x_base C a = Inr pa \<Longrightarrow> x_base C b = Inr pb \<Longrightarrow>
      x_mult C a pb = x_mult C b pa"
    "aead_enc C m ad nc k = Inr c \<Longrightarrow> length c = length m + 16"
    "aead_enc C m ad nc k = Inr c \<Longrightarrow> aead_dec C c ad nc k = Inr m"
    "length (blake3 C d) = 32"
  using assms unfolding box_ok_def by blast+

section \<open>A concrete instance\<close>

text \<open>
  Not cryptography: a checksum that keeps the laws. The key pair of a seed is the padded seed
  itself, a signature repeats the key and a digest of the message, an exchange key is marked by
  a last byte 1, an exchange adds the two keys bytewise and refuses the zero point, and the AEAD
  appends the key's first 16 bytes as the tag.
\<close>

definition pad_to :: "nat \<Rightarrow> bytes \<Rightarrow> bytes" where
  "pad_to n bs = take n (bs @ replicate n 0)"

lemma length_pad_to [simp]: "length (pad_to n bs) = n"
  by (simp add: pad_to_def)

lemma pad_to_exact [simp]: "length bs = n \<Longrightarrow> pad_to n bs = bs"
  by (simp add: pad_to_def)

definition toy_digest :: "bytes \<Rightarrow> bytes" where
  "toy_digest m = pad_to 32 [sum_list m, word_of_nat (length m)]"

definition toy_sign :: "bytes \<Rightarrow> bytes \<Rightarrow> bytes" where
  "toy_sign k m = k @ toy_digest m"

definition toy_crypto :: crypto where
  "toy_crypto = \<lparr>
     ed_key = (\<lambda>k. if length k = 32 then Inr k else Inl NaclValueError),
     ed_verify = (\<lambda>k m s. if length s \<noteq> 64 then Inl NaclValueError
                          else if s = toy_sign k m then Inr () else Inl BadSignatureError),
     ed_pub = pad_to 32,
     ed_sign = (\<lambda>seed m. toy_sign (pad_to 32 seed) m),
     blake3 = toy_digest,
     x_base = (\<lambda>n. if length n = 32 then Inr (pad_to 31 n @ [1]) else Inl NaclTypeError),
     x_mult = (\<lambda>a p. if p = replicate 32 0 then Inl NaclRuntimeError
                     else Inr (map2 (+) (pad_to 31 a) (pad_to 31 p))),
     aead_enc = (\<lambda>m ad n k. Inr (m @ pad_to 16 k)),
     aead_dec = (\<lambda>c ad n k. if 16 \<le> length c \<and> drop (length c - 16) c = pad_to 16 k
                            then Inr (take (length c - 16) c) else Inl CryptoError) \<rparr>"

lemma length_toy_digest [simp]: "length (toy_digest m) = 32"
  by (simp add: toy_digest_def)

lemma toy_ed25519_ok: "ed25519_ok toy_crypto"
  by (simp add: ed25519_ok_def toy_crypto_def toy_sign_def)

lemma toy_ed25519_errors: "ed25519_errors toy_crypto"
  by (auto simp: ed25519_errors_def toy_crypto_def split: if_splits)

lemma toy_hash_ok: "hash_ok toy_crypto"
  by (simp add: hash_ok_def toy_crypto_def)

lemma map2_plus_commute: "map2 (+) xs ys = map2 (+) ys (xs :: byte list)"
  by (induction xs ys rule: list_induct2') (auto simp: add.commute)

lemma pad_to_append [simp]: "pad_to n (pad_to n xs @ ys) = pad_to n xs"
  by (simp add: pad_to_def)

lemma toy_point_nonzero [simp]: "pad_to 31 n @ [1] \<noteq> replicate 32 (0 :: byte)"
proof
  assume "pad_to 31 n @ [1] = replicate 32 (0 :: byte)"
  then have "last (pad_to 31 n @ [1]) = last (replicate 32 (0 :: byte))" by (rule arg_cong)
  then show False by simp
qed

lemma toy_box_ok: "box_ok toy_crypto"
  by (auto simp: box_ok_def toy_crypto_def map2_plus_commute split: if_splits)

lemma toy_box_total: "box_total toy_crypto"
  by (auto simp: box_total_def toy_crypto_def split: if_splits)

end
