(* ===== verification/Checks.thy ===== *)
theory Checks
  imports Message Crypto
begin

text \<open>
  The stateless pipeline checks: \<^emph>\<open>size_check.py\<close> (step 1), \<^emph>\<open>ttl_check.py\<close> (step 2),
  \<^emph>\<open>timestamp_check.py\<close> (step 3) and \<^emph>\<open>signature_check.py\<close> (step 6). A check returns
  \<open>None\<close> to pass or \<open>Some reason\<close>, the text the source returns.
\<close>

type_synonym reason = "string option"

text \<open>\<^emph>\<open>if reason := check(...)\<close> takes the branch on a non-empty text only.\<close>

fun truthy :: "reason \<Rightarrow> bool" where
  "truthy None = False"
| "truthy (Some s) = (s \<noteq> [])"

section \<open>Step 1: size\<close>

definition check_size :: "bytes \<Rightarrow> reason" where
  "check_size bs =
     (let n = length bs in
      if n < MIN_PACKET
      then Some (''packet too small: '' @ show_nat n @ '' bytes (min '' @ show_nat MIN_PACKET @ '')'')
      else if n > MAX_PACKET
      then Some (''packet too large: '' @ show_nat n @ '' bytes (max '' @ show_nat MAX_PACKET @ '')'')
      else None)"

lemma check_size_truthy [simp]: "truthy (check_size bs) \<longleftrightarrow> length bs < 131 \<or> 460 < length bs"
  by (simp add: check_size_def Let_def)

lemma check_size_None: "check_size bs = None \<longleftrightarrow> 131 \<le> length bs \<and> length bs \<le> 460"
  by (auto simp add: check_size_def Let_def)

section \<open>Step 2: hop budget\<close>

definition check_ttl :: "message \<Rightarrow> reason" where
  "check_ttl msg = (if ttl msg = 0 then Some ''ttl exhausted'' else None)"

lemma check_ttl_truthy [simp]: "truthy (check_ttl m) \<longleftrightarrow> ttl m = 0"
  by (simp add: check_ttl_def)

section \<open>Step 3: timestamp\<close>

definition MAX_AGE_SECONDS :: int where [simp]: "MAX_AGE_SECONDS = 300"
definition MAX_FUTURE_SECONDS :: int where [simp]: "MAX_FUTURE_SECONDS = 30"

definition check_timestamp :: "time \<Rightarrow> message \<Rightarrow> reason" where
  "check_timestamp clk msg =
     (let now = py_int clk; age = now - timestamp msg in
      if age > MAX_AGE_SECONDS
      then Some (''timestamp too old: '' @ show_int age @ ''s ago (max '' @ show_int MAX_AGE_SECONDS @ ''s)'')
      else if age < - MAX_FUTURE_SECONDS
      then Some (''timestamp too far in future: '' @ show_int (- age) @ ''s ahead (max ''
                 @ show_int MAX_FUTURE_SECONDS @ ''s)'')
      else None)"

text \<open>The accepted timestamps: the window \<open>[now - 300, now + 30]\<close>.\<close>

definition fresh :: "time \<Rightarrow> int \<Rightarrow> bool" where
  "fresh clk ts \<longleftrightarrow> py_int clk - 300 \<le> ts \<and> ts \<le> py_int clk + 30"

lemma check_timestamp_truthy [simp]: "truthy (check_timestamp clk m) \<longleftrightarrow> \<not> fresh clk (timestamp m)"
  by (auto simp: check_timestamp_def fresh_def Let_def)

text \<open>
  A timestamp is fresh for at most 330 seconds of the receiver's clock, plus less than two
  seconds for the two truncations.
\<close>

lemma fresh_span:
  assumes "fresh t ts" "fresh t' ts"
  shows "t' - t < 332"
proof -
  have "py_int t' \<le> py_int t + 330" using assms by (simp add: fresh_def)
  then have "(of_int (py_int t') :: time) \<le> of_int (py_int t) + 330"
    by (metis of_int_add of_int_le_iff of_int_numeral)
  then show ?thesis using py_int_bounds(1) [of t'] py_int_bounds(2) [of t] by linarith
qed

section \<open>Step 6: signature\<close>

text \<open>\<^emph>\<open>except (CryptoError, ValueError)\<close>: any other exception goes on to the caller.\<close>

definition check_signature :: "crypto \<Rightarrow> message \<Rightarrow> reason res" where
  "check_signature C msg =
     (case res_bind (ed_key C (sender_key msg))
             (\<lambda>k. ed_verify C k (signed_region (raw msg) (payload_len msg)) (signature msg)) of
        Inr _ \<Rightarrow> Inr None
      | Inl e \<Rightarrow> if is_CryptoError e \<or> is_ValueError e
                 then Inr (Some ''signature invalid: Ed25519 verification failed'') else Inl e)"

text \<open>The signature verifies under the sender key the packet names.\<close>

definition sig_valid :: "crypto \<Rightarrow> message \<Rightarrow> bool" where
  "sig_valid C msg \<longleftrightarrow>
     res_bind (ed_key C (sender_key msg))
       (\<lambda>k. ed_verify C k (signed_region (raw msg) (payload_len msg)) (signature msg)) = Inr ()"

lemma check_signature_total:
  assumes "ed25519_errors C"
  shows "check_signature C m =
    Inr (if sig_valid C m then None else Some ''signature invalid: Ed25519 verification failed'')"
proof -
  have "is_CryptoError e \<or> is_ValueError e"
    if "res_bind (ed_key C (sender_key m)) (\<lambda>k. ed_verify C k msg s) = Inl e" for e msg s
    using that assms unfolding ed25519_errors_def res_bind_eq_Inl by blast
  then show ?thesis
    unfolding check_signature_def sig_valid_def by (auto split: sum.splits)
qed

lemma check_signature_None: "check_signature C m = Inr None \<longleftrightarrow> sig_valid C m"
  by (auto simp: check_signature_def sig_valid_def split: sum.splits)

lemma check_signature_truthy:
  "check_signature C m = Inr r \<Longrightarrow> truthy r \<longleftrightarrow> \<not> sig_valid C m"
  by (auto simp: check_signature_def sig_valid_def split: sum.splits if_splits)

end
