(* ===== verification/Dedup.thy ===== *)
theory Dedup
  imports Gate Checks "HOL-Library.AList"
begin

text \<open>
  \<^emph>\<open>pipeline/dedup_check.py\<close> (step 4). The Bloom filter is the third-party package
  pybloom-live: a record of operations \<open>bloom_ops\<close>, with its documented behaviour in
  \<open>bloom_ok\<close>. The LRU is an \<^emph>\<open>OrderedDict\<close>: an association list in insertion order, where
  storing under a present key keeps its place (\<open>AList.update\<close>). \<open>dedup_check\<close> and
  \<open>dedup_evict\<close> follow the methods of \<^emph>\<open>DedupCache\<close> statement by statement, the exceptions
  of \<^emph>\<open>add\<close> included.
\<close>

section \<open>The Bloom filter, a parameter\<close>

record 'b bloom_ops =
  bf_new :: "nat \<Rightarrow> rat \<Rightarrow> 'b"            \<comment> \<open>BloomFilter(capacity, error_rate)\<close>
  bf_mem :: "bytes \<Rightarrow> 'b \<Rightarrow> bool"          \<comment> \<open>key in bf\<close>
  bf_add :: "bytes \<Rightarrow> 'b \<Rightarrow> 'b res"         \<comment> \<open>bf.add(key)\<close>
  bf_count :: "'b \<Rightarrow> nat"                  \<comment> \<open>len(bf)\<close>
  bf_capacity :: "'b \<Rightarrow> nat"               \<comment> \<open>bf.capacity\<close>

text \<open>
  A new filter is empty and has the capacity asked for; adding a key makes it a member and
  forgets nobody (no false negatives), counts it at most once and keeps the capacity; below
  the capacity adding succeeds. False positives are allowed.
\<close>

definition bloom_ok :: "'b bloom_ops \<Rightarrow> bool" where
  "bloom_ok B \<longleftrightarrow>
     (\<forall>c e. bf_count B (bf_new B c e) = 0 \<and> bf_capacity B (bf_new B c e) = c \<and>
            (\<forall>x. \<not> bf_mem B x (bf_new B c e))) \<and>
     (\<forall>x b b'. bf_add B x b = Inr b' \<longrightarrow>
        bf_mem B x b' \<and> (\<forall>y. bf_mem B y b \<longrightarrow> bf_mem B y b') \<and>
        bf_count B b' \<le> bf_count B b + 1 \<and> bf_capacity B b' = bf_capacity B b) \<and>
     (\<forall>x b. bf_count B b < bf_capacity B b \<longrightarrow> (\<exists>b'. bf_add B x b = Inr b'))"

lemma bloom_ok_new:
  "bloom_ok B \<Longrightarrow> bf_count B (bf_new B c e) = 0"
  "bloom_ok B \<Longrightarrow> bf_capacity B (bf_new B c e) = c"
  "bloom_ok B \<Longrightarrow> \<not> bf_mem B x (bf_new B c e)"
  by (auto simp: bloom_ok_def)

lemma bloom_ok_add:
  assumes "bloom_ok B" "bf_add B x b = Inr b'"
  shows "bf_mem B x b'" "bf_mem B y b \<Longrightarrow> bf_mem B y b'" "bf_count B b' \<le> bf_count B b + 1"
    "bf_capacity B b' = bf_capacity B b"
  using assms unfolding bloom_ok_def by blast+

lemma bloom_ok_total: "bloom_ok B \<Longrightarrow> bf_count B b < bf_capacity B b \<Longrightarrow> \<exists>b'. bf_add B x b = Inr b'"
  by (simp add: bloom_ok_def)

text \<open>A filter for the examples, a list of keys.\<close>

definition list_bloom :: "(nat \<times> bytes list) bloom_ops" where
  "list_bloom = \<lparr>
     bf_new = (\<lambda>c e. (c, [])),
     bf_mem = (\<lambda>x b. x \<in> set (snd b)),
     bf_add = (\<lambda>x b. if length (snd b) < fst b then Inr (fst b, x # snd b) else Inl IndexError),
     bf_count = (\<lambda>b. length (snd b)),
     bf_capacity = fst \<rparr>"

lemma list_bloom_ok: "bloom_ok list_bloom"
  by (auto simp: bloom_ok_def list_bloom_def split: if_splits)

section \<open>The cache\<close>

definition CAPACITY :: nat where [simp]: "CAPACITY = 10000"
definition TTL_SECONDS :: time where [simp]: "TTL_SECONDS = 600"
definition FALSE_POSITIVE_RATE :: rat where "FALSE_POSITIVE_RATE = 1 / 100"
definition REBUILD_EVICTION_THRESHOLD :: nat where [simp]: "REBUILD_EVICTION_THRESHOLD = 1000"

record 'b dedup_cache =
  lru :: "(bytes \<times> time) list"
  bloom :: 'b
  evictions_since_rebuild :: nat

definition new_bloom :: "'b bloom_ops \<Rightarrow> 'b" where
  "new_bloom B = bf_new B (CAPACITY + 2 * REBUILD_EVICTION_THRESHOLD) FALSE_POSITIVE_RATE"

definition new_dedup :: "'b bloom_ops \<Rightarrow> 'b dedup_cache" where
  "new_dedup B = \<lparr> lru = [], bloom = new_bloom B, evictions_since_rebuild = 0 \<rparr>"

text \<open>The \<^emph>\<open>while self._lru\<close> loop of \<^emph>\<open>_evict\<close>: pop the oldest entry while it is due.\<close>

fun evict_loop :: "time \<Rightarrow> (bytes \<times> time) list \<Rightarrow> nat \<Rightarrow> (bytes \<times> time) list \<times> nat" where
  "evict_loop now [] n = ([], n)"
| "evict_loop now ((oldest_id, seen_at) # rest) n =
     (if length ((oldest_id, seen_at) # rest) > CAPACITY \<or> now - seen_at > TTL_SECONDS
      then evict_loop now rest (n + 1)
      else ((oldest_id, seen_at) # rest, n))"

text \<open>The \<^emph>\<open>for msg_id in self._lru: self._bloom.add(msg_id)\<close> loop; the filter so far stays
  when \<^emph>\<open>add\<close> raises.\<close>

fun add_all :: "'b bloom_ops \<Rightarrow> bytes list \<Rightarrow> 'b \<Rightarrow> unit res \<times> 'b" where
  "add_all B [] b = (Inr (), b)"
| "add_all B (k # ks) b =
     (case bf_add B k b of Inl e \<Rightarrow> (Inl e, b) | Inr b' \<Rightarrow> add_all B ks b')"

definition dedup_evict :: "'b bloom_ops \<Rightarrow> time \<Rightarrow> 'b dedup_cache \<Rightarrow> unit res \<times> 'b dedup_cache" where
  "dedup_evict B now s =
     (case evict_loop now (lru s) (evictions_since_rebuild s) of (l, n) \<Rightarrow>
      let s1 = s\<lparr>lru := l, evictions_since_rebuild := n\<rparr> in
      if n \<ge> REBUILD_EVICTION_THRESHOLD then
        (case add_all B (map fst l) (new_bloom B) of
           (Inl e, b) \<Rightarrow> (Inl e, s1\<lparr>bloom := b\<rparr>)
         | (Inr _, b) \<Rightarrow> (Inr (), s1\<lparr>bloom := b, evictions_since_rebuild := 0\<rparr>))
      else (Inr (), s1))"

definition duplicate_reason :: string where
  "duplicate_reason = ''duplicate: msg_id already seen''"

text \<open>The input of a check: the clock reading it makes and the message identifier.\<close>

definition dedup_check ::
    "'b bloom_ops \<Rightarrow> time \<times> bytes \<Rightarrow> 'b dedup_cache \<Rightarrow> reason res \<times> 'b dedup_cache" where
  "dedup_check B req s =
     (case req of (now, mid) \<Rightarrow>
      if bf_mem B mid (bloom s) then (Inr (Some duplicate_reason), s)
      else case bf_add B mid (bloom s) of
        Inl e \<Rightarrow> (Inl e, s)
      | Inr b \<Rightarrow>
          (case dedup_evict B now (s\<lparr>bloom := b, lru := AList.update mid now (lru s)\<rparr>) of
             (Inl e, s2) \<Rightarrow> (Inl e, s2)
           | (Inr _, s2) \<Rightarrow> (Inr None, s2)))"

section \<open>The eviction loop and the rebuild\<close>

text \<open>Eviction drops a prefix and counts it; what is left in front is not due.\<close>

lemma evict_loop_drop:
  "\<exists>k. evict_loop now xs n = (drop k xs, n + k) \<and> k \<le> length xs"
proof (induction now xs n rule: evict_loop.induct)
  case (2 now mid t rest n)
  show ?case
  proof (cases "length ((mid, t) # rest) > CAPACITY \<or> now - t > TTL_SECONDS")
    case True
    with "2.IH" obtain k where "evict_loop now rest (n + 1) = (drop k rest, n + 1 + k)" "k \<le> length rest"
      by blast
    with True show ?thesis by (intro exI [of _ "Suc k"]) simp
  next
    case False
    then show ?thesis by (intro exI [of _ 0]) auto
  qed
qed simp

lemma evict_loop_length: "length (fst (evict_loop now xs n)) \<le> CAPACITY"
  by (induction now xs n rule: evict_loop.induct) auto

lemma evict_loop_head:
  "fst (evict_loop now xs n) = (m, t) # r \<Longrightarrow> now - t \<le> TTL_SECONDS"
  by (induction now xs n rule: evict_loop.induct) (auto split: if_splits)

text \<open>An entry young enough, with fewer than \<open>CAPACITY\<close> entries behind it, survives.\<close>

lemma evict_loop_keeps:
  assumes "now - t \<le> TTL_SECONDS" "length post < CAPACITY"
  shows "\<exists>pre'. fst (evict_loop now (pre @ (m, t) # post) n) = pre' @ (m, t) # post"
proof (induction pre arbitrary: n)
  case Nil
  from assms show ?case by (intro exI [of _ "[]"]) simp
next
  case (Cons p pre)
  show ?case
  proof (cases p)
    case (Pair a b)
    show ?thesis
    proof (cases "length ((a, b) # pre @ (m, t) # post) > CAPACITY \<or> now - b > TTL_SECONDS")
      case True
      then show ?thesis using Cons [of "n + 1"] Pair by simp
    next
      case False
      then show ?thesis using Pair by (intro exI [of _ "(a, b) # pre"]) auto
    qed
  qed
qed

lemma add_all_ok:
  assumes "bloom_ok B" "bf_count B b + length ks \<le> bf_capacity B b"
  shows "\<exists>b'. add_all B ks b = (Inr (), b') \<and> (\<forall>k \<in> set ks. bf_mem B k b') \<and>
     (\<forall>y. bf_mem B y b \<longrightarrow> bf_mem B y b') \<and>
     bf_count B b' \<le> bf_count B b + length ks \<and> bf_capacity B b' = bf_capacity B b"
  using assms(2)
proof (induction ks arbitrary: b)
  case (Cons k ks)
  then obtain b1 where b1: "bf_add B k b = Inr b1"
    using bloom_ok_total [OF assms(1), of b k] by auto
  note a = bloom_ok_add [OF assms(1) b1]
  have "bf_count B b1 + length ks \<le> bf_capacity B b1"
    using a(3,4) Cons.prems by simp
  from Cons.IH [OF this] a b1 show ?case by fastforce
qed simp

lemma alist_update_new: "k \<notin> fst ` set xs \<Longrightarrow> AList.update k v xs = xs @ [(k, v)]"
  by (induction xs) auto

section \<open>Invariant\<close>

text \<open>
  Every live identifier is in the filter; the cache is within its capacity and short of a
  rebuild; and the filter has been given no more keys than are live or were evicted since it
  was built, which keeps it away from its hard capacity.
\<close>

definition dedup_inv :: "'b bloom_ops \<Rightarrow> 'b dedup_cache \<Rightarrow> bool" where
  "dedup_inv B s \<longleftrightarrow>
     distinct (map fst (lru s)) \<and>
     (\<forall>k \<in> fst ` set (lru s). bf_mem B k (bloom s)) \<and>
     length (lru s) \<le> CAPACITY \<and>
     evictions_since_rebuild s < REBUILD_EVICTION_THRESHOLD \<and>
     bf_count B (bloom s) \<le> length (lru s) + evictions_since_rebuild s \<and>
     bf_capacity B (bloom s) = CAPACITY + 2 * REBUILD_EVICTION_THRESHOLD"

lemma new_dedup_inv: "bloom_ok B \<Longrightarrow> dedup_inv B (new_dedup B)"
  by (simp add: dedup_inv_def new_dedup_def new_bloom_def bloom_ok_new)

text \<open>What eviction needs: the invariant, one key over.\<close>

definition dedup_pre :: "'b bloom_ops \<Rightarrow> 'b dedup_cache \<Rightarrow> bool" where
  "dedup_pre B s \<longleftrightarrow>
     distinct (map fst (lru s)) \<and>
     (\<forall>k \<in> fst ` set (lru s). bf_mem B k (bloom s)) \<and>
     bf_count B (bloom s) \<le> length (lru s) + evictions_since_rebuild s \<and>
     bf_capacity B (bloom s) = CAPACITY + 2 * REBUILD_EVICTION_THRESHOLD"

lemma dedup_evict_ok:
  assumes "bloom_ok B" "dedup_pre B s"
  shows "\<exists>s'. dedup_evict B now s = (Inr (), s') \<and> dedup_inv B s' \<and>
     (case evict_loop now (lru s) (evictions_since_rebuild s) of (l, n) \<Rightarrow>
        lru s' = l \<and> (if n < REBUILD_EVICTION_THRESHOLD then bloom s' = bloom s
                       else add_all B (map fst l) (new_bloom B) = (Inr (), bloom s')))"
proof -
  obtain k where k: "evict_loop now (lru s) (evictions_since_rebuild s)
      = (drop k (lru s), evictions_since_rebuild s + k)" "k \<le> length (lru s)"
    using evict_loop_drop by blast
  let ?l = "drop k (lru s)" and ?n = "evictions_since_rebuild s + k"
  have len: "length ?l \<le> CAPACITY"
    using evict_loop_length [of now "lru s" "evictions_since_rebuild s"] k by simp
  have dist: "distinct (map fst ?l)"
    using assms(2) by (simp add: dedup_pre_def drop_map [symmetric])
  have mem: "\<forall>x \<in> fst ` set ?l. bf_mem B x (bloom s)"
    using assms(2) set_drop_subset [of k "lru s"] by (auto simp: dedup_pre_def)
  show ?thesis
  proof (cases "?n \<ge> REBUILD_EVICTION_THRESHOLD")
    case False
    then show ?thesis
      using k len dist mem assms(2) by (auto simp: dedup_evict_def dedup_inv_def dedup_pre_def)
  next
    case True
    have "bf_count B (new_bloom B) + length (map fst ?l) \<le> bf_capacity B (new_bloom B)"
      using len assms(1) by (simp add: new_bloom_def bloom_ok_new)
    from add_all_ok [OF assms(1) this] obtain b where
      "add_all B (map fst ?l) (new_bloom B) = (Inr (), b)" "\<forall>x \<in> fst ` set ?l. bf_mem B x b"
      "bf_count B b \<le> length ?l" "bf_capacity B b = CAPACITY + 2 * REBUILD_EVICTION_THRESHOLD"
      using assms(1) by (auto simp: new_bloom_def bloom_ok_new)
    with True k len dist show ?thesis
      by (auto simp: dedup_evict_def dedup_inv_def)
  qed
qed

lemma dedup_check_dup:
  "bf_mem B mid (bloom s) \<Longrightarrow> dedup_check B (now, mid) s = (Inr (Some duplicate_reason), s)"
  by (simp add: dedup_check_def)

lemma dedup_check_new:
  assumes "bloom_ok B" "dedup_inv B s" "\<not> bf_mem B mid (bloom s)"
  shows "\<exists>s'. dedup_check B (now, mid) s = (Inr None, s') \<and> dedup_inv B s' \<and>
     (case evict_loop now (lru s @ [(mid, now)]) (evictions_since_rebuild s) of (l, n) \<Rightarrow>
        lru s' = l \<and> (if n < REBUILD_EVICTION_THRESHOLD then bf_add B mid (bloom s) = Inr (bloom s')
                       else add_all B (map fst l) (new_bloom B) = (Inr (), bloom s')))"
proof -
  have nin: "mid \<notin> fst ` set (lru s)" using assms(2,3) by (auto simp: dedup_inv_def)
  have "bf_count B (bloom s) < bf_capacity B (bloom s)" using assms(2) by (auto simp: dedup_inv_def)
  then obtain b where b: "bf_add B mid (bloom s) = Inr b"
    using bloom_ok_total [OF assms(1)] by blast
  note a = bloom_ok_add [OF assms(1) b]
  let ?s1 = "s\<lparr>bloom := b, lru := lru s @ [(mid, now)]\<rparr>"
  have "dedup_pre B ?s1"
    using assms(2) a nin unfolding dedup_inv_def dedup_pre_def by auto
  moreover obtain l n where ln: "evict_loop now (lru s @ [(mid, now)]) (evictions_since_rebuild s) = (l, n)"
    by fastforce
  ultimately obtain s' where
    "dedup_evict B now ?s1 = (Inr (), s')" "dedup_inv B s'" "lru s' = l"
    "if n < REBUILD_EVICTION_THRESHOLD then bloom s' = b
     else add_all B (map fst l) (new_bloom B) = (Inr (), bloom s')"
    using dedup_evict_ok [OF assms(1), of ?s1 now] by auto
  with assms(3) b nin ln show ?thesis
    by (intro exI [of _ s']) (auto simp: dedup_check_def alist_update_new)
qed

lemma dedup_check_new_lru:
  assumes "bloom_ok B" "dedup_inv B s" "\<not> bf_mem B mid (bloom s)"
  shows "\<exists>s'. dedup_check B (now, mid) s = (Inr None, s') \<and> dedup_inv B s' \<and>
     lru s' = fst (evict_loop now (lru s @ [(mid, now)]) (evictions_since_rebuild s))"
  using dedup_check_new [OF assms, of now] by (fastforce split: prod.splits)

interpretation dedup: gate "dedup_check B" "\<lambda>s. bloom_ok B \<and> dedup_inv B s" for B :: "'b bloom_ops"
proof
  fix s :: "'b dedup_cache" and req :: "time \<times> bytes"
  assume inv: "bloom_ok B \<and> dedup_inv B s"
  obtain now mid where req: "req = (now, mid)" by (cases req)
  show "bloom_ok B \<and> dedup_inv B (snd (dedup_check B req s))"
    and "returns (fst (dedup_check B req s))"
    using inv dedup_check_dup [of B mid s now] dedup_check_new_lru [of B s mid now] req
    by (cases "bf_mem B mid (bloom s)"; auto)+
qed

section \<open>Remembering\<close>

text \<open>\<open>holds m t j s\<close>: message \<open>m\<close> is live since \<open>t\<close>, with at most \<open>j\<close> newer entries.\<close>

definition holds :: "bytes \<Rightarrow> time \<Rightarrow> nat \<Rightarrow> 'b dedup_cache \<Rightarrow> bool" where
  "holds m t j s \<longleftrightarrow> (\<exists>pre post. lru s = pre @ (m, t) # post \<and> length post \<le> j)"

lemma holds_dup:
  assumes "dedup_inv B s" "holds m t j s"
  shows "dedup_check B (now, m) s = (Inr (Some duplicate_reason), s)"
proof -
  from assms(2) have "m \<in> fst ` set (lru s)" by (force simp: holds_def)
  with assms(1) have "bf_mem B m (bloom s)" unfolding dedup_inv_def by blast
  then show ?thesis by (rule dedup_check_dup)
qed

lemma holds_accept:
  assumes "bloom_ok B" "dedup_inv B s" "fst (dedup_check B (t, m) s) = Inr None"
  shows "holds m t 0 (snd (dedup_check B (t, m) s))"
proof -
  have new: "\<not> bf_mem B m (bloom s)" using assms(3) by (auto simp: dedup_check_def)
  obtain pre' where "fst (evict_loop t (lru s @ (m, t) # []) (evictions_since_rebuild s)) = pre' @ (m, t) # []"
    using evict_loop_keeps [of t t "[]" "lru s" m] by auto
  then show ?thesis using dedup_check_new_lru [OF assms(1,2) new, of t] by (auto simp: holds_def)
qed

lemma holds_step:
  assumes "bloom_ok B" "dedup_inv B s" "holds m t j s"
    and "now - t \<le> TTL_SECONDS" "j + 1 < CAPACITY"
  shows "holds m t (if fst (dedup_check B (now, x) s) = Inr None then j + 1 else j)
           (snd (dedup_check B (now, x) s))"
proof (cases "bf_mem B x (bloom s)")
  case True
  with assms(3) show ?thesis by (simp add: dedup_check_dup)
next
  case False
  obtain pre post where l: "lru s = pre @ (m, t) # post" "length post \<le> j"
    using assms(3) by (auto simp: holds_def)
  have "length (post @ [(x, now)]) < CAPACITY" using l(2) assms(5) by simp
  then obtain pre' where "fst (evict_loop now (pre @ (m, t) # post @ [(x, now)]) (evictions_since_rebuild s))
      = pre' @ (m, t) # post @ [(x, now)]"
    using evict_loop_keeps [OF assms(4)] by blast
  with dedup_check_new_lru [OF assms(1,2) False, of now] l
  obtain s' where s': "dedup_check B (now, x) s = (Inr None, s')"
    "lru s' = pre' @ (m, t) # post @ [(x, now)]" by auto
  show ?thesis
    unfolding s' holds_def using l(2) s'(2) by (intro exI [of _ pre'] exI [of _ "post @ [(x, now)]"]) simp
qed

definition n_accepted :: "reason res list \<Rightarrow> nat" where
  "n_accepted rs = length (filter (\<lambda>r. r = Inr None) rs)"

lemma n_accepted_simps [simp]:
  "n_accepted [] = 0"
  "n_accepted (r # rs) = (if r = Inr None then 1 else 0) + n_accepted rs"
  by (simp_all add: n_accepted_def)

lemma holds_run:
  assumes "bloom_ok B" "dedup_inv B s" "holds m t j s"
    and "\<forall>(now, x) \<in> set reqs. now - t \<le> TTL_SECONDS"
    and "j + n_accepted (fst (run_checks (dedup_check B) reqs s)) < CAPACITY"
  shows "holds m t (j + n_accepted (fst (run_checks (dedup_check B) reqs s)))
     (snd (run_checks (dedup_check B) reqs s))"
  using assms(2-5)
proof (induction reqs arbitrary: s j)
  case Nil
  then show ?case by simp
next
  case (Cons r reqs)
  obtain now x where r: "r = (now, x)" by (cases r)
  let ?s = "snd (dedup_check B (now, x) s)" and ?d = "if fst (dedup_check B (now, x) s) = Inr None then 1 else 0 :: nat"
  have inv: "dedup_inv B ?s" using dedup.keeps [of B s "(now, x)"] assms(1) Cons.prems(1) by simp
  have h: "holds m t (j + ?d) ?s"
  proof (cases "j + 1 < CAPACITY")
    case True
    then show ?thesis using holds_step [OF assms(1) Cons.prems(1,2), of now x] Cons.prems(3) r by auto
  next
    case False
    with Cons.prems(4) r have "fst (dedup_check B (now, x) s) \<noteq> Inr None" by auto
    moreover from this have "bf_mem B x (bloom s)"
      using dedup_check_new_lru [OF assms(1) Cons.prems(1), of x now] by force
    ultimately show ?thesis using Cons.prems(2) by (simp add: dedup_check_dup duplicate_reason_def)
  qed
  show ?case
    using Cons.IH [OF inv h] Cons.prems(3,4) r by (simp add: add.assoc)
qed

section \<open>The cache as its callers see it\<close>

lemma dedup_run_inv:
  "bloom_ok B \<Longrightarrow> dedup_inv B (snd (run_checks (dedup_check B) reqs (new_dedup B)))"
  using dedup.run_keeps [of B "new_dedup B" reqs] new_dedup_inv by blast

text \<open>
  C13: From a fresh cache, every sequence of checks returns (\<^emph>\<open>BloomFilter.add\<close> never overflows its
  hard capacity), at most 10000 identifiers are live, and the filter never fills up.
\<close>

theorem dedup_never_overflows:
  assumes "bloom_ok B"
  shows "list_all returns (fst (run_checks (dedup_check B) reqs (new_dedup B))) \<and>
    length (lru (snd (run_checks (dedup_check B) reqs (new_dedup B)))) \<le> CAPACITY \<and>
    bf_count B (bloom (snd (run_checks (dedup_check B) reqs (new_dedup B)))) + REBUILD_EVICTION_THRESHOLD
      < bf_capacity B (bloom (snd (run_checks (dedup_check B) reqs (new_dedup B))))"
  using dedup_run_inv [OF assms, of reqs] dedup.run_total [of B "new_dedup B" reqs] new_dedup_inv assms
  by (auto simp: dedup_inv_def)

theorem dedup_never_overflows_witness:
  "list_all returns (fst (run_checks (dedup_check list_bloom) [(0, [1]), (5, [1]), (700, [2])] (new_dedup list_bloom))) \<and>
   length (lru (snd (run_checks (dedup_check list_bloom) [(0, [1]), (5, [1]), (700, [2])] (new_dedup list_bloom)))) \<le> 10000"
  using dedup_never_overflows [OF list_bloom_ok, of "[(0, [1]), (5, [1]), (700, [2])]"] by simp

text \<open>
  C14: No second acceptance. Once an identifier has been accepted, it is refused as a duplicate
  as long as no intervening check came more than 600 seconds after the acceptance and fewer than
  10000 other identifiers were accepted in between, whatever the filter's false positives.
\<close>

theorem dedup_remembers:
  assumes "bloom_ok B"
    and s: "s = snd (run_checks (dedup_check B) before (new_dedup B))"
    and "fst (dedup_check B (t, m) s) = Inr None"
    and s': "s' = snd (dedup_check B (t, m) s)"
    and "\<forall>(now, x) \<in> set reqs. now - t \<le> TTL_SECONDS"
    and "n_accepted (fst (run_checks (dedup_check B) reqs s')) < CAPACITY"
  shows "fst (dedup_check B (now', m) (snd (run_checks (dedup_check B) reqs s'))) = Inr (Some duplicate_reason)"
proof -
  have inv: "dedup_inv B s" unfolding s by (rule dedup_run_inv [OF assms(1)])
  have inv': "bloom_ok B \<and> dedup_inv B s'" unfolding s' using dedup.keeps inv assms(1) by blast
  have "holds m t 0 s'" unfolding s' by (rule holds_accept [OF assms(1) inv assms(3)])
  from holds_run [OF assms(1) _ this assms(5)] inv' assms(6)
  have "holds m t (n_accepted (fst (run_checks (dedup_check B) reqs s'))) (snd (run_checks (dedup_check B) reqs s'))"
    by simp
  from holds_dup [OF _ this] dedup.run_keeps [OF inv'] show ?thesis by simp
qed

theorem dedup_remembers_witness:
  "fst (dedup_check list_bloom (3000, [1])
     (snd (run_checks (dedup_check list_bloom) [(5, [2]), (600, [3])]
        (snd (dedup_check list_bloom (0, [1]) (snd (run_checks (dedup_check list_bloom) [] (new_dedup list_bloom)))))))) =
   Inr (Some duplicate_reason)"
proof (rule dedup_remembers [OF list_bloom_ok refl _ refl, where t = 0])
  show "fst (dedup_check list_bloom (0, [1]) (snd (run_checks (dedup_check list_bloom) [] (new_dedup list_bloom)))) = Inr None"
    using dedup_check_new_lru [OF list_bloom_ok new_dedup_inv [OF list_bloom_ok], of "[1]" 0]
    by (auto simp: new_dedup_def new_bloom_def bloom_ok_new(3) [OF list_bloom_ok])
  have "n_accepted (fst (run_checks f xs z)) \<le> length xs" for f :: "time \<times> bytes \<Rightarrow> 'z \<Rightarrow> reason res \<times> 'z" and xs z
    using length_filter_le [of _ "fst (run_checks f xs z)"] by (simp add: n_accepted_def)
  from this [of _ "[(5, [2]), (600, [3])]"]
  show "n_accepted (fst (run_checks (dedup_check list_bloom) [(5, [2]), (600, [3])]
      (snd (dedup_check list_bloom (0, [1]) (snd (run_checks (dedup_check list_bloom) [] (new_dedup list_bloom))))))) < CAPACITY"
    by (rule le_less_trans) simp
qed simp

end
