(* ===== verification/Rate_Limit.thy ===== *)
theory Rate_Limit
  imports Gate Checks
begin

text \<open>
  \<^emph>\<open>pipeline/rate_limit_check.py\<close> (step 5): a sliding window and a ban per ephemeral
  identifier, with housekeeping every 1000 checks. \<open>sender_step\<close> is the part of
  \<^emph>\<open>RateLimiter.check\<close> that works on one sender's state, \<open>rate_check\<close> the whole method.
  The reference limiter \<open>ref_check\<close> keeps every sender for ever; the real one is proved to
  give the same answers.
\<close>

section \<open>The limiter\<close>

definition WINDOW_SECONDS :: time where [simp]: "WINDOW_SECONDS = 10"
definition MAX_MESSAGES_PER_WINDOW :: nat where [simp]: "MAX_MESSAGES_PER_WINDOW = 10"
definition BAN_SECONDS :: time where [simp]: "BAN_SECONDS = 60"
definition BAN_VIOLATION_THRESHOLD :: nat where [simp]: "BAN_VIOLATION_THRESHOLD = 3"
definition IDLE_EXPIRY_SECONDS :: time where [simp]: "IDLE_EXPIRY_SECONDS = 600"
definition PRUNE_INTERVAL_CHECKS :: nat where [simp]: "PRUNE_INTERVAL_CHECKS = 1000"

record sender_state =
  window :: "time list"
  consecutive_violations :: nat
  banned_until :: time
  last_seen :: time

definition new_sender :: sender_state where
  "new_sender = \<lparr> window = [], consecutive_violations = 0, banned_until = 0, last_seen = 0 \<rparr>"

record limiter =
  senders :: "bytes \<rightharpoonup> sender_state"
  checks :: nat

definition new_limiter :: limiter where
  "new_limiter = \<lparr> senders = Map.empty, checks = 0 \<rparr>"

definition banned_reason :: string where
  "banned_reason = ''rate limit: sender is banned''"

definition ban_reason :: string where
  "ban_reason = ''rate limit: '' @ show_nat BAN_VIOLATION_THRESHOLD @ '' violations in a row, sender banned for ''
     @ show_int (py_int BAN_SECONDS) @ ''s''"

definition exceeded_reason :: string where
  "exceeded_reason = ''rate limit exceeded: > '' @ show_nat MAX_MESSAGES_PER_WINDOW @ '' messages per ''
     @ show_int (py_int WINDOW_SECONDS) @ ''s window''"

lemmas rate_reasons = banned_reason_def ban_reason_def exceeded_reason_def

definition sender_step :: "time \<Rightarrow> sender_state \<Rightarrow> reason \<times> sender_state" where
  "sender_step now st0 =
     (let st = st0\<lparr>last_seen := now\<rparr> in
      if now < banned_until st then (Some banned_reason, st)
      else let st = st\<lparr>window := dropWhile (\<lambda>t. now - t > WINDOW_SECONDS) (window st)\<rparr> in
        if length (window st) \<ge> MAX_MESSAGES_PER_WINDOW then
          (let st = st\<lparr>consecutive_violations := consecutive_violations st + 1\<rparr> in
           if consecutive_violations st \<ge> BAN_VIOLATION_THRESHOLD
           then (Some ban_reason, st\<lparr>banned_until := now + BAN_SECONDS, consecutive_violations := 0\<rparr>)
           else (Some exceeded_reason, st))
        else (None, st\<lparr>consecutive_violations := 0, window := window st @ [now]\<rparr>))"

definition rate_prune :: "time \<Rightarrow> (bytes \<rightharpoonup> sender_state) \<Rightarrow> (bytes \<rightharpoonup> sender_state)" where
  "rate_prune now m = (\<lambda>e. case m e of None \<Rightarrow> None
     | Some st \<Rightarrow> if now - last_seen st > IDLE_EXPIRY_SECONDS \<and> now \<ge> banned_until st then None else Some st)"

text \<open>The input of a check: its clock reading and the message's ephemeral identifier.\<close>

definition rate_check :: "time \<times> bytes \<Rightarrow> limiter \<Rightarrow> reason res \<times> limiter" where
  "rate_check req s =
     (case req of (now, eid) \<Rightarrow>
      let n = checks s + 1;
          m = (if n mod PRUNE_INTERVAL_CHECKS = 0 then rate_prune now (senders s) else senders s);
          st = (case m eid of None \<Rightarrow> new_sender | Some st \<Rightarrow> st) in
      case sender_step now st of (r, st') \<Rightarrow>
        (Inr r, s\<lparr>senders := m(eid \<mapsto> st'), checks := n\<rparr>))"

section \<open>Invariant\<close>

text \<open>
  One sender at clock \<open>now\<close>: at most ten accepted times, in order, none after the last check;
  fewer than three violations pending; and a ban ends within sixty seconds.
\<close>

definition sender_inv :: "time \<Rightarrow> sender_state \<Rightarrow> bool" where
  "sender_inv now st \<longleftrightarrow>
     length (window st) \<le> MAX_MESSAGES_PER_WINDOW \<and> sorted (window st) \<and>
     (\<forall>t \<in> set (window st). t \<le> last_seen st) \<and> last_seen st \<le> now \<and>
     consecutive_violations st < BAN_VIOLATION_THRESHOLD \<and>
     banned_until st \<le> now + BAN_SECONDS"

lemma sender_inv_new: "0 \<le> now \<Longrightarrow> sender_inv now new_sender"
  by (simp add: sender_inv_def new_sender_def)

lemma sender_inv_mono: "sender_inv now st \<Longrightarrow> now \<le> now' \<Longrightarrow> sender_inv now' st"
  by (auto simp: sender_inv_def)

lemma sorted_dropWhile: "sorted xs \<Longrightarrow> sorted (dropWhile P xs)"
  by (induction xs) auto

lemma sender_step_inv:
  assumes "sender_inv now0 st" "now0 \<le> now"
  shows "sender_inv now (snd (sender_step now st))"
proof -
  let ?w = "dropWhile (\<lambda>t. 10 < now - t) (window st)"
  have "length ?w \<le> 10" using assms(1) length_dropWhile_le [of _ "window st"] le_trans
    by (fastforce simp: sender_inv_def)
  moreover have "sorted ?w" using assms(1) by (simp add: sender_inv_def sorted_dropWhile)
  moreover have "\<forall>t \<in> set ?w. t \<le> now"
    using assms set_dropWhileD by (fastforce simp: sender_inv_def)
  moreover have "\<forall>t \<in> set (window st). t \<le> now"
    using assms by (fastforce simp: sender_inv_def)
  ultimately show ?thesis
    using assms by (auto simp: sender_inv_def sender_step_def Let_def sorted_append)
qed

text \<open>The whole limiter, at a clock no later than \<open>now\<close>.\<close>

definition rate_inv :: "limiter \<Rightarrow> bool" where
  "rate_inv s \<longleftrightarrow>
     (\<forall>e st. senders s e = Some st \<longrightarrow>
        length (window st) \<le> MAX_MESSAGES_PER_WINDOW \<and> consecutive_violations st < BAN_VIOLATION_THRESHOLD)"

lemma new_limiter_inv: "rate_inv new_limiter"
  by (simp add: rate_inv_def new_limiter_def)

lemma sender_step_bounds:
  assumes "length (window st) \<le> MAX_MESSAGES_PER_WINDOW" "consecutive_violations st < BAN_VIOLATION_THRESHOLD"
  shows "length (window (snd (sender_step now st))) \<le> MAX_MESSAGES_PER_WINDOW \<and>
     consecutive_violations (snd (sender_step now st)) < BAN_VIOLATION_THRESHOLD"
proof -
  have "length (dropWhile (\<lambda>t. 10 < now - t) (window st)) \<le> 10"
    using assms(1) length_dropWhile_le le_trans by fastforce
  with assms show ?thesis by (auto simp: sender_step_def Let_def)
qed

lemma rate_prune_SomeD: "rate_prune now m e = Some st \<Longrightarrow> m e = Some st"
  by (auto simp: rate_prune_def split: option.splits if_splits)

interpretation rate: gate rate_check rate_inv
proof
  fix s :: limiter and req :: "time \<times> bytes"
  assume inv: "rate_inv s"
  obtain now eid where req: "req = (now, eid)" by (cases req)
  define m where "m = (if (checks s + 1) mod PRUNE_INTERVAL_CHECKS = 0 then rate_prune now (senders s) else senders s)"
  define st where "st = (case m eid of None \<Rightarrow> new_sender | Some st \<Rightarrow> st)"
  have m: "senders s e = Some x" if "m e = Some x" for e x
    using that rate_prune_SomeD by (auto simp: m_def split: if_splits)
  have c: "rate_check req s = (Inr (fst (sender_step now st)),
      s\<lparr>senders := m(eid \<mapsto> snd (sender_step now st)), checks := checks s + 1\<rparr>)"
    by (simp add: req rate_check_def m_def st_def Let_def split: prod.splits)
  have "length (window st) \<le> MAX_MESSAGES_PER_WINDOW \<and> consecutive_violations st < BAN_VIOLATION_THRESHOLD"
    using inv m by (cases "m eid") (auto simp: st_def rate_inv_def new_sender_def)
  from sender_step_bounds [of st now] this inv m
  show "rate_inv (snd (rate_check req s))"
    unfolding c by (auto simp: rate_inv_def)
  show "returns (fst (rate_check req s))" unfolding c by simp
qed

section \<open>Pruning is invisible, and senders do not disturb each other\<close>

text \<open>The reference: one sender's requests alone, or all senders without housekeeping.\<close>

definition sender_check :: "time \<Rightarrow> sender_state \<Rightarrow> reason res \<times> sender_state" where
  "sender_check now st = (case sender_step now st of (r, st') \<Rightarrow> (Inr r, st'))"

definition ref_check :: "time \<times> bytes \<Rightarrow> (bytes \<Rightarrow> sender_state) \<Rightarrow> reason res \<times> (bytes \<Rightarrow> sender_state)" where
  "ref_check req f =
     (case req of (now, eid) \<Rightarrow> case sender_check now (f eid) of (r, st) \<Rightarrow> (r, f(eid := st)))"

lemma sender_check_simps [simp]:
  "fst (sender_check now st) = Inr (fst (sender_step now st))"
  "snd (sender_check now st) = snd (sender_step now st)"
  by (simp_all add: sender_check_def split: prod.splits)

lemma ref_check_simps [simp]:
  "fst (ref_check (now, e) f) = Inr (fst (sender_step now (f e)))"
  "snd (ref_check (now, e) f) = f(e := snd (sender_step now (f e)))"
  by (simp_all add: ref_check_def sender_check_def split: prod.splits)

text \<open>
  Two states of a sender that no later check can tell apart: the ban is the same or over, and
  the windows agree or have both run out.
\<close>

definition obs_eq :: "time \<Rightarrow> sender_state \<Rightarrow> sender_state \<Rightarrow> bool" where
  "obs_eq now a b \<longleftrightarrow>
     (banned_until a = banned_until b \<or> banned_until a \<le> now \<and> banned_until b \<le> now) \<and>
     (window a = window b \<and> consecutive_violations a = consecutive_violations b \<or>
      (\<forall>t \<in> set (window a) \<union> set (window b). now - t > WINDOW_SECONDS))"

lemma obs_eq_refl [simp]: "obs_eq now a a"
  by (simp add: obs_eq_def)

lemma obs_eq_mono: "obs_eq now a b \<Longrightarrow> now \<le> now' \<Longrightarrow> obs_eq now' a b"
  unfolding obs_eq_def by (elim conjE disjE) (force)+

lemma obs_eq_step:
  assumes "obs_eq now a b"
  shows "fst (sender_step now a) = fst (sender_step now b)"
    "obs_eq now (snd (sender_step now a)) (snd (sender_step now b))"
proof -
  have ban: "now < banned_until a \<longleftrightarrow> now < banned_until b"
    using assms by (auto simp: obs_eq_def)
  have win: "window a = window b \<and> consecutive_violations a = consecutive_violations b \<or>
      dropWhile (\<lambda>t. 10 < now - t) (window a) = [] \<and> dropWhile (\<lambda>t. 10 < now - t) (window b) = []"
    using assms by (auto simp: obs_eq_def)
  note simps = sender_step_def obs_eq_def Let_def
  from win have "fst (sender_step now a) = fst (sender_step now b) \<and>
      obs_eq now (snd (sender_step now a)) (snd (sender_step now b))"
  proof (elim disjE conjE)
    assume "window a = window b" "consecutive_violations a = consecutive_violations b"
    with ban assms show ?thesis by (auto simp: simps)
  next
    assume a: "dropWhile (\<lambda>t. 10 < now - t) (window a) = []"
      and b: "dropWhile (\<lambda>t. 10 < now - t) (window b) = []"
    with ban assms show ?thesis
      by (auto simp: simps simp del: dropWhile_eq_Nil_conv)
  qed
  then show "fst (sender_step now a) = fst (sender_step now b)"
    "obs_eq now (snd (sender_step now a)) (snd (sender_step now b))" by auto
qed

definition lookup :: "(bytes \<rightharpoonup> sender_state) \<Rightarrow> bytes \<Rightarrow> sender_state" where
  "lookup m e = (case m e of None \<Rightarrow> new_sender | Some st \<Rightarrow> st)"

definition sim :: "time \<Rightarrow> (bytes \<rightharpoonup> sender_state) \<Rightarrow> (bytes \<Rightarrow> sender_state) \<Rightarrow> bool" where
  "sim now m f \<longleftrightarrow> 0 \<le> now \<and> (\<forall>e. obs_eq now (lookup m e) (f e)) \<and>
     (\<forall>e st. m e = Some st \<longrightarrow> (\<forall>t \<in> set (window st). t \<le> last_seen st) \<and> last_seen st \<le> now)"

lemma sim_mono:
  assumes "sim now m f" "now \<le> now'"
  shows "sim now' m f"
  using assms obs_eq_mono [OF _ assms(2)] unfolding sim_def by (meson order_trans)

lemma sim_prune:
  assumes "sim now m f"
  shows "sim now (rate_prune now m) f"
proof -
  have "obs_eq now (lookup (rate_prune now m) e) (f e)" for e
  proof (cases "rate_prune now m e = m e")
    case True
    then show ?thesis using assms by (simp add: sim_def lookup_def)
  next
    case False
    then obtain st where st: "m e = Some st" "now - last_seen st > 600" "banned_until st \<le> now"
      "rate_prune now m e = None"
      by (auto simp: rate_prune_def split: option.splits if_splits)
    have "\<forall>t \<in> set (window st). t \<le> last_seen st" using assms st(1) by (auto simp: sim_def)
    with st(2) have "\<forall>t \<in> set (window st). now - t > 10" by fastforce
    moreover have "obs_eq now st (f e)" using assms st(1) by (auto simp: sim_def lookup_def dest: spec [of _ e])
    moreover have "0 \<le> now" using assms by (simp add: sim_def)
    ultimately show ?thesis
      using st(3,4) by (auto simp: lookup_def obs_eq_def new_sender_def)
  qed
  with assms show ?thesis by (auto simp: sim_def dest: rate_prune_SomeD)
qed

lemma sender_step_last_seen [simp]: "last_seen (snd (sender_step now st)) = now"
  by (simp add: sender_step_def Let_def)

lemma sender_step_window:
  "t \<in> set (window (snd (sender_step now st))) \<Longrightarrow> t = now \<or> t \<in> set (window st)"
  by (auto simp: sender_step_def Let_def split: if_splits dest: set_dropWhileD)

lemma sim_step:
  assumes "sim now0 (senders s) f" "now0 \<le> now"
  shows "fst (rate_check (now, e) s) = fst (ref_check (now, e) f)"
    "sim now (senders (snd (rate_check (now, e) s))) (snd (ref_check (now, e) f))"
proof -
  define m where "m = (if (checks s + 1) mod PRUNE_INTERVAL_CHECKS = 0 then rate_prune now (senders s) else senders s)"
  have m: "sim now m f" using sim_mono [OF assms] sim_prune by (simp add: m_def)
  have c: "rate_check (now, e) s = (Inr (fst (sender_step now (lookup m e))),
      s\<lparr>senders := m(e \<mapsto> snd (sender_step now (lookup m e))), checks := checks s + 1\<rparr>)"
    by (simp add: rate_check_def m_def lookup_def Let_def split: prod.splits)
  have oe: "obs_eq now (lookup m e) (f e)" using m by (simp add: sim_def)
  show "fst (rate_check (now, e) s) = fst (ref_check (now, e) f)"
    using obs_eq_step(1) [OF oe] by (simp add: c)
  have w: "t \<le> now" if "t \<in> set (window (lookup m e))" for t
    using that m by (cases "m e") (fastforce simp: sim_def lookup_def new_sender_def)+
  show "sim now (senders (snd (rate_check (now, e) s))) (snd (ref_check (now, e) f))"
    using m obs_eq_step(2) [OF oe] w unfolding c
    by (auto simp: sim_def lookup_def dest: sender_step_window)
qed

text \<open>Readings of a clock that never goes back, from \<open>t\<close> on.\<close>

definition clocked :: "time \<Rightarrow> (time \<times> 'a) list \<Rightarrow> bool" where
  "clocked t reqs \<longleftrightarrow> sorted (t # map fst reqs)"

lemma clocked_simps [simp]:
  "clocked t []"
  "clocked t (r # reqs) \<longleftrightarrow> t \<le> fst r \<and> clocked (fst r) reqs"
  by (auto simp: clocked_def)

lemma rate_ref_run:
  assumes "sim t (senders s) f" "clocked t reqs"
  shows "fst (run_checks rate_check reqs s) = fst (run_checks ref_check reqs f)"
  using assms
proof (induction reqs arbitrary: t s f)
  case (Cons r reqs)
  obtain now e where r: "r = (now, e)" by (cases r)
  with Cons.prems have "t \<le> now" "clocked now reqs" by auto
  from Cons.IH [OF sim_step(2) [OF Cons.prems(1) \<open>t \<le> now\<close>, of e] \<open>clocked now reqs\<close>]
    sim_step(1) [OF Cons.prems(1) \<open>t \<le> now\<close>, of e] r
  show ?case unfolding run_checks_Cons_simps r by (simp only:)
qed simp

lemma sim_new: "sim 0 (senders new_limiter) (\<lambda>_. new_sender)"
  by (simp add: sim_def new_limiter_def lookup_def)

text \<open>The requests of one sender, and the answers it got.\<close>

definition times_of :: "bytes \<Rightarrow> (time \<times> bytes) list \<Rightarrow> time list" where
  "times_of e reqs = map fst (filter (\<lambda>q. snd q = e) reqs)"

definition answers_to :: "bytes \<Rightarrow> (time \<times> bytes) list \<Rightarrow> reason res list \<Rightarrow> reason res list" where
  "answers_to e reqs rs = map snd (filter (\<lambda>(q, r). snd q = e) (zip reqs rs))"

lemma ref_sender_run:
  "answers_to e reqs (fst (run_checks ref_check reqs f)) =
   fst (run_checks sender_check (times_of e reqs) (f e))"
proof (induction reqs arbitrary: f)
  case (Cons r reqs)
  obtain now e' where "r = (now, e')" by (cases r)
  with Cons show ?case by (auto simp: answers_to_def times_of_def)
qed (simp add: answers_to_def times_of_def)

lemma rate_ref_sender:
  assumes "clocked 0 reqs"
  shows "answers_to e reqs (fst (run_checks rate_check reqs new_limiter)) =
     fst (run_checks sender_check (times_of e reqs) new_sender)"
  using rate_ref_run [OF sim_new assms] ref_sender_run [of e reqs "\<lambda>_. new_sender"] by simp

section \<open>The sliding window and the ban, on the trace\<close>

text \<open>The times a sender was let through, and the times it was banned.\<close>

definition passed :: "time list \<Rightarrow> reason res list \<Rightarrow> time list" where
  "passed ts rs = map fst (filter (\<lambda>(t, r). r = Inr None) (zip ts rs))"

definition bans :: "time list \<Rightarrow> reason res list \<Rightarrow> time list" where
  "bans ts rs = map fst (filter (\<lambda>(t, r). r = Inr (Some ban_reason)) (zip ts rs))"

definition in_span :: "time \<Rightarrow> time list \<Rightarrow> nat" where
  "in_span a ts = length (filter (\<lambda>t. a \<le> t \<and> t \<le> a + WINDOW_SECONDS) ts)"

lemma passed_snoc:
  "length ts = length rs \<Longrightarrow> passed (ts @ [t]) (rs @ [r]) = passed ts rs @ (if r = Inr None then [t] else [])"
  by (simp add: passed_def)

lemma bans_snoc:
  "length ts = length rs \<Longrightarrow>
   bans (ts @ [t]) (rs @ [r]) = bans ts rs @ (if r = Inr (Some ban_reason) then [t] else [])"
  by (simp add: bans_def)

lemma reasons_distinct [simp]:
  "ban_reason \<noteq> banned_reason" "ban_reason \<noteq> exceeded_reason" "banned_reason \<noteq> exceeded_reason"
  "banned_reason \<noteq> ban_reason" "exceeded_reason \<noteq> ban_reason" "exceeded_reason \<noteq> banned_reason"
  by (simp_all add: rate_reasons show_nat.simps)

text \<open>
  How a sender's state records its trace: the window is the tail of the times that passed, all
  that left it are out of every later window, and the ban deadline comes from the last ban.
\<close>

definition records :: "time list \<Rightarrow> reason res list \<Rightarrow> sender_state \<Rightarrow> bool" where
  "records ts rs st \<longleftrightarrow>
     (\<exists>old. passed ts rs = old @ window st \<and> (\<forall>t \<in> set old. \<exists>u \<in> set ts. u - t > WINDOW_SECONDS)) \<and>
     set (passed ts rs) \<subseteq> set ts \<and> sorted (window st) \<and>
     (\<forall>a. in_span a (passed ts rs) \<le> MAX_MESSAGES_PER_WINDOW) \<and>
     banned_until st = (if bans ts rs = [] then 0 else last (bans ts rs) + BAN_SECONDS) \<and>
     set (bans ts rs) \<subseteq> set ts \<and> sorted (bans ts rs)"

lemma takeWhile_dropped: "t \<in> set (takeWhile (\<lambda>t. w < now - t) xs) \<Longrightarrow> w < now - (t :: time)"
  by (auto dest: set_takeWhileD)

lemma in_span_append: "in_span a (xs @ ys) = in_span a xs + in_span a ys"
  by (simp add: in_span_def)

lemma in_span_le: "in_span a xs \<le> length xs"
  by (simp add: in_span_def)

lemma in_span_zero: "(\<And>t. t \<in> set xs \<Longrightarrow> t < a) \<Longrightarrow> in_span a xs = 0"
  by (force simp: in_span_def filter_empty_conv)

lemma records_step:
  assumes rec: "records ts rs st" and len: "length ts = length rs"
    and late: "\<forall>u \<in> set ts. u \<le> now"
  shows "records (ts @ [now]) (rs @ [fst (sender_check now st)]) (snd (sender_check now st))"
proof -
  obtain old where old: "passed ts rs = old @ window st" "\<forall>t \<in> set old. \<exists>u \<in> set ts. u - t > WINDOW_SECONDS"
    using rec by (auto simp: records_def)
  let ?P = "\<lambda>t. 10 < now - t"
  let ?gone = "old @ takeWhile ?P (window st)" and ?w = "dropWhile ?P (window st)"
  have split: "passed ts rs = ?gone @ ?w" using old(1) by simp
  have gone: "\<forall>t \<in> set ?gone. now - t > 10"
    using old(2) late takeWhile_dropped [of _ 10 now "window st"] by fastforce
  have w_sorted: "sorted ?w" using rec by (simp add: records_def sorted_dropWhile)
  have w_late: "\<forall>t \<in> set ?w. t \<le> now"
    using rec late old(1) by (auto simp: records_def dest!: set_dropWhileD)
  have bans_late: "\<forall>t \<in> set (bans ts rs). t \<le> now" using rec late by (auto simp: records_def)
  have span: "in_span a (passed ts rs @ [now]) \<le> 10" if "length ?w < 10" for a
  proof (cases "a \<le> now \<and> now \<le> a + 10")
    case True
    then have "in_span a ?gone = 0" using gone by (intro in_span_zero) fastforce
    then show ?thesis
      using that in_span_le [of a "?w @ [now]"] unfolding split in_span_append by simp
  next
    case False
    then have "in_span a [now] = 0" by (simp add: in_span_def)
    then show ?thesis using rec by (simp add: in_span_append records_def)
  qed
  note defs = records_def sender_step_def Let_def passed_snoc [OF len] bans_snoc [OF len]
  consider "now < banned_until st"
    | "\<not> now < banned_until st" "10 \<le> length ?w"
    | "\<not> now < banned_until st" "length ?w < 10" by linarith
  then show ?thesis
  proof cases
    case 1
    with rec old show ?thesis by (auto simp: defs)
  next
    case 2
    have "\<exists>old. passed ts rs = old @ ?w \<and> (\<forall>t \<in> set old. \<exists>u \<in> set (ts @ [now]). u - t > 10)"
      using split gone by (intro exI [of _ ?gone]) auto
    with 2 rec w_sorted bans_late show ?thesis by (auto simp: defs sorted_append)
  next
    case 3
    have "\<exists>old. passed ts rs @ [now] = old @ ?w @ [now] \<and> (\<forall>t \<in> set old. \<exists>u \<in> set (ts @ [now]). u - t > 10)"
      using split gone by (intro exI [of _ ?gone]) auto
    with 3 rec w_sorted w_late span show ?thesis by (auto simp: defs sorted_append)
  qed
qed

lemma sender_records:
  assumes "sorted ts"
  shows "records ts (fst (run_checks sender_check ts new_sender)) (snd (run_checks sender_check ts new_sender))"
  using assms
proof (induction ts rule: rev_induct)
  case Nil
  then show ?case by (simp add: records_def passed_def bans_def new_sender_def in_span_def)
next
  case (snoc now ts)
  then show ?case
    by (simp add: run_checks_snoc sorted_append records_step del: sender_check_simps)
qed

lemma sorted_le_last: "b \<in> set xs \<Longrightarrow> sorted xs \<Longrightarrow> b \<le> last xs"
  by (cases xs rule: rev_cases) (auto simp: sorted_append)

text \<open>When a sender gets through: no ban is running and fewer than ten passed in the window.\<close>

lemma sender_passes_iff:
  assumes "sorted (ts @ [now])" "0 \<le> now"
    and rs: "rs = fst (run_checks sender_check ts new_sender)"
    and st: "st = snd (run_checks sender_check ts new_sender)"
  shows "fst (sender_check now st) = Inr None \<longleftrightarrow>
     (\<forall>b \<in> set (bans ts rs). b + BAN_SECONDS \<le> now) \<and>
     in_span (now - WINDOW_SECONDS) (passed ts rs) < MAX_MESSAGES_PER_WINDOW"
proof -
  have ts: "sorted ts" "\<forall>u \<in> set ts. u \<le> now" using assms(1) by (auto simp: sorted_append)
  have rec: "records ts rs st" using sender_records [OF ts(1)] rs st by simp
  then obtain old where old: "passed ts rs = old @ window st"
    "\<forall>t \<in> set old. \<exists>u \<in> set ts. u - t > WINDOW_SECONDS" by (auto simp: records_def)
  have sub: "set (passed ts rs) \<subseteq> set ts" and srt: "sorted (window st)" "sorted (bans ts rs)"
    and ban: "banned_until st = (if bans ts rs = [] then 0 else last (bans ts rs) + BAN_SECONDS)"
    using rec by (auto simp: records_def)
  have "in_span (now - 10) old = 0" using old(2) ts(2) by (intro in_span_zero) fastforce
  moreover have "in_span (now - 10) (window st) = length (dropWhile (\<lambda>t. 10 < now - t) (window st))"
  proof -
    have "\<forall>t \<in> set (window st). t \<le> now" using sub ts(2) old(1) by auto
    then have "filter (\<lambda>t. now - 10 \<le> t \<and> t \<le> now - 10 + 10) (window st)
        = filter (\<lambda>t. now - t \<le> 10) (window st)"
      by (intro filter_cong) auto
    then show ?thesis by (simp add: in_span_def sorted_dropWhile_filter [OF srt(1)])
  qed
  ultimately have n: "in_span (now - 10) (passed ts rs) = length (dropWhile (\<lambda>t. 10 < now - t) (window st))"
    by (simp add: old(1) in_span_append)
  have "\<not> now < banned_until st \<longleftrightarrow> (\<forall>b \<in> set (bans ts rs). b + 60 \<le> now)"
  proof (cases "bans ts rs = []")
    case False
    have "b \<le> last (bans ts rs)" if "b \<in> set (bans ts rs)" for b
      using that srt(2) by (rule sorted_le_last)
    moreover have "\<not> now < banned_until st \<longleftrightarrow> last (bans ts rs) + 60 \<le> now"
      using False ban by auto
    ultimately show ?thesis using last_in_set [OF False] by fastforce
  qed (use ban assms(2) in simp)
  with n show ?thesis by (auto simp: sender_step_def Let_def)
qed

section \<open>Ban and recovery\<close>

lemma sender_banned_run:
  assumes "\<forall>u \<in> set us. u < banned_until st"
  shows "fst (run_checks sender_check us st) = replicate (length us) (Inr (Some banned_reason)) \<and>
     (\<exists>l. snd (run_checks sender_check us st) = st\<lparr>last_seen := l\<rparr>)"
  using assms
proof (induction us arbitrary: st)
  case Nil
  then show ?case by (auto intro: exI [of _ "last_seen st"])
next
  case (Cons u us)
  have s: "sender_step u st = (Some banned_reason, st\<lparr>last_seen := u\<rparr>)"
    using Cons.prems by (simp add: sender_step_def)
  show ?case using Cons.IH [of "st\<lparr>last_seen := u\<rparr>"] Cons.prems by (simp add: s)
qed

text \<open>
  A ban lasts exactly sixty seconds: everything before its end is refused, the first message
  after it passes.
\<close>

lemma sender_ban_recover:
  assumes "sender_inv t0 st" "t0 \<le> t" "fst (sender_check t st) = Inr (Some ban_reason)"
    and "\<forall>u \<in> set us. u < t + BAN_SECONDS" "t + BAN_SECONDS \<le> now"
  shows "fst (run_checks sender_check (us @ [now]) (snd (sender_check t st))) =
     replicate (length us) (Inr (Some banned_reason)) @ [Inr None]"
proof -
  let ?st = "snd (sender_check t st)"
  have ban: "banned_until ?st = t + 60" "\<forall>x \<in> set (window ?st). x \<le> t"
    using assms(1-3) by (auto simp: sender_step_def Let_def sender_inv_def split: if_splits dest!: set_dropWhileD)
  from sender_banned_run [of us ?st] assms(4) ban(1) obtain l where
    r: "fst (run_checks sender_check us ?st) = replicate (length us) (Inr (Some banned_reason))"
      "snd (run_checks sender_check us ?st) = ?st\<lparr>last_seen := l\<rparr>" by auto
  have "dropWhile (\<lambda>x. 10 < now - x) (window ?st) = []"
    using ban(2) assms(5) by fastforce
  then have "fst (sender_step now (?st\<lparr>last_seen := l\<rparr>)) = None"
    using ban(1) assms(5) by (simp add: sender_step_def Let_def del: dropWhile_eq_Nil_conv)
  with r show ?thesis by (simp add: run_checks_snoc)
qed

section \<open>The same statements for the whole limiter\<close>

lemma answers_zip:
  "length rs = length reqs \<Longrightarrow>
   zip (times_of e reqs) (answers_to e reqs rs) = map (\<lambda>(q, r). (fst q, r)) (filter (\<lambda>(q, r). snd q = e) (zip reqs rs))"
proof (induction reqs arbitrary: rs)
  case (Cons q reqs)
  then obtain r rs' where "rs = r # rs'" "length rs' = length reqs" by (cases rs) auto
  with Cons.IH [of rs'] show ?case by (auto simp: times_of_def answers_to_def)
qed (simp add: times_of_def answers_to_def)

lemma sorted_times_of: "clocked t reqs \<Longrightarrow> sorted (times_of e reqs)"
  by (auto simp: clocked_def times_of_def sorted_map intro: sorted_wrt_filter)

text \<open>The clock readings at which sender \<open>e\<close> was let through.\<close>

definition passed_by :: "bytes \<Rightarrow> (time \<times> bytes) list \<Rightarrow> reason res list \<Rightarrow> time list" where
  "passed_by e reqs rs = map (fst \<circ> fst) (filter (\<lambda>(q, r). snd q = e \<and> r = Inr None) (zip reqs rs))"

lemma passed_by_passed:
  "length rs = length reqs \<Longrightarrow> passed_by e reqs rs = passed (times_of e reqs) (answers_to e reqs rs)"
  unfolding passed_def by (simp add: answers_zip passed_by_def filter_map o_def split_def conj_commute)

lemma answers_to_append:
  "length rs = length reqs \<Longrightarrow>
   answers_to e (reqs @ xs) (rs @ ys) = answers_to e reqs rs @ answers_to e xs ys"
  by (simp add: answers_to_def)

lemma answers_to_single [simp]: "answers_to e [(t, e')] [r] = (if e' = e then [r] else [])"
  by (simp add: answers_to_def)

lemma times_of_simps [simp]:
  "times_of e [] = []"
  "times_of e (xs @ ys) = times_of e xs @ times_of e ys"
  "times_of e ((t, e') # xs) = (if e' = e then t # times_of e xs else times_of e xs)"
  by (simp_all add: times_of_def)

text \<open>The last answer of a sequence is the sender's own last answer.\<close>

lemma rate_last:
  assumes "clocked 0 (reqs @ [(now, e)])"
  shows "fst (rate_check (now, e) (snd (run_checks rate_check reqs new_limiter))) =
    fst (sender_check now (snd (run_checks sender_check (times_of e reqs) new_sender)))"
proof -
  have c: "clocked 0 reqs" using assms by (simp add: clocked_def sorted_append)
  from rate_ref_sender [OF assms, of e] rate_ref_sender [OF c, of e] show ?thesis
    by (simp add: run_checks_snoc answers_to_append del: sender_check_simps)
qed

lemma clocked_append: "clocked t (xs @ ys) \<Longrightarrow> clocked t xs"
  by (simp add: clocked_def sorted_append)

text \<open>The clock readings at which sender \<open>e\<close> got a ban.\<close>

definition bans_of :: "bytes \<Rightarrow> (time \<times> bytes) list \<Rightarrow> reason res list \<Rightarrow> time list" where
  "bans_of e reqs rs = map (fst \<circ> fst) (filter (\<lambda>(q, r). snd q = e \<and> r = Inr (Some ban_reason)) (zip reqs rs))"

lemma bans_of_bans:
  "length rs = length reqs \<Longrightarrow> bans_of e reqs rs = bans (times_of e reqs) (answers_to e reqs rs)"
  unfolding bans_def by (simp add: answers_zip bans_of_def filter_map o_def split_def conj_commute)

section \<open>The limiter as its callers see it\<close>

text \<open>
  C19: The sliding window holds: whatever the senders send, in no span of ten seconds does the
  limiter let through more than ten messages of one sender.
\<close>

theorem limiter_window_bound:
  assumes "clocked 0 reqs"
  shows "in_span a (passed_by e reqs (fst (run_checks rate_check reqs new_limiter))) \<le> MAX_MESSAGES_PER_WINDOW"
  using sender_records [OF sorted_times_of [OF assms], of e] rate_ref_sender [OF assms, of e]
  by (simp add: passed_by_passed records_def)

theorem limiter_window_bound_witness:
  "in_span 0 (passed_by [1] [(1, [1]), (2, [2]), (3, [1])]
     (fst (run_checks rate_check [(1, [1]), (2, [2]), (3, [1])] new_limiter))) \<le> 10"
  using limiter_window_bound [of "[(1, [1]), (2, [2]), (3, [1])]" 0 "[1]"] by simp

text \<open>
  C20: Senders are isolated and housekeeping is invisible: the answers a sender gets from the
  shared, pruned limiter are those it would get from a limiter of its own that forgets nothing.
\<close>

theorem limiter_is_per_sender:
  assumes "clocked 0 reqs"
  shows "answers_to e reqs (fst (run_checks rate_check reqs new_limiter)) =
     fst (run_checks sender_check (times_of e reqs) new_sender)"
  by (rule rate_ref_sender [OF assms])

theorem limiter_is_per_sender_witness:
  "answers_to [1] [(1, [1]), (2, [2]), (3, [1])] (fst (run_checks rate_check [(1, [1]), (2, [2]), (3, [1])] new_limiter))
   = fst (run_checks sender_check [1, 3] new_sender)"
  using limiter_is_per_sender [of "[(1, [1]), (2, [2]), (3, [1])]" "[1]"] by simp

text \<open>
  When a message passes: exactly when every ban of its sender is sixty seconds old and
  fewer than ten of its messages passed in the last ten seconds.
\<close>

lemma limiter_passes_iff:
  assumes "clocked 0 (reqs @ [(now, e)])" and rs: "rs = fst (run_checks rate_check reqs new_limiter)"
  shows "fst (rate_check (now, e) (snd (run_checks rate_check reqs new_limiter))) = Inr None \<longleftrightarrow>
     (\<forall>b \<in> set (bans_of e reqs rs). b + BAN_SECONDS \<le> now) \<and>
     in_span (now - WINDOW_SECONDS) (passed_by e reqs rs) < MAX_MESSAGES_PER_WINDOW"
proof -
  have c: "clocked 0 reqs" by (rule clocked_append [OF assms(1)])
  have ts: "sorted (times_of e reqs @ [now])" using sorted_times_of [OF assms(1), of e] by simp
  have "0 \<le> now" using assms(1) by (simp add: clocked_def)
  from sender_passes_iff [OF ts this refl refl] show ?thesis
    unfolding rate_last [OF assms(1)] by (simp add: passed_by_passed bans_of_bans rs rate_ref_sender [OF c])
qed

lemma limiter_passes_iff_witness:
  "fst (rate_check (3, [1]) (snd (run_checks rate_check [(1, [1]), (2, [2])] new_limiter))) = Inr None \<longleftrightarrow>
     list_all (\<lambda>b. b + BAN_SECONDS \<le> 3)
        (bans_of [1] [(1, [1]), (2, [2])] (fst (run_checks rate_check [(1, [1]), (2, [2])] new_limiter))) \<and>
     in_span (- 7) (passed_by [1] [(1, [1]), (2, [2])] (fst (run_checks rate_check [(1, [1]), (2, [2])] new_limiter))) < 10"
  using limiter_passes_iff [OF _ refl, of "[(1, [1]), (2, [2])]" 3 "[1]"] by (simp add: list_all_iff)

text \<open>
  A ban lasts sixty seconds and then ends: after the answer that bans a sender, each of its
  messages in the next sixty seconds is refused as banned, whatever the others send, and the
  first one after that passes.
\<close>

lemma limiter_ban_and_recovery:
  assumes "clocked 0 (before @ (t, e) # between @ [(now, e)])"
    and s: "s = snd (run_checks rate_check before new_limiter)"
    and "fst (rate_check (t, e) s) = Inr (Some ban_reason)"
    and s': "s' = snd (rate_check (t, e) s)"
    and "\<forall>u \<in> set (times_of e between). u < t + BAN_SECONDS" "t + BAN_SECONDS \<le> now"
  shows "(\<forall>r \<in> set (answers_to e between (fst (run_checks rate_check between s'))). r = Inr (Some banned_reason)) \<and>
     fst (rate_check (now, e) (snd (run_checks rate_check between s'))) = Inr None"
proof -
  let ?st = "snd (run_checks sender_check (times_of e before) new_sender)"
  have c: "clocked 0 (before @ [(t, e)])" "clocked 0 before"
    using assms(1) by (auto simp: clocked_def sorted_append)
  have all: "answers_to e (before @ (t, e) # between @ [(now, e)])
      (fst (run_checks rate_check (before @ (t, e) # between @ [(now, e)]) new_limiter)) =
     fst (run_checks sender_check (times_of e before @ t # times_of e between @ [now]) new_sender)"
    using rate_ref_sender [OF assms(1), of e] by simp
  have ans: "answers_to e before (fst (run_checks rate_check before new_limiter)) =
      fst (run_checks sender_check (times_of e before) new_sender)" by (rule rate_ref_sender [OF c(2)])
  have ban: "fst (sender_check t ?st) = Inr (Some ban_reason)"
    using rate_last [OF c(1)] assms(3) s by simp
  have inv: "sender_inv t ?st"
  proof -
    have "sender_inv t (snd (run_checks sender_check ts st))"
      if "sender_inv t0 st" "t0 \<le> t" "sorted (t0 # ts)" "\<forall>x \<in> set ts. x \<le> t" for ts t0 st
      using that
    proof (induction ts arbitrary: st t0)
      case (Cons u ts)
      from Cons.IH [OF sender_step_inv [OF Cons.prems(1), of u]] Cons.prems show ?case by simp
    qed (simp add: sender_inv_mono)
    note run = this
    have b: "\<forall>x \<in> set (times_of e before). 0 \<le> x \<and> x \<le> t" "0 \<le> t"
      using c(1) by (fastforce simp: clocked_def sorted_append times_of_def)+
    have "sorted (0 # times_of e before)"
      using sorted_times_of [OF c(1), of e] b by (simp add: sorted_append)
    with run [OF sender_inv_new, of 0 "times_of e before"] b show ?thesis by simp
  qed
  have rec: "fst (run_checks sender_check (times_of e between @ [now]) (snd (sender_check t ?st))) =
      replicate (length (times_of e between)) (Inr (Some banned_reason)) @ [Inr None]"
    by (rule sender_ban_recover [OF inv order_refl ban assms(5,6)])
  have "answers_to e between (fst (run_checks rate_check between s')) @
      [fst (rate_check (now, e) (snd (run_checks rate_check between s')))] =
      replicate (length (times_of e between)) (Inr (Some banned_reason)) @ [Inr None]"
    using all ans rec unfolding s' s
    by (simp add: run_checks_append answers_to_append answers_to_def del: sender_check_simps)
  then show ?thesis by simp
qed

lemma limiter_ban_and_recovery_witness:
  "list_all (\<lambda>r. r = Inr (Some banned_reason)) (answers_to [1] [(2, [1]), (3, [2])] (fst (run_checks rate_check [(2, [1]), (3, [2])]
      (snd (rate_check (1, [1]) (snd (run_checks rate_check (replicate 12 (1, [1])) new_limiter))))))) \<and>
   fst (rate_check (61, [1]) (snd (run_checks rate_check [(2, [1]), (3, [2])]
      (snd (rate_check (1, [1]) (snd (run_checks rate_check (replicate 12 (1, [1])) new_limiter))))))) = Inr None"
proof -
  have "(\<forall>r \<in> set (answers_to [1] [(2, [1]), (3, [2])] (fst (run_checks rate_check [(2, [1]), (3, [2])]
      (snd (rate_check (1, [1]) (snd (run_checks rate_check (replicate 12 (1, [1])) new_limiter))))))).
      r = Inr (Some banned_reason)) \<and>
   fst (rate_check (61, [1]) (snd (run_checks rate_check [(2, [1]), (3, [2])]
      (snd (rate_check (1, [1]) (snd (run_checks rate_check (replicate 12 (1, [1])) new_limiter))))))) = Inr None"
  proof (rule limiter_ban_and_recovery [OF _ refl _ refl])
    have twelve: "replicate 12 (1, [1]) = [(1 :: time, [1 :: byte]), (1, [1]), (1, [1]), (1, [1]), (1, [1]), (1, [1]), (1, [1]), (1, [1]), (1, [1]), (1, [1]), (1, [1]), (1, [1])]"
      by (simp add: numeral_eq_Suc)
    show "clocked 0 (replicate 12 (1, [1 :: byte]) @ (1, [1]) # [(2, [1]), (3, [2])] @ [(61, [1])])"
      unfolding twelve by simp
    have "clocked 0 (replicate 12 (1, [1 :: byte]) @ [(1, [1])])" unfolding twelve by simp
    from rate_last [OF this]
    show "fst (rate_check (1, [1]) (snd (run_checks rate_check (replicate 12 (1, [1])) new_limiter))) =
        Inr (Some ban_reason)"
      unfolding twelve by (simp add: sender_step_def new_sender_def)
  qed simp_all
  then show ?thesis unfolding list_all_iff .
qed

end
