(* ===== verification/Base64.thy ===== *)
theory Base64
  imports Prelude
begin

text \<open>
  \<^emph>\<open>base64.urlsafe_b64decode\<close> on a text: ASCII only, \<open>-\<close> and \<open>_\<close> read as \<open>+\<close> and \<open>/\<close>, then the
  non-strict decoder of \<^emph>\<open>binascii\<close>: characters outside the alphabet are skipped, padding ends
  the input once a group is complete, and what is left over is an error. \<open>b64url_encode\<close> is the
  unpadded encoding of JSON Web Tokens, as a reference.
\<close>

section \<open>Texts\<close>

text \<open>\<^emph>\<open>s.encode("ascii")\<close>.\<close>

definition encode_ascii :: "pystr \<Rightarrow> bytes res" where
  "encode_ascii s = (if list_all (\<lambda>c. c < 128) s then Inr (map word_of_nat s) else Inl UnicodeError)"

section \<open>The decoder\<close>

text \<open>The value of a character of the standard alphabet.\<close>

definition b64_val :: "nat \<Rightarrow> nat option" where
  "b64_val c =
     (if 65 \<le> c \<and> c \<le> 90 then Some (c - 65)
      else if 97 \<le> c \<and> c \<le> 122 then Some (c - 71)
      else if 48 \<le> c \<and> c \<le> 57 then Some (c + 4)
      else if c = 43 then Some 62 else if c = 47 then Some 63 else None)"

definition url_char :: "nat \<Rightarrow> nat" where
  "url_char c = (if c = 45 then 43 else if c = 95 then 47 else c)"

text \<open>
  The loop of \<^emph>\<open>binascii.a2b_base64\<close>: \<open>q\<close> is the position in the group of four, \<open>l\<close> the bits left
  over, \<open>p\<close> the padding characters seen since the last data character.
\<close>

fun a2b_loop :: "nat \<Rightarrow> nat \<Rightarrow> nat \<Rightarrow> nat list \<Rightarrow> nat list res" where
  "a2b_loop q l p [] = (if q = 0 then Inr [] else Inl BinasciiError)"
| "a2b_loop q l p (c # cs) =
     (if c = 61 then
        (if q \<ge> 2 then if q + (p + 1) \<ge> 4 then Inr [] else a2b_loop q l (p + 1) cs
         else a2b_loop q l p cs)
      else case b64_val c of
        None \<Rightarrow> a2b_loop q l p cs
      | Some v \<Rightarrow>
          if q = 0 then a2b_loop 1 v 0 cs
          else if q = 1 then res_bind (a2b_loop 2 (v mod 16) 0 cs) (\<lambda>r. Inr ((l * 4 + v div 16) # r))
          else if q = 2 then res_bind (a2b_loop 3 (v mod 4) 0 cs) (\<lambda>r. Inr ((l * 16 + v div 4) # r))
          else res_bind (a2b_loop 0 0 0 cs) (\<lambda>r. Inr ((l * 64 + v) # r)))"

definition urlsafe_b64decode :: "pystr \<Rightarrow> bytes res" where
  "urlsafe_b64decode s =
     (if list_all (\<lambda>c. c < 128) s
      then res_bind (a2b_loop 0 0 0 (map url_char s)) (\<lambda>r. Inr (map word_of_nat r))
      else Inl (ValueError ''string argument should contain only ASCII characters''))"

section \<open>Unpadded encoding\<close>

text \<open>\<^emph>\<open>"=" * (-n % 4)\<close>.\<close>

definition b64_pad :: "nat \<Rightarrow> pystr" where
  "b64_pad n = replicate (nat ((- int n) mod 4)) 61"

definition b64_char :: "nat \<Rightarrow> nat" where
  "b64_char v =
     (if v < 26 then v + 65 else if v < 52 then v + 71 else if v < 62 then v - 4
      else if v = 62 then 45 else 95)"

fun b64_groups :: "nat list \<Rightarrow> nat list" where
  "b64_groups [] = []"
| "b64_groups [a] = [a div 4, a mod 4 * 16]"
| "b64_groups [a, b] = [a div 4, a mod 4 * 16 + b div 16, b mod 16 * 4]"
| "b64_groups (a # b # c # r) =
     a div 4 # (a mod 4 * 16 + b div 16) # (b mod 16 * 4 + c div 64) # c mod 64 # b64_groups r"

definition b64url_encode :: "bytes \<Rightarrow> pystr" where
  "b64url_encode bs = map b64_char (b64_groups (map unat bs))"

lemma b64_char_props:
  assumes "v < 64"
  shows "b64_val (url_char (b64_char v)) = Some v" "url_char (b64_char v) \<noteq> 61" "b64_char v < 128"
    "b64_char v \<noteq> 46" "b64_char v \<noteq> 61"
  using assms by (auto simp: b64_char_def url_char_def b64_val_def)

lemma b64_groups_range: "\<forall>x \<in> set xs. x < 256 \<Longrightarrow> v \<in> set (b64_groups xs) \<Longrightarrow> v < 64"
proof (induction xs rule: b64_groups.induct)
  case (2 a)
  have "a mod 4 < 4" by simp
  with 2 show ?case by (auto simp: less_mult_imp_div_less)
next
  case (3 a b)
  have "a mod 4 < 4" "b mod 16 < 16" "b div 16 < 16" using 3 by (simp_all add: less_mult_imp_div_less)
  with 3 show ?case by (auto simp: less_mult_imp_div_less)
next
  case (4 a b c r)
  have "a mod 4 < 4" "b mod 16 < 16" "b div 16 < 16" "c div 64 < 4" "c mod 64 < 64"
    using 4 by (simp_all add: less_mult_imp_div_less)
  with 4 show ?case by (auto simp: less_mult_imp_div_less)
qed simp

text \<open>Recombining the bits of a group.\<close>

lemma recombine:
  fixes a b c :: nat
  assumes "b < 256" "c < 256"
  shows "a div 4 * 4 + (a mod 4 * 16 + b div 16) div 16 = a"
    "(a mod 4 * 16 + b div 16) mod 16 = b div 16"
    "b div 16 * 16 + (b mod 16 * 4 + c div 64) div 4 = b"
    "(b mod 16 * 4 + c div 64) mod 4 = c div 64"
    "c div 64 * 64 + c mod 64 = c"
proof -
  have "b div 16 < 16" "c div 64 < 4" using assms by (simp_all add: less_mult_imp_div_less)
  then show "a div 4 * 4 + (a mod 4 * 16 + b div 16) div 16 = a"
    "(a mod 4 * 16 + b div 16) mod 16 = b div 16"
    "b div 16 * 16 + (b mod 16 * 4 + c div 64) div 4 = b"
    "(b mod 16 * 4 + c div 64) mod 4 = c div 64"
    "c div 64 * 64 + c mod 64 = c"
    by simp_all
qed

lemma recombine_last:
  fixes a :: nat
  shows "a div 4 * 4 + (a mod 4 * 16) div 16 = a"
  by simp

lemma a2b_step:
  assumes "v < 64"
  shows "a2b_loop 0 l p (url_char (b64_char v) # cs) = a2b_loop 1 v 0 cs"
    "a2b_loop 1 l p (url_char (b64_char v) # cs) =
       res_bind (a2b_loop 2 (v mod 16) 0 cs) (\<lambda>r. Inr ((l * 4 + v div 16) # r))"
    "a2b_loop 2 l p (url_char (b64_char v) # cs) =
       res_bind (a2b_loop 3 (v mod 4) 0 cs) (\<lambda>r. Inr ((l * 16 + v div 4) # r))"
    "a2b_loop 3 l p (url_char (b64_char v) # cs) =
       res_bind (a2b_loop 0 0 0 cs) (\<lambda>r. Inr ((l * 64 + v) # r))"
  using b64_char_props [OF assms] by simp_all

lemma a2b_pad: "a2b_loop 2 l 0 [61, 61] = Inr []" "a2b_loop 3 l 0 [61] = Inr []"
  by simp_all

lemma replicate_two: "replicate 2 x = [x, x]"
  by (simp add: numeral_2_eq_2)

lemma a2b_quad:
  assumes "v < 64" "w < 64" "x < 64" "y < 64"
  shows "a2b_loop 0 l p (map url_char (map b64_char (v # w # x # y # vs)) @ cs) =
     res_bind (a2b_loop 0 0 0 (map url_char (map b64_char vs) @ cs))
       (\<lambda>r. Inr ((v * 4 + w div 16) # (w mod 16 * 16 + x div 4) # (x mod 4 * 64 + y) # r))"
  unfolding list.map append.simps a2b_step [OF assms(1)] a2b_step [OF assms(2)] a2b_step [OF assms(3)]
    a2b_step [OF assms(4)]
  by (cases "a2b_loop 0 0 0 (map url_char (map b64_char vs) @ cs)") simp_all

lemma a2b_two:
  assumes "v < 64" "w < 64"
  shows "a2b_loop 0 l p (map url_char (map b64_char [v, w]) @ [61, 61]) = Inr [v * 4 + w div 16]"
  unfolding list.map append.simps a2b_step [OF assms(1)] a2b_step [OF assms(2)] a2b_pad by simp

lemma a2b_three:
  assumes "v < 64" "w < 64" "x < 64"
  shows "a2b_loop 0 l p (map url_char (map b64_char [v, w, x]) @ [61]) =
     Inr [v * 4 + w div 16, w mod 16 * 16 + x div 4]"
  unfolding list.map append.simps a2b_step [OF assms(1)] a2b_step [OF assms(2)] a2b_step [OF assms(3)] a2b_pad
  by simp

lemma b64_pad_simps:
  "b64_pad (length [v, w]) = [61, 61]" "b64_pad (length [v, w, x]) = [61]"
  "b64_pad (length (v # w # x # y # vs)) = b64_pad (length vs)" "b64_pad (length []) = []"
proof -
  have "(- int (length (v # w # x # y # vs))) mod 4 = (- int (length vs)) mod 4" by simp presburger
  then show "b64_pad (length (v # w # x # y # vs)) = b64_pad (length vs)" by (simp add: b64_pad_def)
qed (simp_all add: b64_pad_def replicate_two)

lemma a2b_groups:
  assumes "\<forall>x \<in> set xs. x < 256"
  shows "a2b_loop 0 0 0 (map url_char (map b64_char (b64_groups xs)) @ b64_pad (length (b64_groups xs))) = Inr xs"
  using assms
proof (induction xs rule: b64_groups.induct)
  case (2 a)
  have "a div 4 < 64" "a mod 4 * 16 < 64" using 2 by (simp_all add: less_mult_imp_div_less)
  from a2b_two [OF this] show ?case by (simp only: b64_groups.simps b64_pad_simps recombine_last)
next
  case (3 a b)
  have v: "a div 4 < 64" "a mod 4 * 16 + b div 16 < 64" "b mod 16 * 4 < 64"
    using b64_groups_range [of "[a, b]"] 3 by simp_all
  have b: "b < 256" using 3 by simp
  have "b div 16 * 16 + (b mod 16 * 4) div 4 = b" by simp
  with a2b_three [OF v] recombine(1,2) [OF b, of 0] show ?case
    by (simp only: b64_groups.simps b64_pad_simps zero_less_numeral)
next
  case (4 a b c r)
  have r: "v \<in> set (b64_groups (a # b # c # r)) \<Longrightarrow> v < 64" for v
    by (rule b64_groups_range [OF 4(2)])
  have v: "a div 4 < 64" "a mod 4 * 16 + b div 16 < 64" "b mod 16 * 4 + c div 64 < 64" "c mod 64 < 64"
    by (rule r; simp only: b64_groups.simps list.set insert_iff; blast)+
  have bc: "b < 256" "c < 256" "\<forall>x \<in> set r. x < 256" using 4(2) by simp_all
  show ?case
    by (simp only: b64_groups.simps b64_pad_simps a2b_quad [OF v] recombine [OF bc(1,2)] 4(1) [OF bc(3)]
      res_bind_simps)
qed (simp add: b64_pad_def)

lemma unat_bytes: "\<forall>x \<in> set (map unat bs). x < 256" for bs :: bytes
  using unsigned_less [where 'b = 8 and 'a = nat] by auto

lemma b64url_encode_props:
  assumes "c \<in> set (b64url_encode bs)"
  shows "c < 128 \<and> c \<noteq> 46 \<and> c \<noteq> 61"
proof -
  obtain v where "v \<in> set (b64_groups (map unat bs))" "c = b64_char v"
    using assms by (auto simp: b64url_encode_def)
  with b64_char_props(3-5) [OF b64_groups_range [OF unat_bytes this(1)]] show ?thesis by simp
qed

text \<open>Padding the unpadded text to a multiple of four and decoding gives the bytes back.\<close>

lemma b64_roundtrip:
  "urlsafe_b64decode (b64url_encode bs @ b64_pad (length (b64url_encode bs))) = Inr bs"
proof -
  let ?cs = "b64url_encode bs"
  have a: "list_all (\<lambda>c. c < 128) (?cs @ b64_pad (length ?cs))"
    using b64url_encode_props [of _ bs] by (auto simp: list_all_iff b64_pad_def)
  have "map url_char (b64_pad n) = b64_pad n" for n by (simp add: b64_pad_def url_char_def)
  then have "a2b_loop 0 0 0 (map url_char (?cs @ b64_pad (length ?cs))) = Inr (map unat bs)"
    using a2b_groups [OF unat_bytes, of bs] by (simp add: b64url_encode_def)
  with a show ?thesis by (simp add: urlsafe_b64decode_def map_idI o_def)
qed

end
