(* ===== verification/Hex.thy ===== *)
theory Hex
  imports Prelude
begin

text \<open>Hexadecimal texts: \<^emph>\<open>bytes.fromhex\<close>, \<^emph>\<open>bytes.hex\<close>, and that the one reads what the other writes.\<close>

text \<open>\<^emph>\<open>bytes.fromhex\<close>: pairs of hexadecimal digits, white space allowed between pairs.\<close>

definition hex_digit :: "nat \<Rightarrow> nat option" where
  "hex_digit c =
     (if 48 \<le> c \<and> c \<le> 57 then Some (c - 48)
      else if 97 \<le> c \<and> c \<le> 102 then Some (c - 87)
      else if 65 \<le> c \<and> c \<le> 70 then Some (c - 55) else None)"

definition is_space :: "nat \<Rightarrow> bool" where
  "is_space c \<longleftrightarrow> c \<in> {9, 10, 11, 12, 13, 32}"

fun from_hex :: "pystr \<Rightarrow> bytes res" where
  "from_hex [] = Inr []"
| "from_hex (c # cs) =
     (if is_space c then from_hex cs
      else case cs of [] \<Rightarrow> Inl (ValueError ''non-hexadecimal number'')
        | d # ds \<Rightarrow> (case (hex_digit c, hex_digit d) of
            (Some h, Some l) \<Rightarrow> res_bind (from_hex ds) (\<lambda>r. Inr (word_of_nat (16 * h + l) # r))
          | _ \<Rightarrow> Inl (ValueError ''non-hexadecimal number'')))"

text \<open>\<^emph>\<open>bytes.hex()\<close>.\<close>

definition hex_char :: "nat \<Rightarrow> nat" where
  "hex_char d = (if d < 10 then 48 + d else 87 + d)"

fun to_hex :: "bytes \<Rightarrow> pystr" where
  "to_hex [] = []"
| "to_hex (b # bs) = hex_char (unat b div 16) # hex_char (unat b mod 16) # to_hex bs"

lemma hex_char_digit: "d < 16 \<Longrightarrow> hex_digit (hex_char d) = Some d \<and> \<not> is_space (hex_char d)"
  by (auto simp: hex_char_def hex_digit_def is_space_def)

lemma from_hex_to_hex [simp]: "from_hex (to_hex bs) = Inr bs"
proof (induction bs)
  case (Cons b bs)
  have "unat b < 256" using unsigned_less [of b] by simp
  then have "unat b div 16 < 16" "unat b mod 16 < 16" by (simp_all add: less_mult_imp_div_less)
  with Cons show ?case by (simp add: hex_char_digit)
qed simp

end
