(* ===== verification/Json.thy ===== *)
theory Json
  imports Py_Text Utf8 Hex
begin

text \<open>
  \<^emph>\<open>json.loads\<close> and \<^emph>\<open>json.dumps\<close> as the code uses them, on values without floats for the latter.
  Parameters (record \<open>decoders\<close>) are the wide encodings, the double a number literal denotes, how
  deep the interpreter can recurse, and the tables of \<^emph>\<open>int()\<close>.
\<close>

section \<open>Values\<close>

datatype json =
    JNull | JBool bool | JInt int | JFloat rat
  | JInfinity                      \<comment> \<open>of either sign\<close>
  | JNaN | JStr pystr | JArr "json list" | JObj "(pystr \<times> json) list"

record decoders =
  wide_text :: "string \<Rightarrow> bytes \<Rightarrow> pystr res"   \<comment> \<open>decode(encoding, "surrogatepass") of UTF-16 and UTF-32\<close>
  to_double :: "pystr \<Rightarrow> rat option"             \<comment> \<open>float(literal), None for an infinity\<close>
  nesting :: nat                               \<comment> \<open>nested objects and arrays before RecursionError\<close>
  unicode_tables :: unicode

section \<open>Reading a string\<close>

definition json_space :: "nat \<Rightarrow> bool" where
  "json_space c \<longleftrightarrow> c \<in> {32, 9, 10, 13}"

abbreviation skip_ws :: "pystr \<Rightarrow> pystr" where
  "skip_ws \<equiv> dropWhile json_space"

text \<open>Four hexadecimal digits.\<close>

fun hex4 :: "pystr \<Rightarrow> (nat \<times> pystr) option" where
  "hex4 (a # b # c # d # s) =
     (case (hex_digit a, hex_digit b, hex_digit c, hex_digit d) of
        (Some w, Some x, Some y, Some z) \<Rightarrow> Some (((w * 16 + x) * 16 + y) * 16 + z, s)
      | _ \<Rightarrow> None)"
| "hex4 _ = None"

definition high_surrogate :: "nat \<Rightarrow> bool" where
  "high_surrogate c \<longleftrightarrow> 0xD800 \<le> c \<and> c < 0xDC00"

definition low_surrogate :: "nat \<Rightarrow> bool" where
  "low_surrogate c \<longleftrightarrow> 0xDC00 \<le> c \<and> c < 0xE000"

definition join_surrogates :: "nat \<Rightarrow> nat \<Rightarrow> nat" where
  "join_surrogates h l = 0x10000 + (h - 0xD800) * 1024 + (l - 0xDC00)"

definition short_escape :: "nat \<Rightarrow> nat option" where
  "short_escape c =
     (if c = 34 \<or> c = 92 \<or> c = 47 then Some c else if c = 98 then Some 8 else if c = 102 then Some 12
      else if c = 110 then Some 10 else if c = 114 then Some 13 else if c = 116 then Some 9 else None)"

text \<open>What follows a backslash; a high surrogate takes a low one that follows it along.\<close>

fun low_half :: "nat \<Rightarrow> pystr \<Rightarrow> (nat \<times> pystr) option" where
  "low_half u (c # d # s) =
     (if c = 92 \<and> d = 117
      then (case hex4 s of
              None \<Rightarrow> None
            | Some (v, t) \<Rightarrow> if low_surrogate v then Some (join_surrogates u v, t) else Some (u, c # d # s))
      else Some (u, c # d # s))"
| "low_half u s = Some (u, s)"

definition escape :: "pystr \<Rightarrow> (nat \<times> pystr) option" where
  "escape s =
     (case s of
        [] \<Rightarrow> None
      | c # cs \<Rightarrow>
          if c = 117 then (case hex4 cs of
              None \<Rightarrow> None
            | Some (u, t) \<Rightarrow> if high_surrogate u then low_half u t else Some (u, t))
          else map_option (\<lambda>x. (x, cs)) (short_escape c))"

lemma hex4_length: "hex4 s = Some (u, t) \<Longrightarrow> length s = length t + 4"
  by (cases s rule: hex4.cases) (auto split: option.splits)

lemma low_half_length: "low_half u s = Some (v, t) \<Longrightarrow> length t \<le> length s"
  by (cases "(u, s)" rule: low_half.cases)
    (auto dest!: hex4_length split: option.splits if_splits)

lemma escape_length: "escape s = Some (u, t) \<Longrightarrow> length t < length s"
  by (auto simp: escape_def dest!: hex4_length low_half_length split: list.splits option.splits if_splits)

text \<open>The characters up to the closing quotation mark, and what follows it.\<close>

function scan_string :: "pystr \<Rightarrow> (pystr \<times> pystr) option" where
  "scan_string [] = None"
| "scan_string (c # cs) =
     (if c = 34 then Some ([], cs)
      else if c = 92 then (case escape cs of
          None \<Rightarrow> None
        | Some (x, t) \<Rightarrow> map_option (\<lambda>(s, r). (x # s, r)) (scan_string t))
      else if c < 32 then None
      else map_option (\<lambda>(s, r). (c # s, r)) (scan_string cs))"
  by pat_completeness auto
termination
  by (relation "measure length") (auto dest: escape_length)

lemma scan_string_length: "scan_string s = Some (t, r) \<Longrightarrow> length r < length s"
proof (induction s arbitrary: t r rule: scan_string.induct)
  case (2 c cs)
  then show ?case by (fastforce dest: escape_length split: if_splits option.splits)
qed simp

section \<open>Reading a number\<close>

definition is_digit :: "nat \<Rightarrow> bool" where
  "is_digit c \<longleftrightarrow> 48 \<le> c \<and> c \<le> 57"

text \<open>The integer part: one zero, or digits that start with another one.\<close>

definition int_part :: "pystr \<Rightarrow> (pystr \<times> pystr) option" where
  "int_part s =
     (case s of
        c # cs \<Rightarrow>
          if c = 48 then Some ([c], cs)
          else if is_digit c then Some (takeWhile is_digit s, dropWhile is_digit s) else None
      | [] \<Rightarrow> None)"

text \<open>A fraction and an exponent count only when they have a digit.\<close>

definition frac_part :: "pystr \<Rightarrow> pystr" where
  "frac_part s =
     (case s of c # d # cs \<Rightarrow> if c = 46 \<and> is_digit d then dropWhile is_digit (d # cs) else s | _ \<Rightarrow> s)"

definition exp_part :: "pystr \<Rightarrow> pystr" where
  "exp_part s =
     (case s of
        c # cs \<Rightarrow>
          (let t = (case cs of d # ds \<Rightarrow> if d = 43 \<or> d = 45 then ds else cs | [] \<Rightarrow> cs) in
           if (c = 101 \<or> c = 69) \<and> t \<noteq> [] \<and> is_digit (hd t) then dropWhile is_digit t else s)
      | [] \<Rightarrow> s)"

definition scan_number :: "decoders \<Rightarrow> pystr \<Rightarrow> (json \<times> pystr) res" where
  "scan_number D s =
     (let neg = (s \<noteq> [] \<and> hd s = 45) in
      case int_part (if neg then tl s else s) of
        None \<Rightarrow> Inl JSONDecodeError
      | Some (ds, r) \<Rightarrow>
          let t = exp_part (frac_part r) in
          if t = r
          then if length ds > MAX_STR_DIGITS then Inl (ValueError ''Exceeds the limit for integer string conversion'')
               else let n = int (digits_value 10 (map (\<lambda>c. c - 48) ds)) in Inr (JInt (if neg then - n else n), r)
          else Inr (case to_double D (take (length s - length t) s) of Some x \<Rightarrow> JFloat x | None \<Rightarrow> JInfinity, t))"

section \<open>Reading a value\<close>

text \<open>Values that are no string, array or object.\<close>

definition scan_scalar :: "decoders \<Rightarrow> pystr \<Rightarrow> (json \<times> pystr) res" where
  "scan_scalar D s =
     (if take 4 s = str ''null'' then Inr (JNull, drop 4 s)
      else if take 4 s = str ''true'' then Inr (JBool True, drop 4 s)
      else if take 5 s = str ''false'' then Inr (JBool False, drop 5 s)
      else if take 3 s = str ''NaN'' then Inr (JNaN, drop 3 s)
      else if take 8 s = str ''Infinity'' then Inr (JInfinity, drop 8 s)
      else if take 9 s = str ''-Infinity'' then Inr (JInfinity, drop 9 s)
      else scan_number D s)"

text \<open>
  The items of an array or object up to the closing bracket. The number bounds the rounds of the loop;
  each consumes a character, so \<open>scan_seq\<close> gives it rounds enough (\<open>scan_items_rounds\<close>).
\<close>

fun scan_items :: "nat \<Rightarrow> (pystr \<Rightarrow> ('a \<times> pystr) res) \<Rightarrow> nat \<Rightarrow> pystr \<Rightarrow> ('a list \<times> pystr) res" where
  "scan_items close item 0 s = Inl JSONDecodeError"
| "scan_items close item (Suc n) s =
     res_bind (item s) (\<lambda>(x, r).
     case skip_ws r of
       [] \<Rightarrow> Inl JSONDecodeError
     | c # cs \<Rightarrow>
         if c = close then Inr ([x], cs)
         else if c = 44 then res_bind (scan_items close item n (skip_ws cs)) (\<lambda>(xs, t). Inr (x # xs, t))
         else Inl JSONDecodeError)"

definition scan_seq :: "nat \<Rightarrow> (pystr \<Rightarrow> ('a \<times> pystr) res) \<Rightarrow> pystr \<Rightarrow> ('a list \<times> pystr) res" where
  "scan_seq close item s =
     (case skip_ws s of
        [] \<Rightarrow> Inl JSONDecodeError
      | c # cs \<Rightarrow> if c = close then Inr ([], cs) else scan_items close item (length s) (c # cs))"

text \<open>One member: a key in quotation marks, a colon, a value.\<close>

definition scan_member :: "(pystr \<Rightarrow> (json \<times> pystr) res) \<Rightarrow> pystr \<Rightarrow> ((pystr \<times> json) \<times> pystr) res" where
  "scan_member val s =
     (case s of
        [] \<Rightarrow> Inl JSONDecodeError
      | q # cs \<Rightarrow>
          if q \<noteq> 34 then Inl JSONDecodeError
          else case scan_string cs of
            None \<Rightarrow> Inl JSONDecodeError
          | Some (k, r) \<Rightarrow>
              (case skip_ws r of
                 [] \<Rightarrow> Inl JSONDecodeError
               | c # t \<Rightarrow> if c \<noteq> 58 then Inl JSONDecodeError
                   else res_bind (val (skip_ws t)) (\<lambda>(v, u). Inr ((k, v), u))))"

definition scan_array :: "(pystr \<Rightarrow> (json \<times> pystr) res) \<Rightarrow> pystr \<Rightarrow> (json \<times> pystr) res" where
  "scan_array val s = res_bind (scan_seq 93 val s) (\<lambda>(vs, t). Inr (JArr vs, t))"

definition scan_object :: "(pystr \<Rightarrow> (json \<times> pystr) res) \<Rightarrow> pystr \<Rightarrow> (json \<times> pystr) res" where
  "scan_object val s = res_bind (scan_seq 125 (scan_member val) s) (\<lambda>(kvs, t). Inr (JObj kvs, t))"

text \<open>\<^emph>\<open>scan_once\<close>; an array or object needs a level of the interpreter's stack.\<close>

fun scan_value :: "decoders \<Rightarrow> nat \<Rightarrow> pystr \<Rightarrow> (json \<times> pystr) res" where
  "scan_value D d [] = Inl JSONDecodeError"
| "scan_value D d (c # cs) =
     (if c = 34 then (case scan_string cs of
          None \<Rightarrow> Inl JSONDecodeError
        | Some (s, t) \<Rightarrow> Inr (JStr s, t))
      else if c = 123 then (case d of 0 \<Rightarrow> Inl RecursionError | Suc d' \<Rightarrow> scan_object (scan_value D d') cs)
      else if c = 91 then (case d of 0 \<Rightarrow> Inl RecursionError | Suc d' \<Rightarrow> scan_array (scan_value D d') cs)
      else scan_scalar D (c # cs))"

section \<open>\<^emph>\<open>json.loads\<close>\<close>

text \<open>Of a text: a byte order mark and anything after the value are refused.\<close>

definition json_of_text :: "decoders \<Rightarrow> pystr \<Rightarrow> json res" where
  "json_of_text D s =
     (if s \<noteq> [] \<and> hd s = 0xFEFF then Inl JSONDecodeError
      else res_bind (scan_value D (nesting D) (skip_ws s)) (\<lambda>(v, t).
        if skip_ws t = [] then Inr v else Inl JSONDecodeError))"

text \<open>\<^emph>\<open>detect_encoding\<close>.\<close>

definition detect_encoding :: "bytes \<Rightarrow> string" where
  "detect_encoding b =
     (if take 4 b = [0, 0, 0xFE, 0xFF] \<or> take 4 b = [0xFF, 0xFE, 0, 0] then ''utf-32''
      else if take 2 b = [0xFE, 0xFF] \<or> take 2 b = [0xFF, 0xFE] then ''utf-16''
      else if take 3 b = [0xEF, 0xBB, 0xBF] then ''utf-8-sig''
      else if length b \<ge> 4 then
        (if b ! 0 = 0 then (if b ! 1 \<noteq> 0 then ''utf-16-be'' else ''utf-32-be'')
         else if b ! 1 = 0 then (if b ! 2 \<noteq> 0 \<or> b ! 3 \<noteq> 0 then ''utf-16-le'' else ''utf-32-le'')
         else ''utf-8'')
      else if length b = 2 then
        (if b ! 0 = 0 then ''utf-16-be'' else if b ! 1 = 0 then ''utf-16-le'' else ''utf-8'')
      else ''utf-8'')"

text \<open>UTF-8 in which the three bytes of a surrogate are let through.\<close>

definition pass_next :: "nat list \<Rightarrow> (nat \<times> nat) option" where
  "pass_next xs =
     (case utf8_next xs of
        Some r \<Rightarrow> Some r
      | None \<Rightarrow>
          (case xs of
             a # b # c # _ \<Rightarrow>
               if a = 0xED \<and> 0xA0 \<le> b \<and> b < 0xC0 \<and> cont c then Some (0xD000 + (b - 0x80) * 64 + (c - 0x80), 3) else None
           | _ \<Rightarrow> None))"

lemma pass_next_some: "pass_next xs = Some (c, n) \<Longrightarrow> 0 < n"
  by (auto simp: pass_next_def dest: utf8_next_some split: option.splits list.splits if_splits)

function utf8_pass :: "nat list \<Rightarrow> pystr res" where
  "utf8_pass xs =
     (if xs = [] then Inr []
      else case pass_next xs of
        None \<Rightarrow> Inl UnicodeError
      | Some (c, n) \<Rightarrow> res_bind (utf8_pass (drop n xs)) (\<lambda>s. Inr (c # s)))"
  by auto
termination
  by (relation "measure length") (auto dest: pass_next_some)

declare utf8_pass.simps [simp del]

definition json_loads :: "decoders \<Rightarrow> bytes \<Rightarrow> json res" where
  "json_loads D b =
     (let enc = detect_encoding b in
      res_bind
        (if enc = ''utf-8'' then utf8_pass (map unat b)
         else if enc = ''utf-8-sig'' then utf8_pass (map unat (drop 3 b)) else wide_text D enc b)
        (\<lambda>s. json_of_text D s))"

section \<open>The loop has rounds enough\<close>

definition consumes :: "(pystr \<Rightarrow> ('a \<times> pystr) res) \<Rightarrow> bool" where
  "consumes item \<longleftrightarrow> item [] = Inl JSONDecodeError \<and> (\<forall>s v t. item s = Inr (v, t) \<longrightarrow> length t < length s)"

lemma consumesD: "consumes item \<Longrightarrow> item s = Inr (v, t) \<Longrightarrow> length t < length s"
  by (simp add: consumes_def)

lemma skip_ws_length: "length (skip_ws s) \<le> length s"
  by (rule length_dropWhile_le)

lemma skip_ws_rest: "skip_ws s = c # cs \<Longrightarrow> length cs < length s"
  using skip_ws_length [of s] by simp

lemma scan_items_rounds:
  assumes "consumes item" "length s \<le> n" "length s \<le> m"
  shows "scan_items close item n s = scan_items close item m s"
  using assms(2,3)
proof (induction n arbitrary: s m)
  case 0
  then show ?case using assms(1) by (cases m) (simp_all add: consumes_def)
next
  case (Suc n)
  show ?case
  proof (cases m)
    case 0
    with Suc.prems assms(1) show ?thesis by (simp add: consumes_def)
  next
    case (Suc k)
    have "scan_items close item n (skip_ws cs) = scan_items close item k (skip_ws cs)"
      if "item s = Inr (v, r)" "skip_ws r = c # cs" for v r c cs
    proof (rule Suc.IH)
      have "length (skip_ws cs) < length s"
        using consumesD [OF assms(1) that(1)] skip_ws_rest [OF that(2)] skip_ws_length [of cs] by simp
      with Suc.prems Suc show "length (skip_ws cs) \<le> n" "length (skip_ws cs) \<le> k" by simp_all
    qed
    then show ?thesis unfolding Suc
      by (cases "item s") (auto split: list.splits simp del: dropWhile_eq_Nil_conv dropWhile_eq_Cons_conv)
  qed
qed

lemma scan_items_length:
  "consumes item \<Longrightarrow> scan_items close item n s = Inr (xs, t) \<Longrightarrow> length t < length s"
proof (induction close item n s arbitrary: xs t rule: scan_items.induct)
  case (2 close item n s)
  obtain x r where r1: "item s = Inr (x, r)" using 2(3) by (cases "item s") auto
  obtain c cs where r2: "skip_ws r = c # cs" using 2(3) r1 by (cases "skip_ws r") auto
  note r = r1 r2
  have "length t \<le> length cs"
  proof (cases "c = close")
    case True
    with 2(3) r show ?thesis by simp
  next
    case False
    with 2(3) r obtain ys where y: "c = 44" "scan_items close item n (skip_ws cs) = Inr (ys, t)" by (auto split: if_splits)
    from 2(1) [OF r2 False y(1) 2(2) y(2)] skip_ws_length [of cs] show ?thesis by simp
  qed
  with consumesD [OF 2(2) r(1)] skip_ws_rest [OF r(2)] show ?case by simp
qed simp

lemma scan_seq_length:
  assumes "consumes item" "scan_seq close item s = Inr (xs, t)"
  shows "length t < length s"
  using assms(2) scan_items_length [OF assms(1), of close "length s" "skip_ws s" xs t] skip_ws_length [of s]
  by (auto simp: scan_seq_def split: list.splits if_splits simp del: dropWhile_eq_Nil_conv dropWhile_eq_Cons_conv
      dest: skip_ws_rest)

lemma scan_member_consumes:
  assumes "consumes val"
  shows "consumes (scan_member val)"
proof -
  have "length u < length s" if m: "scan_member val s = Inr (kv, u)" for s kv u
  proof -
    obtain cs k r t v where s: "s = 34 # cs" "scan_string cs = Some (k, r)" "skip_ws r = 58 # t" "val (skip_ws t) = Inr (v, u)"
      using m by (auto simp: scan_member_def split: list.splits if_splits option.splits
          simp del: dropWhile_eq_Nil_conv dropWhile_eq_Cons_conv)
    show ?thesis
      using consumesD [OF assms s(4)] skip_ws_length [of t] skip_ws_rest [OF s(3)] scan_string_length [OF s(2)] s(1) by simp
  qed
  then show ?thesis unfolding consumes_def by (simp add: scan_member_def)
qed

lemma int_part_length:
  assumes "int_part s = Some (ds, r)"
  shows "length r < length s"
proof (cases s)
  case (Cons c cs)
  with assms show ?thesis
    using length_dropWhile_le [of is_digit cs] by (auto simp: int_part_def split: if_splits)
qed (use assms in \<open>simp add: int_part_def\<close>)

lemma scan_number_length:
  assumes "scan_number D s = Inr (v, t)"
  shows "length t < length s"
proof -
  have f: "length (frac_part r) \<le> length r" for r
    by (auto simp: frac_part_def length_dropWhile_le le_SucI split: list.splits)
  have e: "length (exp_part r) \<le> length r" for r
    by (auto simp: exp_part_def Let_def length_dropWhile_le le_SucI split: list.splits)
  define neg where "neg \<longleftrightarrow> s \<noteq> [] \<and> hd s = 45"
  obtain ds r where i: "int_part (if neg then tl s else s) = Some (ds, r)"
    using assms by (cases "int_part (if neg then tl s else s)") (auto simp: scan_number_def neg_def Let_def)
  have u: "t = r \<or> t = exp_part (frac_part r)"
    using assms i by (auto simp: scan_number_def neg_def [symmetric] Let_def split: if_splits option.splits)
  have "length r < length (if neg then tl s else s)" by (rule int_part_length [OF i])
  moreover have "length t \<le> length r" using u f [of r] e [of "frac_part r"] by auto
  ultimately show ?thesis by (simp split: if_splits)
qed

lemma scan_scalar_length: "scan_scalar D s = Inr (v, t) \<Longrightarrow> s \<noteq> [] \<Longrightarrow> length t < length s"
  by (auto simp: scan_scalar_def split: if_splits dest: scan_number_length)

lemma scan_value_step:
  assumes "scan_value D d (c # cs) = Inr (v, t)" "\<And>d'. d = Suc d' \<Longrightarrow> consumes (scan_value D d')"
  shows "length t < length (c # cs)"
proof -
  consider "c = 34" | "c = 123" | "c = 91" | "c \<noteq> 34" "c \<noteq> 123" "c \<noteq> 91" by blast
  then show ?thesis
  proof cases
    case 1
    then obtain u where "scan_string cs = Some (u, t)" using assms(1) by (auto split: option.splits)
    from scan_string_length [OF this] show ?thesis by simp
  next
    case 2
    with assms(1) obtain d' kvs where d: "d = Suc d'" "scan_seq 125 (scan_member (scan_value D d')) cs = Inr (kvs, t)"
      by (cases d) (auto simp: scan_object_def)
    from scan_seq_length [OF scan_member_consumes [OF assms(2) [OF d(1)]] d(2)] show ?thesis by simp
  next
    case 3
    with assms(1) obtain d' vs where d: "d = Suc d'" "scan_seq 93 (scan_value D d') cs = Inr (vs, t)"
      by (cases d) (auto simp: scan_array_def)
    from scan_seq_length [OF assms(2) [OF d(1)] d(2)] show ?thesis by simp
  next
    case 4
    with assms(1) have "scan_scalar D (c # cs) = Inr (v, t)" by simp
    from scan_scalar_length [OF this] show ?thesis by simp
  qed
qed

lemma scan_value_consumes: "consumes (scan_value D d)"
proof (induction d)
  case 0
  have "length t < length s" if "scan_value D 0 s = Inr (v, t)" for s v t
    using that scan_value_step [of D 0 _ _ v t] by (cases s) auto
  then show ?case by (simp add: consumes_def)
next
  case (Suc d)
  have "length t < length s" if "scan_value D (Suc d) s = Inr (v, t)" for s v t
    using that scan_value_step [of D "Suc d" _ _ v t] Suc by (cases s) auto
  then show ?case by (simp add: consumes_def)
qed

end
