(* ===== verification/Json_Print.thy ===== *)
theory Json_Print
  imports Json
begin

text \<open>
  \<^emph>\<open>json.dumps\<close> with its default of ASCII output, on values without floats, and that \<^emph>\<open>json.loads\<close> reads
  back what it writes. \<open>g\<close> is the white space after a separator: one blank by default, none in the
  compact form of web tokens.
\<close>

section \<open>Writing\<close>

definition plain_char :: "nat \<Rightarrow> bool" where
  "plain_char c \<longleftrightarrow> 32 \<le> c \<and> c \<le> 126 \<and> c \<noteq> 34 \<and> c \<noteq> 92"

definition hex4_text :: "nat \<Rightarrow> pystr" where
  "hex4_text n = map hex_char [n div 4096 mod 16, n div 256 mod 16, n div 16 mod 16, n mod 16]"

definition escape_char :: "nat \<Rightarrow> pystr" where
  "escape_char c =
     (if plain_char c then [c] else if c = 34 then [92, 34] else if c = 92 then [92, 92]
      else if c = 10 then [92, 110] else if c = 13 then [92, 114] else if c = 9 then [92, 116]
      else if c = 12 then [92, 102] else if c = 8 then [92, 98]
      else if c < 0x10000 then [92, 117] @ hex4_text c
      else [92, 117] @ hex4_text (0xD800 + (c - 0x10000) div 1024) @
           [92, 117] @ hex4_text (0xDC00 + (c - 0x10000) mod 1024))"

definition quote :: "pystr \<Rightarrow> pystr" where
  "quote s = [34] @ concat (map escape_char s) @ [34]"

text \<open>Parts between separators.\<close>

fun commas :: "pystr \<Rightarrow> pystr list \<Rightarrow> pystr" where
  "commas g [] = []"
| "commas g [x] = x"
| "commas g (x # y # xs) = x @ [44] @ g @ commas g (y # xs)"

primrec json_text :: "pystr \<Rightarrow> json \<Rightarrow> pystr" where
  "json_text g JNull = str ''null''"
| "json_text g (JBool b) = (if b then str ''true'' else str ''false'')"
| "json_text g (JInt i) = text_of_int i"
| "json_text g JNaN = str ''NaN''"
| "json_text g JInfinity = str ''Infinity''"
| "json_text g (JFloat x) = []"        \<comment> \<open>not \<open>printable\<close>\<close>
| "json_text g (JStr s) = quote s"
| "json_text g (JArr vs) = [91] @ commas g (map (json_text g) vs) @ [93]"
| "json_text g (JObj kvs) =
     [123] @ commas g (map (\<lambda>(k, t). quote k @ [58] @ g @ t) (map (map_prod id (json_text g)) kvs)) @ [125]"

primrec printable :: "json \<Rightarrow> bool" where
  "printable JNull = True"
| "printable (JBool b) = True"
| "printable (JInt i) = (\<bar>i\<bar> < 10 ^ MAX_STR_DIGITS)"
| "printable JNaN = True"
| "printable JInfinity = True"
| "printable (JFloat x) = False"
| "printable (JStr s) = list_all scalar s"
| "printable (JArr vs) = list_all id (map printable vs)"
| "printable (JObj kvs) = list_all (\<lambda>(k, b). list_all scalar k \<and> b) (map (map_prod id printable) kvs)"

text \<open>How many brackets enclose the innermost value.\<close>

primrec json_depth :: "json \<Rightarrow> nat" where
  "json_depth JNull = 0"
| "json_depth (JBool b) = 0"
| "json_depth (JInt i) = 0"
| "json_depth JNaN = 0"
| "json_depth JInfinity = 0"
| "json_depth (JFloat x) = 0"
| "json_depth (JStr s) = 0"
| "json_depth (JArr vs) = Suc (foldr max (map json_depth vs) 0)"
| "json_depth (JObj kvs) = Suc (foldr max (map snd (map (map_prod id json_depth) kvs)) 0)"

section \<open>Strings\<close>

lemma hex4_hex4_text:
  assumes "n < 65536"
  shows "hex4 (hex4_text n @ s) = Some (n, s)"
proof -
  have "n div 4096 < 16" using assms by (simp add: less_mult_imp_div_less)
  then have "n div 4096 mod 16 = n div 256 div 16" by (simp add: div_mult2_eq [symmetric])
  moreover have "n div 256 = n div 16 div 16" by (simp add: div_mult2_eq [symmetric])
  ultimately have "((n div 4096 mod 16 * 16 + n div 256 mod 16) * 16 + n div 16 mod 16) * 16 + n mod 16 = n"
    by (simp only: div_mult_mod_eq)
  with \<open>n div 4096 < 16\<close> show ?thesis by (simp add: hex4_text_def hex_char_digit)
qed

lemma escape_hex4:
  assumes "n < 65536" "\<not> high_surrogate n"
  shows "escape (117 # hex4_text n @ s) = Some (n, s)"
  using assms by (simp add: escape_def hex4_hex4_text)

lemma escape_pair:
  assumes "65536 \<le> c" "c < 1114112"
  shows "escape (117 # hex4_text (55296 + (c - 65536) div 1024) @ 92 # 117 # hex4_text (56320 + (c - 65536) mod 1024) @ s) =
    Some (c, s)"
proof -
  let ?h = "55296 + (c - 65536) div 1024" and ?l = "56320 + (c - 65536) mod 1024"
  have h: "?h < 56320" using assms by (simp add: less_mult_imp_div_less)
  have l: "?l < 57344" by simp
  have "(c - 65536) div 1024 * 1024 + (c - 65536) mod 1024 = c - 65536" by (rule div_mult_mod_eq)
  with assms(1) have "join_surrogates ?h ?l = c" by (simp add: join_surrogates_def)
  with h l show ?thesis
    by (simp add: escape_def hex4_hex4_text high_surrogate_def low_surrogate_def)
qed

lemma scan_string_char:
  assumes "scalar c"
  shows "scan_string (escape_char c @ s) = map_option (\<lambda>(t, r). (c # t, r)) (scan_string s)"
proof -
  consider "plain_char c" | "c \<in> {34, 92, 10, 13, 9, 12, 8}" | "\<not> plain_char c" "c \<notin> {34, 92, 10, 13, 9, 12, 8}" "c < 65536"
    | "65536 \<le> c" by fastforce
  then show ?thesis
  proof cases
    case 1
    then show ?thesis by (simp add: escape_char_def plain_char_def)
  next
    case 2
    then show ?thesis by (auto simp: escape_char_def plain_char_def escape_def short_escape_def)
  next
    case 3
    have "\<not> high_surrogate c" using assms by (auto simp: scalar_def high_surrogate_def)
    with 3 show ?thesis by (simp add: escape_char_def escape_hex4)
  next
    case 4
    then have "\<not> plain_char c" "c < 1114112" using assms by (auto simp: plain_char_def scalar_def)
    with 4 show ?thesis by (simp add: escape_char_def escape_pair)
  qed
qed

lemma scan_string_quote:
  "list_all scalar s \<Longrightarrow> scan_string (concat (map escape_char s) @ 34 # r) = Some (s, r)"
  by (induction s) (simp_all add: scan_string_char)

section \<open>Numbers\<close>

text \<open>What may follow a value.\<close>

definition stops :: "pystr \<Rightarrow> bool" where
  "stops r \<longleftrightarrow> (case r of [] \<Rightarrow> True | c # _ \<Rightarrow> c = 44 \<or> c = 93 \<or> c = 125)"

lemma stops_parts:
  assumes "stops r"
  shows "exp_part (frac_part r) = r" "takeWhile is_digit r = []" "dropWhile is_digit r = r"
  using assms by (auto simp: stops_def exp_part_def frac_part_def is_digit_def split: list.splits)

lemma int_part_digits:
  assumes "decimal_of n ds" "stops r"
  shows "int_part (str (show_nat n) @ r) = Some (str (show_nat n), r)"
proof -
  have d: "str (show_nat n) = map (\<lambda>d. 48 + d) ds" "ds \<noteq> []" "\<forall>d \<in> set ds. d < 10" "hd ds = 0 \<longrightarrow> n = 0"
    "n < 10 ^ 1 \<longrightarrow> length ds \<le> 1"
    using assms(1) by (auto simp: decimal_of_def)
  obtain c cs where c: "ds = c # cs" using d(2) by (cases ds) auto
  show ?thesis
  proof (cases "c = 0")
    case True
    with d(4,5) c have "cs = []" by simp
    with True c show ?thesis by (simp add: int_part_def d(1))
  next
    case False
    have all: "is_digit x" if "x \<in> set (map (\<lambda>d. 48 + d) ds)" for x using d(3) that by (auto simp: is_digit_def)
    have "takeWhile is_digit (map (\<lambda>d. 48 + d) ds @ r) = map (\<lambda>d. 48 + d) ds"
      "dropWhile is_digit (map (\<lambda>d. 48 + d) ds @ r) = r"
      using takeWhile_append2 [of "map (\<lambda>d. 48 + d) ds" is_digit r, OF all]
        dropWhile_append2 [of "map (\<lambda>d. 48 + d) ds" is_digit r, OF all] stops_parts [OF assms(2)] by simp_all
    moreover have "is_digit (48 + c)" using d(3) c by (simp add: is_digit_def)
    ultimately show ?thesis using False c by (simp add: int_part_def d(1))
  qed
qed

lemma scan_number_int:
  assumes "\<bar>i\<bar> < 10 ^ MAX_STR_DIGITS" "stops r"
  shows "scan_number D (text_of_int i @ r) = Inr (JInt i, r)"
proof -
  let ?n = "nat \<bar>i\<bar>"
  obtain ds where ds: "decimal_of ?n ds" using decimal_of_exists by blast
  have "?n < 10 ^ MAX_STR_DIGITS" using assms(1) by (simp add: nat_less_iff)
  with ds MAX_STR_DIGITS_pos have len: "length ds \<le> MAX_STR_DIGITS" by (simp add: decimal_of_def)
  define dg where "dg = str (show_nat ?n)"
  have d: "dg = map (\<lambda>d. 48 + d) ds" "digits_value 10 ds = ?n" "ds \<noteq> []"
    using ds by (auto simp: decimal_of_def dg_def)
  have "map (\<lambda>c. c - 48) dg = ds" by (simp add: d(1) comp_def)
  with d(2) have v: "digits_value 10 (map (\<lambda>c. c - 48) dg) = ?n" by simp
  have t: "text_of_int i = (if i < 0 then 45 # dg else dg)"
    by (auto simp: text_of_int_def show_int_def str_def dg_def)
  have hd: "hd (dg @ r) \<noteq> 45" "dg \<noteq> []" "length dg \<le> MAX_STR_DIGITS" using d len by (cases ds; simp)+
  have p: "int_part (dg @ r) = Some (dg, r)" unfolding dg_def by (rule int_part_digits [OF ds assms(2)])
  show ?thesis
  proof (cases "i < 0")
    case True
    with p v hd stops_parts(1) [OF assms(2)] show ?thesis by (simp add: scan_number_def t Let_def)
  next
    case False
    with p v hd stops_parts(1) [OF assms(2)] show ?thesis by (simp add: scan_number_def t Let_def)
  qed
qed

section \<open>Values\<close>

text \<open>How a printed value starts: with no white space, separator or closing bracket.\<close>

definition opens :: "pystr \<Rightarrow> bool" where
  "opens t \<longleftrightarrow> (case t of [] \<Rightarrow> False | c # _ \<Rightarrow> \<not> json_space c \<and> c \<noteq> 44 \<and> c \<noteq> 93 \<and> c \<noteq> 125)"

lemma opens_simps:
  assumes "opens t"
  shows "t \<noteq> []" "skip_ws (t @ r) = t @ r" "hd (t @ r) \<noteq> 93" "hd (t @ r) \<noteq> 125"
  using assms by (cases t; simp add: opens_def)+

lemma skip_gap: "list_all json_space g \<Longrightarrow> opens t \<Longrightarrow> skip_ws (g @ t @ r) = t @ r"
  by (induction g) (simp_all add: opens_simps)

lemma skip_stop:
  assumes "c = 44 \<or> c = 93 \<or> c = 125 \<or> c = 58"
  shows "skip_ws (c # r) = c # r"
  using assms by (auto simp: json_space_def)

lemma commas_length: "\<forall>t \<in> set ts. opens t \<Longrightarrow> length ts \<le> length (commas g ts)"
proof (induction g ts rule: commas.induct)
  case (2 g x)
  then show ?case by (cases x) (simp_all add: opens_def)
qed simp_all

lemma scan_items_commas:
  assumes "\<And>x r. x \<in> set xs \<Longrightarrow> stops r \<Longrightarrow> item (f x @ r) = Inr (h x, r)" "\<forall>x \<in> set xs. opens (f x)"
    and "close = 93 \<or> close = 125" "list_all json_space g" "xs \<noteq> []" "length xs \<le> n"
  shows "scan_items close item n (commas g (map f xs) @ close # r) = Inr (map h xs, r)"
  using assms(1,2,5,6)
proof (induction xs arbitrary: n)
  case (Cons x xs)
  obtain k where k: "n = Suc k" "length xs \<le> k" using Cons.prems(4) by (cases n) auto
  have close: "stops (close # r)" "skip_ws (close # r) = close # r"
    using assms(3) skip_stop [of close r] by (auto simp: stops_def)
  show ?case
  proof (cases xs)
    case Nil
    then show ?thesis
      using Cons.prems(1) [of x "close # r"] close by (simp add: k(1))
  next
    case (Cons y ys)
    let ?t = "commas g (map f xs) @ close # r"
    have "scan_items close item k ?t = Inr (map h xs, r)"
      using Cons.prems Cons k(2) by (intro Cons.IH) simp_all
    moreover have "skip_ws (g @ ?t) = ?t"
    proof -
      obtain u where "commas g (map f xs) = f y @ u" by (cases ys) (auto simp: Cons)
      then show ?thesis using skip_gap [OF assms(4), of "f y" "u @ close # r"] Cons.prems(2) Cons by simp
    qed
    moreover have "item (f x @ 44 # g @ ?t) = Inr (h x, 44 # g @ ?t)"
      using Cons.prems(1) by (simp add: stops_def)
    moreover have "commas g (map f (x # xs)) @ close # r = f x @ 44 # g @ ?t" by (simp add: Cons)
    moreover have "skip_ws (44 # g @ ?t) = 44 # g @ ?t" by (rule skip_stop) simp
    ultimately show ?thesis using assms(3) by (auto simp: k(1))
  qed
qed simp

lemma scan_seq_commas:
  assumes "\<And>x r. x \<in> set xs \<Longrightarrow> stops r \<Longrightarrow> item (f x @ r) = Inr (h x, r)" "\<forall>x \<in> set xs. opens (f x)"
    and "close = 93 \<or> close = 125" "list_all json_space g"
  shows "scan_seq close item (commas g (map f xs) @ close # r) = Inr (map h xs, r)"
proof (cases xs)
  case Nil
  then show ?thesis using assms(3) skip_stop [of close r] by (auto simp: scan_seq_def)
next
  case (Cons y ys)
  let ?s = "commas g (map f xs) @ close # r"
  obtain u where u: "commas g (map f xs) = f y @ u" by (cases ys) (auto simp: Cons)
  have o: "opens (f y)" using assms(2) Cons by simp
  then obtain c cs where c: "?s = c # cs" "c \<noteq> close"
    using opens_simps(3,4) [of "f y" "u @ close # r"] assms(3) by (cases ?s) (auto simp: u)
  have "skip_ws ?s = ?s" using opens_simps(2) [OF o, of "u @ close # r"] by (simp add: u)
  moreover have "length xs \<le> length ?s" using commas_length [of "map f xs" g] assms(2) by simp
  moreover have "xs \<noteq> []" by (simp add: Cons)
  ultimately show ?thesis
    using scan_items_commas [OF assms, of "length ?s" r] c by (simp add: scan_seq_def)
qed

lemma opens_quote: "opens (quote s @ t)"
  by (simp add: opens_def quote_def json_space_def)

lemma opens_json_text: "printable v \<Longrightarrow> opens (json_text g v)"
proof (cases v)
  case (JInt i)
  obtain c cs where c: "str (show_nat (nat \<bar>i\<bar>)) = c # cs" "48 \<le> c" "c \<le> 57"
    using show_nat_ascii [of _ "nat \<bar>i\<bar>"] show_nat_nonempty [of "nat \<bar>i\<bar>"]
    by (cases "str (show_nat (nat \<bar>i\<bar>))") auto
  then have "text_of_int i = (if i < 0 then 45 # c # cs else c # cs)"
    by (auto simp: text_of_int_def show_int_def str_def)
  with JInt c show ?thesis by (auto simp: opens_def json_space_def)
qed (use opens_quote [of _ "[]"] in \<open>auto simp: opens_def json_space_def str_def\<close>)

lemma scan_member_text:
  assumes "list_all scalar k" "val (t @ r) = Inr (v, r)" "opens t" "list_all json_space g"
  shows "scan_member val ((quote k @ [58] @ g @ t) @ r) = Inr ((k, v), r)"
  using assms skip_stop [of 58 "g @ t @ r"] skip_gap [OF assms(4,3)]
  by (simp add: scan_member_def quote_def scan_string_quote)

lemma foldr_max_le: "foldr max ns 0 \<le> (k :: nat) \<longleftrightarrow> (\<forall>n \<in> set ns. n \<le> k)"
  by (induction ns) auto

text \<open>Writing a value and reading it back, whatever may follow.\<close>

lemma scan_value_text:
  assumes "printable v" "json_depth v \<le> d" "list_all json_space g" "stops r"
  shows "scan_value D d (json_text g v @ r) = Inr (v, r)"
  using assms(1,2,4)
proof (induction v arbitrary: d r)
  case (JInt i)
  obtain c cs where c: "text_of_int i = c # cs" "c = 45 \<or> 48 \<le> c \<and> c \<le> 57"
    using opens_json_text [OF JInt.prems(1), of g] text_of_int_ascii [of _ i]
    by (cases "text_of_int i") (auto simp: opens_def)
  have "take 9 (c # cs @ r) \<noteq> str ''-Infinity''"
  proof (cases cs)
    case Nil
    with JInt.prems(3) show ?thesis by (auto simp: stops_def str_def split: list.splits)
  next
    case (Cons d ds)
    then have "d \<noteq> 73" using text_of_int_ascii [of d i] c(1) by auto
    with Cons show ?thesis by (simp add: str_def)
  qed
  moreover have "scan_number D (c # cs @ r) = Inr (JInt i, r)"
    using scan_number_int [of i r D] JInt.prems c(1) by simp
  moreover have "c \<notin> {34, 123, 91, 110, 116, 102, 78, 73}" using c(2) by auto
  ultimately show ?case using c(1) by (simp add: scan_scalar_def str_def)
next
  case (JStr s)
  then show ?case by (simp add: quote_def scan_string_quote)
next
  case (JArr vs)
  then obtain k where k: "d = Suc k" "\<forall>v \<in> set vs. json_depth v \<le> k" by (cases d) (auto simp: foldr_max_le)
  have "scan_seq 93 (scan_value D k) (commas g (map (json_text g) vs) @ 93 # r) = Inr (map id vs, r)"
  proof (rule scan_seq_commas)
    show "scan_value D k (json_text g x @ r) = Inr (id x, r)" if "x \<in> set vs" "stops r" for x r
      using JArr.IH [OF that(1) _ _ that(2), of k] JArr.prems(1) k(2) that(1) by (simp add: list_all_iff)
    show "\<forall>x \<in> set vs. opens (json_text g x)"
      using JArr.prems(1) opens_json_text by (simp add: list_all_iff)
  qed (use assms(3) in simp_all)
  then show ?case by (simp add: k(1) scan_array_def)
next
  case (JObj kvs)
  then obtain k where k: "d = Suc k" "\<forall>kv \<in> set kvs. json_depth (snd kv) \<le> k"
    by (cases d) (auto simp: foldr_max_le)
  let ?f = "\<lambda>kv. quote (fst kv) @ [58] @ g @ json_text g (snd kv)"
  have p: "list_all scalar (fst kv)" "printable (snd kv)" if "kv \<in> set kvs" for kv
    using JObj.prems(1) that by (cases kv; fastforce simp: list_all_iff)+
  have "scan_seq 125 (scan_member (scan_value D k)) (commas g (map ?f kvs) @ 125 # r) = Inr (map id kvs, r)"
  proof (rule scan_seq_commas)
    show "scan_member (scan_value D k) (?f x @ r) = Inr (id x, r)" if x: "x \<in> set kvs" "stops r" for x r
    proof -
      have "snd x \<in> Basic_BNFs.snds x" by (cases x) (simp add: prod_set_defs)
      then have "scan_value D k (json_text g (snd x) @ r) = Inr (snd x, r)"
        using JObj.IH [OF x(1) _ p(2) [OF x(1)] _ x(2), of k] k(2) x(1) by simp
      from scan_member_text [where val = "scan_value D k" and r = r, OF p(1) [OF x(1)] this opens_json_text [OF p(2) [OF x(1)], of g] assms(3)] show ?thesis by simp
    qed
    show "\<forall>x \<in> set kvs. opens (?f x)" using opens_quote by simp
  qed (use assms(3) in simp_all)
  moreover have e: "map (\<lambda>(k, t). quote k @ [58] @ g @ t) (map (map_prod id (json_text g)) kvs) = map ?f kvs" by auto
  have "json_text g (JObj kvs) @ r = 123 # commas g (map ?f kvs) @ 125 # r" unfolding json_text.simps e by simp
  ultimately show ?case by (simp add: k(1) scan_object_def del: json_text.simps)
qed (auto simp: scan_scalar_def str_def)

section \<open>\<^emph>\<open>json.loads\<close> after \<^emph>\<open>json.dumps\<close>\<close>

lemma hex_char_ascii: "0 < hex_char (n mod 16) \<and> hex_char (n mod 16) < 128"
proof -
  have "n mod 16 < 16" by simp
  then show ?thesis unfolding hex_char_def by (simp only: split: if_splits) linarith
qed

lemma escape_char_ascii: "list_all (\<lambda>x. 0 < x \<and> x < 128) (escape_char k)"
proof -
  have h: "list_all (\<lambda>x. 0 < x \<and> x < 128) (hex4_text n)" for n
    using hex_char_ascii by (simp add: hex4_text_def)
  show ?thesis
  proof (cases "plain_char k")
    case True
    then show ?thesis by (simp add: escape_char_def plain_char_def)
  next
    case False
    then show ?thesis by (simp add: escape_char_def h)
  qed
qed

lemma quote_ascii: "c \<in> set (quote s) \<Longrightarrow> 0 < c \<and> c < 128"
  using escape_char_ascii by (fastforce simp: quote_def list_all_iff)

lemma commas_set: "set (commas g ts) \<subseteq> {44} \<union> set g \<union> (\<Union>t \<in> set ts. set t)"
  by (induction g ts rule: commas.induct) auto

lemma json_text_ascii:
  assumes "printable v" "list_all json_space g" "c \<in> set (json_text g v)"
  shows "0 < c \<and> c < 128"
  using assms(1,3)
proof (induction v)
  case (JInt i)
  then show ?case using text_of_int_ascii [of c i] by auto
next
  case (JStr s)
  then show ?case using quote_ascii by simp
next
  case (JArr vs)
  have g: "0 < x \<and> x < 128" if "x \<in> set g" for x using assms(2) that by (auto simp: list_all_iff json_space_def)
  from JArr.prems(2) consider "c \<in> {91, 93, 44}" | "c \<in> set g" | v where "v \<in> set vs" "c \<in> set (json_text g v)"
    using commas_set [of g "map (json_text g) vs"] by auto
  then show ?case using g JArr.IH JArr.prems(1) by cases (auto simp: list_all_iff)
next
  case (JObj kvs)
  have g: "0 < x \<and> x < 128" if "x \<in> set g" for x using assms(2) that by (auto simp: list_all_iff json_space_def)
  from JObj.prems(2) consider "c \<in> {123, 125, 44, 58}" | "c \<in> set g"
    | k v where "(k, v) \<in> set kvs" "c \<in> set (quote k) \<or> c \<in> set (json_text g v)"
    using commas_set [of g "map (\<lambda>(k, t). quote k @ [58] @ g @ t) (map (map_prod id (json_text g)) kvs)"] by auto
  then show ?case
  proof cases
    case 3
    then show ?thesis
      using quote_ascii JObj.IH [OF 3(1), of v] JObj.prems(1) by (auto simp: list_all_iff prod_set_defs)
  qed (use g in auto)
qed (auto simp: str_def split: if_splits)

lemma json_of_text_text:
  assumes "printable v" "json_depth v \<le> nesting D" "list_all json_space g"
  shows "json_of_text D (json_text g v) = Inr v"
proof -
  have o: "opens (json_text g v)" by (rule opens_json_text [OF assms(1)])
  then have "hd (json_text g v) \<in> set (json_text g v)" using opens_simps(1) hd_in_set by blast
  with json_text_ascii [OF assms(1,3)] have "hd (json_text g v) \<noteq> 0xFEFF" by fastforce
  moreover have "stops []" by (simp add: stops_def)
  ultimately show ?thesis
    using scan_value_text [OF assms, of "[]" D] opens_simps(2) [OF o, of "[]"] by (simp add: json_of_text_def)
qed

lemma utf8_pass_ascii: "\<forall>c \<in> set s. c < 128 \<Longrightarrow> utf8_pass s = Inr s"
proof (induction s)
  case Nil
  then show ?case by (simp add: utf8_pass.simps)
next
  case (Cons c s)
  then have "scalar c" "utf8_char c = [c]" by (auto simp: scalar_def utf8_char_def)
  with utf8_next_char [of c s] have "pass_next (c # s) = Some (c, 1)" by (simp add: pass_next_def)
  with Cons show ?case by (subst utf8_pass.simps) simp
qed

lemma detect_ascii:
  assumes "\<forall>c \<in> set b. 0 < unat c \<and> unat c < 128"
  shows "detect_encoding b = ''utf-8''"
proof -
  have nz: "c \<noteq> 0" "c \<noteq> 0xFE" "c \<noteq> 0xFF" "c \<noteq> 0xEF" if "c \<in> set b" for c
    using bspec [OF assms that] by auto
  then have "b ! 0 \<noteq> 0 \<and> b ! 1 \<noteq> 0" if "2 \<le> length b" using that by (metis Suc_1 Suc_le_lessD nth_mem One_nat_def less_trans_Suc lessI Suc_lessD)
  moreover have "take k b \<noteq> x # xs" if "x \<in> {0, 0xFE, 0xFF, 0xEF}" for k x xs
    using nz [of x] that by (metis in_set_takeD insertE list.set_intros(1) singletonD)
  ultimately show ?thesis by (simp add: detect_encoding_def)
qed

lemma json_loads_text:
  assumes "printable v" "json_depth v \<le> nesting D" "list_all json_space g"
  shows "json_loads D (map of_nat (json_text g v)) = Inr v"
proof -
  note ascii = json_text_ascii [OF assms(1,3)]
  have u: "map unat (map of_nat (json_text g v) :: bytes) = json_text g v"
    using ascii by (intro map_unat_of_nat) fastforce
  then have "\<forall>c \<in> set (map of_nat (json_text g v) :: bytes). 0 < unat c \<and> unat c < 128"
    using ascii by (metis (no_types, lifting) imageI list.set_map)
  from detect_ascii [OF this] u utf8_pass_ascii [of "json_text g v"] ascii json_of_text_text [OF assms]
  show ?thesis by (simp add: json_loads_def del: map_map)
qed

text \<open>Tables and readers that know nothing beyond ASCII and no number but the integers.\<close>

definition demo_decoders :: decoders where
  "demo_decoders = \<lparr> wide_text = (\<lambda>e b. Inl UnicodeError), to_double = (\<lambda>s. None), nesting = 900,
     unicode_tables = ascii_unicode \<rparr>"

end
