(* ===== verification/Attestation.thy ===== *)
theory Attestation
  imports Gate Checks Base64 Json_Print
begin

text \<open>
  \<^emph>\<open>pipeline/attestation_check.py\<close> (step 7): the cache of ticket-bound tokens, from the text of a
  token on: what \<^emph>\<open>add_token\<close> reads in it, the exceptions it converts and those it lets through.
\<close>

section \<open>JSON values\<close>

text \<open>\<^emph>\<open>obj.get(key)\<close> of a dict (the last of duplicate keys wins); not a dict has no \<^emph>\<open>get\<close>.\<close>

fun json_get :: "json \<Rightarrow> pystr \<Rightarrow> json res" where
  "json_get (JObj kvs) k = (case map_of (rev kvs) k of None \<Rightarrow> Inr JNull | Some v \<Rightarrow> Inr v)"
| "json_get _ k = Inl AttributeError"

text \<open>\<^emph>\<open>obj[key]\<close> with a text key: lists, texts and scalars raise \<^emph>\<open>TypeError\<close>.\<close>

fun json_index :: "json \<Rightarrow> pystr \<Rightarrow> json res" where
  "json_index (JObj kvs) k = (case map_of (rev kvs) k of None \<Rightarrow> Inl KeyError | Some v \<Rightarrow> Inr v)"
| "json_index _ k = Inl TypeError"

fun json_fromhex :: "json \<Rightarrow> bytes res" where
  "json_fromhex (JStr s) = from_hex s"
| "json_fromhex _ = Inl TypeError"

text \<open>\<^emph>\<open>int(v)\<close> of a JSON value.\<close>

fun json_int :: "decoders \<Rightarrow> json \<Rightarrow> int res" where
  "json_int D (JInt i) = Inr i"
| "json_int D (JBool b) = Inr (if b then 1 else 0)"
| "json_int D (JFloat x) = Inr (py_int x)"
| "json_int D JInfinity = Inl OverflowError"
| "json_int D JNaN = Inl (ValueError ''cannot convert float NaN to integer'')"
| "json_int D (JStr s) = int_of_text (unicode_tables D) 10 s"
| "json_int D _ = Inl TypeError"

section \<open>The cache\<close>

record attestation_cache =
  verify_key :: bytes
  event_id :: pystr
  expiry :: "bytes \<rightharpoonup> int"

definition new_attestation :: "crypto \<Rightarrow> bytes \<Rightarrow> pystr \<Rightarrow> attestation_cache res" where
  "new_attestation C organiser_key eid =
     res_bind (ed_key C organiser_key)
       (\<lambda>k. Inr \<lparr> verify_key = k, event_id = eid, expiry = Map.empty \<rparr>)"

text \<open>\<^emph>\<open>part + "=" * (-len(part) % 4)\<close>, decoded.\<close>

definition b64url_decode :: "pystr \<Rightarrow> bytes res" where
  "b64url_decode part = urlsafe_b64decode (part @ b64_pad (length part))"

lemma b64url_decode_encode [simp]: "b64url_decode (b64url_encode bs) = Inr bs"
  by (simp add: b64url_decode_def b64_roundtrip)

text \<open>The body of the \<^emph>\<open>try\<close>: the sender key, the event and the expiry the token claims.\<close>

definition read_token ::
    "crypto \<Rightarrow> decoders \<Rightarrow> bytes \<Rightarrow> pystr \<Rightarrow> (bytes \<times> json \<times> int) res" where
  "read_token C D vk token =
     (case split_on 46 token of
        [header_b64, payload_b64, sig_b64] \<Rightarrow>
          res_bind (encode_ascii (header_b64 @ [46] @ payload_b64)) (\<lambda>signed.
          res_bind (b64url_decode sig_b64) (\<lambda>sig.
          res_bind (ed_verify C vk signed sig) (\<lambda>_.
          res_bind (res_bind (b64url_decode header_b64) (json_loads D)) (\<lambda>header.
          res_bind (res_bind (b64url_decode payload_b64) (json_loads D)) (\<lambda>claims.
          res_bind (json_get header (str ''alg'')) (\<lambda>alg.
          if alg \<noteq> JStr (str ''EdDSA'') then Inl (ValueError ''unsupported alg'')
          else
            res_bind (res_bind (json_index claims (str ''sub'')) json_fromhex) (\<lambda>skey.
            res_bind (json_index claims (str ''eid'')) (\<lambda>eid.
            res_bind (res_bind (json_index claims (str ''exp'')) (json_int D)) (\<lambda>ex.
            Inr (skey, eid, ex))))))))))
      | _ \<Rightarrow> Inl (ValueError ''unpack''))"

definition add_token ::
    "crypto \<Rightarrow> decoders \<Rightarrow> time \<times> pystr \<Rightarrow> attestation_cache \<Rightarrow> bytes res \<times> attestation_cache" where
  "add_token C D req cache =
     (case req of (now, token) \<Rightarrow>
      case read_token C D (verify_key cache) token of
        Inl e \<Rightarrow> (Inl (if is_CryptoError e \<or> is_ValueError e \<or> e = KeyError \<or> is_TypeError e
                      then ValueError ''invalid attestation token'' else e), cache)
      | Inr (skey, eid, ex) \<Rightarrow>
          if length skey \<noteq> 32
          then (Inl (ValueError ''invalid attestation token: sub is not a 32-byte key''), cache)
          else if eid \<noteq> JStr (event_id cache)
          then (Inl (ValueError ''invalid attestation token: wrong event''), cache)
          else if ex \<le> py_int now
          then (Inl (ValueError ''invalid attestation token: expired''), cache)
          else (Inr skey, cache\<lparr>expiry := (expiry cache)(skey \<mapsto> ex)\<rparr>))"

definition attestation_check :: "time \<times> bytes \<Rightarrow> attestation_cache \<Rightarrow> reason res \<times> attestation_cache" where
  "attestation_check req cache =
     (case req of (now, skey) \<Rightarrow>
      case expiry cache skey of
        None \<Rightarrow> (Inr (Some ''attestation failed: no valid ticket-bound identity token''), cache)
      | Some ex \<Rightarrow>
          if ex \<le> py_int now
          then (Inr (Some ''attestation failed: token expired''),
                cache\<lparr>expiry := (expiry cache)(skey := None)\<rparr>)
          else (Inr None, cache))"

section \<open>Only validated grants are cached\<close>

text \<open>
  \<open>granted\<close>: some token signed by the organiser key names this sender, this event and this
  expiry. The invariant of the cache is that every entry is granted; it is kept by both
  operations, so a sender passes step 7 only on a grant that has not expired.
\<close>

definition granted :: "crypto \<Rightarrow> decoders \<Rightarrow> attestation_cache \<Rightarrow> bytes \<Rightarrow> int \<Rightarrow> bool" where
  "granted C D cache skey ex \<longleftrightarrow>
     length skey = 32 \<and>
     (\<exists>token. read_token C D (verify_key cache) token = Inr (skey, JStr (event_id cache), ex))"

definition attest_inv :: "crypto \<Rightarrow> decoders \<Rightarrow> attestation_cache \<Rightarrow> bool" where
  "attest_inv C D cache \<longleftrightarrow> (\<forall>k ex. expiry cache k = Some ex \<longrightarrow> granted C D cache k ex)"

lemma read_token_signed:
  assumes "read_token C D vk token = Inr x"
  shows "\<exists>h p s signed sig. split_on 46 token = [h, p, s] \<and>
     encode_ascii (h @ [46] @ p) = Inr signed \<and> b64url_decode s = Inr sig \<and>
     ed_verify C vk signed sig = Inr ()"
  using assms by (auto simp: read_token_def split: list.splits)

lemma granted_cong:
  "verify_key a = verify_key b \<Longrightarrow> event_id a = event_id b \<Longrightarrow> granted C D a = granted C D b"
  by (simp add: granted_def fun_eq_iff)

lemma attestation_check_frame [simp]:
  "verify_key (snd (attestation_check req cache)) = verify_key cache"
  "event_id (snd (attestation_check req cache)) = event_id cache"
  by (auto simp: attestation_check_def split: prod.splits option.splits)

lemma add_token_frame [simp]:
  "verify_key (snd (add_token C D req cache)) = verify_key cache"
  "event_id (snd (add_token C D req cache)) = event_id cache"
  by (auto simp: add_token_def split: prod.splits sum.splits)

lemma add_token_expiry:
  "expiry (snd (add_token C D req cache)) k = Some ex \<Longrightarrow>
   expiry cache k = Some ex \<or> granted C D cache k ex"
  by (auto simp: add_token_def granted_def split: prod.splits sum.splits if_splits)

lemma attestation_check_expiry:
  "expiry (snd (attestation_check req cache)) k = Some ex \<Longrightarrow> expiry cache k = Some ex"
  by (auto simp: attestation_check_def split: prod.splits option.splits if_splits)

lemma add_token_inv: "attest_inv C D cache \<Longrightarrow> attest_inv C D (snd (add_token C D req cache))"
  unfolding attest_inv_def
  by (metis add_token_expiry granted_cong add_token_frame)

interpretation attestation: gate attestation_check "attest_inv C D" for C D
proof
  fix s :: attestation_cache and req :: "time \<times> bytes"
  show "attest_inv C D s \<Longrightarrow> attest_inv C D (snd (attestation_check req s))"
    unfolding attest_inv_def by (metis attestation_check_expiry granted_cong attestation_check_frame)
  show "returns (fst (attestation_check req s))"
    by (auto simp: attestation_check_def split: prod.splits option.splits)
qed

lemma attestation_pass:
  "fst (attestation_check (now, k) cache) = Inr None \<longleftrightarrow> (\<exists>ex. expiry cache k = Some ex \<and> py_int now < ex)"
  by (auto simp: attestation_check_def split: option.splits)

lemma attestation_pass_granted:
  assumes "attest_inv C D cache" "fst (attestation_check (now, k) cache) = Inr None"
  shows "\<exists>ex. granted C D cache k ex \<and> py_int now < ex"
  using assms by (auto simp: attestation_pass attest_inv_def)

lemma attestation_truthy:
  "fst (attestation_check req cache) = Inr r \<Longrightarrow> truthy r \<longleftrightarrow> r \<noteq> None"
  by (auto simp: attestation_check_def split: prod.splits option.splits if_splits)

text \<open>A node's life: tokens arrive and packets are checked, in any order.\<close>

datatype attest_op = AddToken time pystr | CheckSender time bytes

fun attest_step :: "crypto \<Rightarrow> decoders \<Rightarrow> attest_op \<Rightarrow> attestation_cache \<Rightarrow> attestation_cache" where
  "attest_step C D (AddToken now token) cache = snd (add_token C D (now, token) cache)"
| "attest_step C D (CheckSender now k) cache = snd (attestation_check (now, k) cache)"

inductive attest_reach :: "crypto \<Rightarrow> decoders \<Rightarrow> attestation_cache \<Rightarrow> bool" for C D where
  attest_start: "new_attestation C ok eid = Inr cache \<Longrightarrow> attest_reach C D cache"
| attest_next: "attest_reach C D cache \<Longrightarrow> attest_reach C D (attest_step C D op cache)"

lemma attest_reach_inv: "attest_reach C D cache \<Longrightarrow> attest_inv C D cache"
proof (induction rule: attest_reach.induct)
  case (attest_start ok eid cache)
  then show ?case by (auto simp: new_attestation_def attest_inv_def)
next
  case (attest_next cache op)
  then show ?case by (cases op) (simp_all add: add_token_inv attestation.keeps)
qed

section \<open>Step 7 as its users see it\<close>

text \<open>
  C23: Step 7 lets a sender through only on a live grant: in every state a cache can reach from a
  new one by adding tokens and checking senders, a sender that passes is named, with the cache's
  event and an expiry still ahead, by a token whose signature verifies under the organiser's key.
\<close>

theorem attestation_sound:
  assumes "attest_reach C D cache" "fst (attestation_check (now, k) cache) = Inr None"
  shows "\<exists>token ex h p s msg sig.
     read_token C D (verify_key cache) token = Inr (k, JStr (event_id cache), ex) \<and>
     length k = 32 \<and> py_int now < ex \<and> split_on 46 token = [h, p, s] \<and>
     encode_ascii (h @ [46] @ p) = Inr msg \<and> b64url_decode s = Inr sig \<and>
     ed_verify C (verify_key cache) msg sig = Inr ()"
proof -
  obtain ex token where ex: "py_int now < ex" "length k = 32"
    "read_token C D (verify_key cache) token = Inr (k, JStr (event_id cache), ex)"
    using attestation_pass_granted [OF attest_reach_inv [OF assms(1)] assms(2)] by (auto simp: granted_def)
  from read_token_signed [OF this(3)] ex show ?thesis by blast
qed

section \<open>What the organiser issues\<close>

text \<open>
  Tokens as the issuer writes them, as a reference: a signed pair of unpadded base64 texts, the
  \<^emph>\<open>sub\<close> claim in lower-case hexadecimal.
\<close>

definition ascii_bytes :: "pystr \<Rightarrow> bytes" where
  "ascii_bytes s = map word_of_nat s"

definition token_of :: "crypto \<Rightarrow> bytes \<Rightarrow> bytes \<Rightarrow> bytes \<Rightarrow> pystr" where
  "token_of C seed hb pb =
     (let m = b64url_encode hb @ [46] @ b64url_encode pb
      in m @ [46] @ b64url_encode (ed_sign C seed (ascii_bytes m)))"

lemma token_of_parts:
  fixes C seed hb pb
  defines "m \<equiv> b64url_encode hb @ [46] @ b64url_encode pb"
  shows "split_on 46 (token_of C seed hb pb) =
       [b64url_encode hb, b64url_encode pb, b64url_encode (ed_sign C seed (ascii_bytes m))]"
    "encode_ascii m = Inr (ascii_bytes m)"
proof -
  have n: "46 \<notin> set (b64url_encode bs)" for bs using b64url_encode_props by blast
  show "split_on 46 (token_of C seed hb pb) =
       [b64url_encode hb, b64url_encode pb, b64url_encode (ed_sign C seed (ascii_bytes m))]"
    by (simp add: token_of_def Let_def m_def split_on_app split_on_none n)
  show "encode_ascii m = Inr (ascii_bytes m)"
    using b64url_encode_props by (auto simp: encode_ascii_def ascii_bytes_def m_def list_all_iff)
qed

text \<open>What the cache reads in an issued token, whatever the two texts hold.\<close>

lemma read_token_of:
  assumes "ed25519_ok C"
  shows "read_token C D (ed_pub C seed) (token_of C seed hb pb) =
     res_bind (json_loads D hb) (\<lambda>header.
     res_bind (json_loads D pb) (\<lambda>claims.
     res_bind (json_get header (str ''alg'')) (\<lambda>alg.
     if alg \<noteq> JStr (str ''EdDSA'') then Inl (ValueError ''unsupported alg'')
     else
       res_bind (res_bind (json_index claims (str ''sub'')) json_fromhex) (\<lambda>skey.
       res_bind (json_index claims (str ''eid'')) (\<lambda>eid.
       res_bind (res_bind (json_index claims (str ''exp'')) (json_int D)) (\<lambda>ex.
       Inr (skey, eid, ex)))))))"
  using token_of_parts(2) [of hb pb] ed25519_okD [OF assms]
  by (simp add: read_token_def token_of_parts(1) del: res_bind_eq_Inr)

text \<open>A JSON value as the bytes of its text, with white space \<open>g\<close> after the separators.\<close>

definition json_bytes :: "pystr \<Rightarrow> json \<Rightarrow> bytes" where
  "json_bytes g v = map word_of_nat (json_text g v)"

text \<open>
  C24: Honest ticket holders get through step 7: a token the organiser signs, its two JSON texts
  printed with or without blanks, the header naming EdDSA, the claims the holder's key in hexadecimal,
  this event and an expiry still ahead, is accepted by \<^emph>\<open>add_token\<close>, and from then on the holder
  passes the check until the expiry.
\<close>

theorem issued_token_admits:
  assumes "ed25519_ok C" "verify_key cache = ed_pub C seed" "length k = 32" "list_all json_space g"
    and "printable header" "json_depth header \<le> nesting D" "printable claims" "json_depth claims \<le> nesting D"
    and "json_get header (str ''alg'') = Inr (JStr (str ''EdDSA''))"
    and "json_index claims (str ''sub'') = Inr (JStr (to_hex k))"
    and "json_index claims (str ''eid'') = Inr (JStr (event_id cache))"
    and "json_index claims (str ''exp'') = Inr (JInt ex)" "py_int now < ex"
  shows "\<exists>cache'. add_token C D (now, token_of C seed (json_bytes g header) (json_bytes g claims)) cache = (Inr k, cache') \<and>
    (fst (attestation_check (later, k) cache') = Inr None \<longleftrightarrow> py_int later < ex)"
proof -
  have "json_loads D (json_bytes g header) = Inr header" "json_loads D (json_bytes g claims) = Inr claims"
    unfolding json_bytes_def by (intro json_loads_text assms)+
  then have "read_token C D (verify_key cache) (token_of C seed (json_bytes g header) (json_bytes g claims)) =
      Inr (k, JStr (event_id cache), ex)"
    unfolding assms(2) read_token_of [OF assms(1)] using assms by (simp del: res_bind_eq_Inr)
  then show ?thesis using assms(3,13) by (simp add: add_token_def attestation_pass)
qed

text \<open>A header, claims, tokens made of them, and an empty cache.\<close>

definition demo_header :: json where
  "demo_header = JObj [(str ''alg'', JStr (str ''EdDSA'')), (str ''typ'', JStr (str ''JWT''))]"

definition demo_claims :: json where
  "demo_claims = JObj [(str ''sub'', JStr (to_hex (replicate 32 10))), (str ''eid'', JStr [101]), (str ''exp'', JInt 5000)]"

definition demo_token :: "json \<Rightarrow> pystr" where
  "demo_token header = token_of toy_crypto (replicate 32 1) (json_bytes [] header) (json_bytes [] demo_claims)"

definition demo_cache :: attestation_cache where
  "demo_cache = \<lparr> verify_key = replicate 32 1, event_id = [101], expiry = Map.empty \<rparr>"

lemma printable_int: "\<bar>i\<bar> < 2 ^ 64 \<Longrightarrow> printable (JInt i)"
proof -
  assume "\<bar>i\<bar> < 2 ^ 64"
  also have "(2 :: int) ^ 64 \<le> 10 ^ 64" by (rule power_mono) simp_all
  also have "(10 :: int) ^ 64 \<le> 10 ^ MAX_STR_DIGITS"
    by (rule power_increasing) (simp_all add: MAX_STR_DIGITS_def)
  finally show ?thesis by simp
qed

lemma to_hex_scalar: "list_all scalar (to_hex bs)"
proof (induction bs)
  case (Cons b bs)
  have "unat b < 256" using unsigned_less [of b] by simp
  then have "scalar (hex_char (unat b div 16))" "scalar (hex_char (unat b mod 16))"
    by (auto simp: hex_char_def scalar_def)
  with Cons show ?case by simp
qed simp

lemma demo_json:
  "printable demo_header" "json_depth demo_header \<le> nesting demo_decoders"
  "printable demo_claims" "json_depth demo_claims \<le> nesting demo_decoders"
  "json_get demo_header (str ''alg'') = Inr (JStr (str ''EdDSA''))"
  "json_index demo_claims (str ''sub'') = Inr (JStr (to_hex (replicate 32 10)))"
  "json_index demo_claims (str ''eid'') = Inr (JStr [101])"
  "json_index demo_claims (str ''exp'') = Inr (JInt 5000)"
  using printable_int [of 5000] to_hex_scalar
  by (simp_all add: demo_header_def demo_claims_def demo_decoders_def str_def scalar_def)

lemma demo_json_loads:
  "json_loads demo_decoders (json_bytes [] demo_header) = Inr demo_header"
  "json_loads demo_decoders (json_bytes [] demo_claims) = Inr demo_claims"
  unfolding json_bytes_def by (intro json_loads_text demo_json; simp)+

lemma demo_pub [simp]: "ed_pub toy_crypto (replicate 32 1) = replicate 32 1"
  by (simp add: toy_crypto_def)

lemma demo_cache_new: "new_attestation toy_crypto (replicate 32 1) [101] = Inr demo_cache"
  by (simp add: new_attestation_def toy_crypto_def demo_cache_def)

lemma demo_token_read:
  "read_token toy_crypto demo_decoders (replicate 32 1) (demo_token demo_header) = Inr (replicate 32 10, JStr [101], 5000)"
  using read_token_of [OF toy_ed25519_ok, of demo_decoders "replicate 32 1" "json_bytes [] demo_header" "json_bytes [] demo_claims"]
  by (simp add: demo_token_def demo_json_loads demo_json del: res_bind_eq_Inr)

lemma demo_cache_add:
  "add_token toy_crypto demo_decoders (1000, demo_token demo_header) demo_cache =
     (Inr (replicate 32 10), demo_cache\<lparr>expiry := [replicate 32 10 \<mapsto> 5000]\<rparr>)"
  using demo_token_read by (simp add: add_token_def demo_cache_def)

theorem attestation_sound_witness:
  "\<exists>cache token ex. fst (attestation_check (2000, replicate 32 10) cache) = Inr None \<and>
     read_token toy_crypto demo_decoders (verify_key cache) token = Inr (replicate 32 10, JStr (event_id cache), ex) \<and>
     2000 < ex"
proof -
  let ?c = "demo_cache\<lparr>expiry := [replicate 32 10 \<mapsto> 5000]\<rparr>"
  have r: "attest_reach toy_crypto demo_decoders ?c"
    using attest_next [OF attest_start [OF demo_cache_new], of demo_decoders "AddToken 1000 (demo_token demo_header)"]
    unfolding attest_step.simps demo_cache_add by simp
  have p: "fst (attestation_check (2000, replicate 32 10) ?c) = Inr None"
    by (simp add: attestation_check_def)
  from attestation_sound [OF r p] p show ?thesis by fastforce
qed

theorem issued_token_admits_witness:
  "\<exists>cache. add_token toy_crypto demo_decoders (1000, demo_token demo_header) demo_cache = (Inr (replicate 32 10), cache) \<and>
     fst (attestation_check (4999, replicate 32 10) cache) = Inr None"
  using issued_token_admits [OF toy_ed25519_ok, of demo_cache "replicate 32 1" "replicate 32 10" "[]" demo_header
      demo_decoders demo_claims 5000 1000 4999] demo_json
  by (simp add: demo_token_def demo_cache_def)

text \<open>
  A refused token changes nothing: when \<open>add_token\<close> raises, the cache is as before, and when it
  returns, the only new entry is the returned sender with an expiry still ahead.
\<close>

lemma add_token_effect:
  "case add_token C D (now, token) cache of
     (Inl e, cache') \<Rightarrow> cache' = cache
   | (Inr k, cache') \<Rightarrow> \<exists>ex. cache' = cache\<lparr>expiry := (expiry cache)(k \<mapsto> ex)\<rparr> \<and> py_int now < ex \<and> length k = 32 \<and>
       read_token C D (verify_key cache) token = Inr (k, JStr (event_id cache), ex)"
  by (auto simp: add_token_def split: prod.splits sum.splits)

text \<open>
  The promise of \<^emph>\<open>ValueError\<close> for a malformed token has a gap: any token the organiser's
  key signed whose header is JSON but no object makes \<^emph>\<open>add_token\<close> raise \<^emph>\<open>AttributeError\<close>.
\<close>

lemma add_token_header_escapes:
  assumes "ed25519_ok C" "verify_key cache = ed_pub C seed"
    and "json_loads D hb = Inr header" "\<nexists>kvs. header = JObj kvs" "json_loads D pb = Inr claims"
  shows "add_token C D (now, token_of C seed hb pb) cache = (Inl AttributeError, cache)"
proof -
  have "json_get header (str ''alg'') = Inl AttributeError" using assms(4) by (cases header) auto
  then have "read_token C D (verify_key cache) (token_of C seed hb pb) = Inl AttributeError"
    unfolding assms(2) read_token_of [OF assms(1)] using assms(3,5) by simp
  then show ?thesis by (simp add: add_token_def)
qed

lemma add_token_header_escapes_witness:
  "add_token toy_crypto demo_decoders (1000, demo_token (JArr [])) demo_cache = (Inl AttributeError, demo_cache)"
  unfolding demo_token_def
proof (rule add_token_header_escapes [OF toy_ed25519_ok])
  show "json_loads demo_decoders (json_bytes [] (JArr [])) = Inr (JArr [])"
    unfolding json_bytes_def by (rule json_loads_text) (simp_all add: demo_decoders_def)
qed (simp_all add: demo_cache_def demo_json_loads)

text \<open>
  Nor are brackets counted: a signed header of more opening brackets than the interpreter has stack for
  makes \<^emph>\<open>add_token\<close> raise \<^emph>\<open>RecursionError\<close>.
\<close>

lemma scan_value_nested: "scan_value D n (91 # replicate n 91) = Inl RecursionError"
proof (induction n)
  case (Suc n)
  have "skip_ws (91 # replicate n 91) = 91 # replicate n 91" by (simp add: json_space_def)
  with Suc show ?case by (simp add: scan_array_def scan_seq_def)
qed simp

lemma add_token_nesting_escapes:
  assumes "ed25519_ok C" "verify_key cache = ed_pub C seed" "json_loads D pb = Inr claims"
  shows "add_token C D (now, token_of C seed (91 # replicate (nesting D) 91) pb) cache = (Inl RecursionError, cache)"
proof -
  have u: "map unat (91 # replicate (nesting D) 91 :: bytes) = 91 # replicate (nesting D) 91" by simp
  have "detect_encoding (91 # replicate (nesting D) 91) = ''utf-8''" by (rule detect_ascii) auto
  moreover have "utf8_pass (91 # replicate (nesting D) 91) = Inr (91 # replicate (nesting D) 91)"
    by (rule utf8_pass_ascii) auto
  moreover have "json_of_text D (91 # replicate (nesting D) 91) = Inl RecursionError"
    using scan_value_nested [of D "nesting D"] by (simp add: json_of_text_def json_space_def)
  ultimately have "json_loads D (91 # replicate (nesting D) 91) = Inl RecursionError"
    unfolding json_loads_def u by (simp add: Let_def)
  then have "read_token C D (verify_key cache) (token_of C seed (91 # replicate (nesting D) 91) pb) = Inl RecursionError"
    unfolding assms(2) read_token_of [OF assms(1)] by simp
  then show ?thesis by (simp add: add_token_def)
qed

end
