(* ===== verification/Spray.thy ===== *)
theory Spray
  imports Gate Checks "HOL-Library.Multiset"
begin

text \<open>
  \<^emph>\<open>routing/spray_and_wait.py\<close>: the binary split of the copy budget, the wait phase and the
  tracker that refuses a packet presented with a larger budget than first observed.
\<close>

section \<open>The binary split\<close>

record spray_copies =
  copies_forward :: int
  copies_keep :: int

definition split_copies :: "int \<Rightarrow> spray_copies" where
  "split_copies l =
     (if l \<le> 0 then \<lparr> copies_forward = 0, copies_keep = 0 \<rparr>
      else let f = l div 2; k = l - f in \<lparr> copies_forward = f, copies_keep = k \<rparr>)"

definition is_wait_phase :: "int \<Rightarrow> bool" where
  "is_wait_phase l \<longleftrightarrow> l \<le> 1"

lemma split_copies_zero: "copies_forward (split_copies l) = 0 \<longleftrightarrow> is_wait_phase l"
  by (auto simp: split_copies_def is_wait_phase_def Let_def)

lemma split_copies_forward: "copies_forward (split_copies l) = max 0 l div 2"
  by (auto simp: split_copies_def Let_def)

text \<open>
  The split conserves the budget, gives the peer the smaller half, and two copies differ by
  at most one.
\<close>

lemma split_copies_spec:
  "copies_forward (split_copies l) + copies_keep (split_copies l) = max 0 l"
  "0 \<le> copies_forward (split_copies l)"
  "copies_forward (split_copies l) \<le> copies_keep (split_copies l)"
  "copies_keep (split_copies l) \<le> copies_forward (split_copies l) + 1"
  by (auto simp: split_copies_def Let_def)

section \<open>The budget tracker\<close>

record spray_tracker =
  expected :: "bytes \<rightharpoonup> int"

definition new_tracker :: spray_tracker where
  "new_tracker = \<lparr> expected = Map.empty \<rparr>"

definition spray_check :: "bytes \<times> int \<Rightarrow> spray_tracker \<Rightarrow> reason res \<times> spray_tracker" where
  "spray_check req tr =
     (case req of (mid, observed) \<Rightarrow>
      case expected tr mid of
        None \<Rightarrow> (Inr None, tr\<lparr>expected := (expected tr)(mid \<mapsto> observed)\<rparr>)
      | Some e \<Rightarrow>
          if observed > e
          then (Inr (Some (''spray_L inflated: expected <= '' @ show_int e @ '', got '' @ show_int observed)), tr)
          else (Inr None, tr))"

lemma spray_check_fst:
  "fst (spray_check (mid, l) tr) = Inr r \<Longrightarrow>
   truthy r \<longleftrightarrow> (\<exists>e. expected tr mid = Some e \<and> l > e)"
  by (auto simp: spray_check_def split: option.splits if_splits)

text \<open>Once a budget is recorded for a message it never changes.\<close>

definition tracks :: "(bytes \<rightharpoonup> int) \<Rightarrow> spray_tracker \<Rightarrow> bool" where
  "tracks m tr \<longleftrightarrow> m \<subseteq>\<^sub>m expected tr"

lemma spray_check_tracks: "tracks m tr \<Longrightarrow> tracks m (snd (spray_check req tr))"
  by (auto simp: tracks_def map_le_def dom_def spray_check_def split: prod.splits option.splits)

interpretation spray: gate spray_check "tracks m" for m
proof
  fix s :: spray_tracker and req
  show "tracks m s \<Longrightarrow> tracks m (snd (spray_check req s))" by (rule spray_check_tracks)
  show "returns (fst (spray_check req s))"
    by (auto simp: spray_check_def split: prod.splits option.splits)
qed

lemma spray_check_records:
  "fst (spray_check (mid, l) tr) = Inr None \<Longrightarrow>
   \<exists>e. expected (snd (spray_check (mid, l) tr)) mid = Some e \<and> l \<le> e \<and>
       (expected tr mid = None \<longrightarrow> e = l)"
  by (auto simp: spray_check_def split: option.splits if_splits)

lemma spray_first_sight:
  assumes "expected tr mid = None"
  shows "spray_check (mid, l) tr = (Inr None, tr\<lparr>expected := (expected tr)(mid \<mapsto> l)\<rparr>)"
  using assms by (simp add: spray_check_def)

text \<open>
  First sight fixes the ceiling: a message presented later with a larger copy budget than
  at its first sight is refused, however many other packets were checked in between.
\<close>

lemma spray_ceiling:
  assumes "expected tr mid = None" "l' > l"
  shows "\<exists>t. fst (spray_check (mid, l') (snd (run_checks spray_check reqs (snd (spray_check (mid, l) tr))))) = Inr (Some t)"
proof -
  have "tracks [mid \<mapsto> l] (snd (spray_check (mid, l) tr))"
    using assms(1) by (simp add: spray_first_sight tracks_def map_le_def)
  then have "tracks [mid \<mapsto> l] (snd (run_checks spray_check reqs (snd (spray_check (mid, l) tr))))"
    by (rule spray.run_keeps)
  then have "expected (snd (run_checks spray_check reqs (snd (spray_check (mid, l) tr)))) mid = Some l"
    by (auto simp: tracks_def map_le_def)
  with assms(2) show ?thesis by (simp add: spray_check_def)
qed

lemma spray_ceiling_witness:
  "\<exists>t. fst (spray_check ([1], 9) (snd (run_checks spray_check [([1], 3), ([2], 30)] (snd (spray_check ([1], 8) new_tracker))))) = Inr (Some t)"
  using spray_ceiling [of new_tracker "[1]" 8 9 "[([1], 3), ([2], 30)]"] by (simp add: new_tracker_def)

text \<open>Nothing is ever taken out: the tracker holds an entry for every message it was ever asked about.\<close>

lemma tracker_dom: "dom (expected (snd (run_checks spray_check reqs tr))) = dom (expected tr) \<union> fst ` set reqs"
proof (induction reqs arbitrary: tr)
  case (Cons r reqs)
  obtain mid l where "r = (mid, l)" by fastforce
  then have "dom (expected (snd (spray_check r tr))) = insert (fst r) (dom (expected tr))"
    by (auto simp: spray_check_def split: option.splits)
  with Cons show ?case by simp
qed simp

section \<open>Spreading a budget over carriers\<close>

text \<open>
  The budgets the carriers of one message hold: a carrier with copies left meets a new peer,
  hands over the peer's half and keeps its own.
\<close>

inductive spread :: "int multiset \<Rightarrow> int multiset \<Rightarrow> bool" where
  meet: "0 < copies_forward (split_copies l) \<Longrightarrow>
    spread (add_mset l M) (add_mset (copies_forward (split_copies l)) (add_mset (copies_keep (split_copies l)) M))"

inductive_cases spreadE: "spread M N"

lemma spread_sum: "spread M N \<Longrightarrow> sum_mset N = sum_mset M"
  by (induction rule: spread.induct) (auto simp: split_copies_def Let_def split: if_splits)

lemma spread_pos: "spread M N \<Longrightarrow> \<forall>l \<in># M. 1 \<le> l \<Longrightarrow> \<forall>l \<in># N. 1 \<le> l"
  by (induction rule: spread.induct) (auto simp: split_copies_def Let_def split: if_splits)

lemma size_le_sum_mset: "\<forall>l \<in># M. 1 \<le> l \<Longrightarrow> int (size M) \<le> sum_mset M"
  by (induction M) auto

lemma spread_enabled:
  assumes "l \<in># M" "2 \<le> l"
  shows "\<exists>N. spread M N"
proof -
  obtain M' where "M = add_mset l M'" using assms(1) by (auto dest: multi_member_split)
  moreover have "0 < copies_forward (split_copies l)" using assms(2) by (simp add: split_copies_forward)
  ultimately show ?thesis using spread.meet by blast
qed

text \<open>
  The copy budget is conserved: however a message with budget \<open>L\<close> spreads by repeated
  splits, the budgets of its carriers add up to \<open>L\<close>, every carrier keeps at least one copy and
  there are at most \<open>L\<close> carriers; and it stops spreading exactly when all carriers are in the
  wait phase.
\<close>

lemma spray_budget_conserved:
  assumes "1 \<le> L" "spread\<^sup>*\<^sup>* {#L#} M"
  shows "sum_mset M = L \<and> (\<forall>l \<in># M. 1 \<le> l) \<and> int (size M) \<le> L \<and>
     ((\<nexists>N. spread M N) \<longleftrightarrow> (\<forall>l \<in># M. is_wait_phase l))"
proof -
  from assms(2) have r: "sum_mset M = L \<and> (\<forall>l \<in># M. 1 \<le> l)"
    by (induction rule: rtranclp_induct) (use assms(1) spread_sum spread_pos in auto)
  moreover have "(\<nexists>N. spread M N) \<longleftrightarrow> (\<forall>l \<in># M. is_wait_phase l)"
    using spread_enabled [of _ M] by (force simp: is_wait_phase_def split_copies_forward elim: spreadE)
  ultimately show ?thesis using size_le_sum_mset [of M] by auto
qed

lemma spray_budget_conserved_witness:
  "sum_mset {#2, 1, 2 :: int#} = 5 \<and> spread\<^sup>*\<^sup>* {#5#} {#2, 1, 2#} \<and> (\<exists>N. spread {#2, 1, 2#} N)"
proof -
  have 1: "spread {#5#} {#2, 3#}" using spread.meet [of 5 "{#}"] by (simp add: split_copies_def)
  have "spread (add_mset 3 {#2#}) {#1, 2, 2#}" using spread.meet [of 3 "{#2#}"] by (simp add: split_copies_def)
  then have 2: "spread {#2, 3#} {#2, 1, 2#}" by (simp add: add_mset_commute)
  from 1 2 have "spread\<^sup>*\<^sup>* {#5#} {#2, 1, 2#}" by (meson converse_rtranclp_into_rtranclp r_into_rtranclp)
  from spray_budget_conserved [OF _ this] this show ?thesis by (auto simp: is_wait_phase_def)
qed

end
