(* ===== verification/Pipeline.thy ===== *)
theory Pipeline
  imports Dedup Rate_Limit Attestation Spray
begin

text \<open>
  \<^emph>\<open>pipeline/pipeline.py\<close>: \<open>RelayPipeline\<close> with its four stateful checks, \<open>process\<close> with
  its early returns, and the onward copy. The clock is read once by each of steps 3, 4, 5
  and 7: \<open>clocks\<close> holds the four readings of one call.
\<close>

section \<open>State and results\<close>

datatype outcome = DELIVER | RELAY | DROP

record pipeline_result =
  outcome :: outcome
  drop_reason :: reason
  delivered :: "message option"
  forward :: "bytes option"

record 'b relay_pipeline =
  dedup_cache :: "'b dedup_cache"
  rate_limiter :: limiter
  attestation :: "attestation_cache option"
  spray_budget :: spray_tracker

record clocks =
  clk_timestamp :: time
  clk_dedup :: time
  clk_rate :: time
  clk_attest :: time

definition new_pipeline :: "'b bloom_ops \<Rightarrow> attestation_cache option \<Rightarrow> 'b relay_pipeline" where
  "new_pipeline B att =
     \<lparr> dedup_cache = new_dedup B, rate_limiter = new_limiter, attestation = att, spray_budget = new_tracker \<rparr>"

definition TTL_OFFSET :: nat where [simp]: "TTL_OFFSET = 68"
definition SPRAY_OFFSET :: nat where [simp]: "SPRAY_OFFSET = 69"

text \<open>\<^emph>\<open>bytes([...])\<close>: every element a byte, or a \<^emph>\<open>ValueError\<close>.\<close>

definition py_bytes :: "int list \<Rightarrow> bytes res" where
  "py_bytes xs =
     (if list_all (\<lambda>x. 0 \<le> x \<and> x < 256) xs then Inr (map word_of_int xs)
      else Inl (ValueError ''bytes must be in range(0, 256)''))"

definition onward_copy :: "bytes \<Rightarrow> message \<Rightarrow> bytes option res" where
  "onward_copy bs msg =
     (let next_ttl = ttl msg - 1; forward_l = copies_forward (split_copies (spray_l msg)) in
      if next_ttl \<le> 0 \<or> forward_l = 0 then Inr None
      else res_bind (py_bytes [next_ttl, forward_l])
             (\<lambda>two. Inr (Some (take TTL_OFFSET bs @ two @ drop (SPRAY_OFFSET + 1) bs))))"

definition drop_with :: "reason \<Rightarrow> pipeline_result" where
  "drop_with r = \<lparr> outcome = DROP, drop_reason = r, delivered = None, forward = None \<rparr>"

text \<open>The text of an exception in the drop reason; \<^emph>\<open>parse_packet\<close> raises only these.\<close>

fun exn_text :: "exn \<Rightarrow> string" where
  "exn_text (ValueError m) = m"
| "exn_text _ = ''''"

section \<open>Process\<close>

text \<open>Step 8: the budget contract, then the result with the onward copy.\<close>

definition process_deliver ::
    "bytes \<Rightarrow> message \<Rightarrow> 'b relay_pipeline \<Rightarrow> pipeline_result res \<times> 'b relay_pipeline" where
  "process_deliver bs msg p =
     (case spray_check (msg_id msg, spray_l msg) (spray_budget p) of
        (Inl e, sp) \<Rightarrow> (Inl e, p\<lparr>spray_budget := sp\<rparr>)
      | (Inr r, sp) \<Rightarrow>
          if truthy r then (Inr (drop_with r), p\<lparr>spray_budget := sp\<rparr>)
          else (res_bind (onward_copy bs msg)
                  (\<lambda>f. Inr \<lparr> outcome = DELIVER, drop_reason = None, delivered = Some msg, forward = f \<rparr>),
                p\<lparr>spray_budget := sp\<rparr>))"

text \<open>Step 7, skipped when no cache is configured.\<close>

definition process_attest ::
    "time \<Rightarrow> bytes \<Rightarrow> message \<Rightarrow> 'b relay_pipeline \<Rightarrow> pipeline_result res \<times> 'b relay_pipeline" where
  "process_attest now bs msg p =
     (case attestation p of
        None \<Rightarrow> process_deliver bs msg p
      | Some cache \<Rightarrow>
          (case attestation_check (now, sender_key msg) cache of
             (Inl e, cache') \<Rightarrow> (Inl e, p\<lparr>attestation := Some cache'\<rparr>)
           | (Inr r, cache') \<Rightarrow>
               if truthy r then (Inr (drop_with r), p\<lparr>attestation := Some cache'\<rparr>)
               else process_deliver bs msg (p\<lparr>attestation := Some cache'\<rparr>)))"

text \<open>Step 6.\<close>

definition process_signature ::
    "crypto \<Rightarrow> clocks \<Rightarrow> bytes \<Rightarrow> message \<Rightarrow> 'b relay_pipeline \<Rightarrow> pipeline_result res \<times> 'b relay_pipeline" where
  "process_signature C clk bs msg p =
     (case check_signature C msg of
        Inl e \<Rightarrow> (Inl e, p)
      | Inr r \<Rightarrow> if truthy r then (Inr (drop_with r), p)
                 else process_attest (clk_attest clk) bs msg p)"

text \<open>Steps 4 and 5: the stateful checks before the signature.\<close>

definition process_stateful ::
    "'b bloom_ops \<Rightarrow> crypto \<Rightarrow> clocks \<Rightarrow> bytes \<Rightarrow> message \<Rightarrow> 'b relay_pipeline
     \<Rightarrow> pipeline_result res \<times> 'b relay_pipeline" where
  "process_stateful B C clk bs msg p =
     (case dedup_check B (clk_dedup clk, msg_id msg) (dedup_cache p) of
        (Inl e, d) \<Rightarrow> (Inl e, p\<lparr>dedup_cache := d\<rparr>)
      | (Inr r, d) \<Rightarrow>
          if truthy r then (Inr (drop_with r), p\<lparr>dedup_cache := d\<rparr>)
          else
            (case rate_check (clk_rate clk, ephem_id msg) (rate_limiter p) of
               (Inl e, l) \<Rightarrow> (Inl e, p\<lparr>dedup_cache := d, rate_limiter := l\<rparr>)
             | (Inr r, l) \<Rightarrow>
                 if truthy r then (Inr (drop_with r), p\<lparr>dedup_cache := d, rate_limiter := l\<rparr>)
                 else process_signature C clk bs msg (p\<lparr>dedup_cache := d, rate_limiter := l\<rparr>)))"

definition process ::
    "'b bloom_ops \<Rightarrow> crypto \<Rightarrow> clocks \<times> bytes \<Rightarrow> 'b relay_pipeline
     \<Rightarrow> pipeline_result res \<times> 'b relay_pipeline" where
  "process B C req p =
     (case req of (clk, bs) \<Rightarrow>
      if truthy (check_size bs) then (Inr (drop_with (check_size bs)), p)
      else
        (case parse_packet bs of
           Inl e \<Rightarrow> if is_ValueError e then (Inr (drop_with (Some (''malformed: '' @ exn_text e))), p)
                    else (Inl e, p)
         | Inr msg \<Rightarrow>
             if truthy (check_ttl msg) then (Inr (drop_with (check_ttl msg)), p)
             else if truthy (check_timestamp (clk_timestamp clk) msg)
             then (Inr (drop_with (check_timestamp (clk_timestamp clk) msg)), p)
             else process_stateful B C clk bs msg p))"

section \<open>The onward copy\<close>

lemma onward_copy_eq:
  assumes "parse_packet bs = Inr m"
  shows "onward_copy bs m =
    Inr (if 1 < ttl m \<and> 1 < spray_l m
         then Some ((bs[68 := word_of_int (ttl m - 1)])[69 := word_of_int (spray_l m div 2)]) else None)"
proof -
  have wf: "msg_wf m" and l: "139 \<le> length bs"
    using parse_packet_wf [OF assms] parse_packet_InrD(1) [OF assms] by auto
  have r: "0 \<le> ttl m" "ttl m < 256" "0 \<le> spray_l m" "spray_l m < 256"
    using wf by (simp_all add: msg_wf_def)
  have f: "copies_forward (split_copies (spray_l m)) = spray_l m div 2"
    using r by (simp add: split_copies_forward)
  have "take 68 bs @ [u, v] @ drop 70 bs = (bs[68 := u])[69 := v]" for u v
    using two_byte_rewrite [of 68 bs u v] l by simp
  then show ?thesis
    using r by (auto simp: onward_copy_def f py_bytes_def Let_def)
qed

text \<open>
  The packet handed to peers: the same message with one hop less, the peer's half of the
  copies, the same signed bytes and signature.
\<close>

lemma onward_copy_parse:
  assumes "parse_packet bs = Inr m" "onward_copy bs m = Inr (Some bs')"
  shows "parse_packet bs' = Inr (m\<lparr>raw := bs', ttl := ttl m - 1, spray_l := spray_l m div 2\<rparr>)"
    "length bs' = length bs" "signed_region bs' n = signed_region bs n"
    "1 < ttl m" "1 < spray_l m"
proof -
  have b: "1 < ttl m" "1 < spray_l m"
    "bs' = (bs[68 := word_of_int (ttl m - 1)])[69 := word_of_int (spray_l m div 2)]"
    using assms onward_copy_eq [OF assms(1)] by (auto split: if_splits)
  show "1 < ttl m" "1 < spray_l m" "length bs' = length bs" "signed_region bs' n = signed_region bs n"
    using b by simp_all
  have "ttl m < 256" "spray_l m < 256" using parse_packet_wf [OF assms(1)] by (simp_all add: msg_wf_def)
  then have "uint (word_of_int (ttl m - 1) :: byte) = ttl m - 1"
    "uint (word_of_int (spray_l m div 2) :: byte) = spray_l m div 2"
    unfolding uint_byte using b(1,2) by simp_all
  with parse_packet_rewrite [OF assms(1) b(3)]
  show "parse_packet bs' = Inr (m\<lparr>raw := bs', ttl := ttl m - 1, spray_l := spray_l m div 2\<rparr>)" by metis
qed

lemma onward_copy_sig_valid:
  assumes "parse_packet bs = Inr m" "onward_copy bs m = Inr (Some bs')" "parse_packet bs' = Inr m'"
  shows "sig_valid C m' = sig_valid C m"
  using onward_copy_parse [OF assms(1,2)] assms(3) parse_packet_InrD(2) [OF assms(1)]
  by (auto simp: sig_valid_def)

section \<open>Outcomes\<close>

text \<open>\<open>accepts\<close>: the message the call delivers.\<close>

definition accepts :: "pipeline_result res \<Rightarrow> message \<Rightarrow> bool" where
  "accepts r m \<longleftrightarrow> (\<exists>x. r = Inr x \<and> outcome x = DELIVER \<and> delivered x = Some m)"

definition drops :: "pipeline_result res \<Rightarrow> bool" where
  "drops r \<longleftrightarrow> (\<exists>reason. r = Inr (drop_with (Some reason)))"

lemma not_accepts_drop [simp]: "\<not> accepts (Inr (drop_with r)) m" "\<not> accepts (Inl e) m"
  by (simp_all add: accepts_def drop_with_def)

lemma parse_packet_value_error:
  assumes "parse_packet bs = Inl e"
  shows "is_ValueError e"
proof (cases "139 \<le> length bs")
  case True
  with assms show ?thesis unfolding parse_packet_long [OF True] by (auto simp: Let_def split: if_splits)
next
  case False
  with assms show ?thesis by (auto simp: parse_packet_def)
qed

text \<open>The cheap checks together: what reaches the stateful part, and with which message.\<close>

definition admitted :: "clocks \<Rightarrow> bytes \<Rightarrow> message \<Rightarrow> bool" where
  "admitted clk bs m \<longleftrightarrow> length bs \<le> 460 \<and> parse_packet bs = Inr m \<and> 0 < ttl m \<and> fresh (clk_timestamp clk) (timestamp m)"

lemma process_admitted:
  assumes "admitted clk bs m"
  shows "process B C (clk, bs) p = process_stateful B C clk bs m p"
  using assms parse_packet_InrD(1) [of bs m] by (simp add: process_def admitted_def)

lemma process_not_admitted:
  assumes "\<nexists>m. admitted clk bs m"
  shows "\<exists>reason. process B C (clk, bs) p = (Inr (drop_with (Some reason)), p)"
proof (cases "truthy (check_size bs)")
  case True
  moreover from True obtain s where "check_size bs = Some s" by (cases "check_size bs") auto
  ultimately have "process B C (clk, bs) p = (Inr (drop_with (Some s)), p)"
    by (simp add: process_def del: check_size_truthy)
  then show ?thesis by blast
next
  case False
  show ?thesis
  proof (cases "parse_packet bs")
    case (Inl e)
    with False show ?thesis using parse_packet_value_error [OF Inl] by (auto simp: process_def)
  next
    case (Inr m)
    with assms False have bad: "\<not> 0 < ttl m \<or> \<not> fresh (clk_timestamp clk) (timestamp m)"
      by (auto simp: admitted_def)
    have "0 \<le> ttl m" using parse_packet_wf [OF Inr] by (simp add: msg_wf_def)
    show ?thesis
    proof (cases "ttl m = 0")
      case True
      with False Inr show ?thesis by (auto simp: process_def check_ttl_def)
    next
      case ttl: False
      with bad \<open>0 \<le> ttl m\<close> have "\<not> fresh (clk_timestamp clk) (timestamp m)" by auto
      moreover from this obtain s where "check_timestamp (clk_timestamp clk) m = Some s" "s \<noteq> []"
        using check_timestamp_truthy [of "clk_timestamp clk" m]
        by (cases "check_timestamp (clk_timestamp clk) m") (auto simp del: check_timestamp_truthy)
      ultimately show ?thesis using False Inr ttl by (auto simp: process_def)
    qed
  qed
qed

section \<open>Invariant and totality\<close>

definition attested_inv :: "crypto \<Rightarrow> decoders \<Rightarrow> attestation_cache option \<Rightarrow> bool" where
  "attested_inv C D a \<longleftrightarrow> (\<forall>cache. a = Some cache \<longrightarrow> attest_inv C D cache)"

definition pipeline_inv :: "'b bloom_ops \<Rightarrow> crypto \<Rightarrow> decoders \<Rightarrow> 'b relay_pipeline \<Rightarrow> bool" where
  "pipeline_inv B C D p \<longleftrightarrow>
     bloom_ok B \<and> ed25519_errors C \<and> dedup_inv B (dedup_cache p) \<and> rate_inv (rate_limiter p) \<and>
     attested_inv C D (attestation p)"

lemma new_pipeline_inv:
  "bloom_ok B \<Longrightarrow> ed25519_errors C \<Longrightarrow> attested_inv C D att \<Longrightarrow> pipeline_inv B C D (new_pipeline B att)"
  by (simp add: pipeline_inv_def new_pipeline_def new_dedup_inv new_limiter_inv)

text \<open>The part of the state each stage may change.\<close>

lemma process_deliver_state:
  "dedup_cache (snd (process_deliver bs m p)) = dedup_cache p"
  "rate_limiter (snd (process_deliver bs m p)) = rate_limiter p"
  "attestation (snd (process_deliver bs m p)) = attestation p"
  by (auto simp: process_deliver_def split: prod.splits sum.splits)

lemma process_attest_state:
  "dedup_cache (snd (process_attest now bs m p)) = dedup_cache p"
  "rate_limiter (snd (process_attest now bs m p)) = rate_limiter p"
  by (auto simp: process_attest_def process_deliver_state split: prod.splits sum.splits option.splits)

lemma process_signature_state:
  "dedup_cache (snd (process_signature C clk bs m p)) = dedup_cache p"
  "rate_limiter (snd (process_signature C clk bs m p)) = rate_limiter p"
  by (auto simp: process_signature_def process_attest_state split: sum.splits)

lemma process_deliver_returns:
  assumes "parse_packet bs = Inr m"
  shows "returns (fst (process_deliver bs m p))"
  using spray.total [of Map.empty "spray_budget p" "(msg_id m, spray_l m)"]
  by (auto simp: process_deliver_def onward_copy_eq [OF assms] tracks_def split: prod.splits sum.splits)

lemma process_attest_ok:
  assumes "parse_packet bs = Inr m" "attested_inv C D (attestation p)"
  shows "returns (fst (process_attest now bs m p))"
    "attested_inv C D (attestation (snd (process_attest now bs m p)))"
proof -
  have "returns (fst (process_attest now bs m p)) \<and>
    attested_inv C D (attestation (snd (process_attest now bs m p)))"
  proof (cases "attestation p")
    case None
    then show ?thesis using assms(2)
      by (simp add: process_attest_def process_deliver_returns [OF assms(1)] process_deliver_state)
  next
    case (Some cache)
    with assms(2) have "attest_inv C D cache" by (simp add: attested_inv_def)
    then obtain v cache' where "attestation_check (now, sender_key m) cache = (Inr v, cache')"
      "attest_inv C D cache'" by (rule attestation.value_of)
    with Some show ?thesis
      by (simp add: process_attest_def process_deliver_returns [OF assms(1)] process_deliver_state attested_inv_def)
  qed
  then show "returns (fst (process_attest now bs m p))"
    "attested_inv C D (attestation (snd (process_attest now bs m p)))" by auto
qed

lemma process_signature_ok:
  assumes "parse_packet bs = Inr m" "attested_inv C D (attestation p)" "ed25519_errors C"
  shows "returns (fst (process_signature C clk bs m p))"
    "attested_inv C D (attestation (snd (process_signature C clk bs m p)))"
  using process_attest_ok [OF assms(1,2)] assms(2)
  by (auto simp: process_signature_def check_signature_total [OF assms(3)])

text \<open>
  The two stateful checks before the signature, described once: either the call stops there
  with a drop, or it goes on with the updated caches.
\<close>

lemma process_stateful_cases:
  assumes "pipeline_inv B C D p"
  obtains (duplicate) d reason where
      "dedup_check B (clk_dedup clk, msg_id m) (dedup_cache p) = (Inr (Some reason), d)"
      "reason = duplicate_reason" "dedup_inv B d"
      "process_stateful B C clk bs m p = (Inr (drop_with (Some reason)), p\<lparr>dedup_cache := d\<rparr>)"
    | (throttled) d l reason where
      "dedup_check B (clk_dedup clk, msg_id m) (dedup_cache p) = (Inr None, d)" "dedup_inv B d"
      "rate_check (clk_rate clk, ephem_id m) (rate_limiter p) = (Inr (Some reason), l)" "rate_inv l"
      "process_stateful B C clk bs m p =
         (Inr (drop_with (Some reason)), p\<lparr>dedup_cache := d, rate_limiter := l\<rparr>)"
    | (through) d l where
      "dedup_check B (clk_dedup clk, msg_id m) (dedup_cache p) = (Inr None, d)" "dedup_inv B d"
      "rate_check (clk_rate clk, ephem_id m) (rate_limiter p) = (Inr None, l)" "rate_inv l"
      "process_stateful B C clk bs m p =
         process_signature C clk bs m (p\<lparr>dedup_cache := d, rate_limiter := l\<rparr>)"
proof -
  have B: "bloom_ok B" and dinv: "dedup_inv B (dedup_cache p)" and rinv: "rate_inv (rate_limiter p)"
    using assms by (auto simp: pipeline_inv_def)
  obtain l rr where r: "rate_check (clk_rate clk, ephem_id m) (rate_limiter p) = (Inr rr, l)" "rate_inv l"
    using rate.value_of [OF rinv] by metis
  have ne: "rr = None \<or> (\<exists>s. rr = Some s \<and> s \<noteq> [])"
    using r(1) by (auto simp: rate_check_def sender_step_def rate_reasons Let_def split: if_splits)
  show thesis
  proof (cases "bf_mem B (msg_id m) (bloom (dedup_cache p))")
    case True
    then show thesis using dinv
      by (intro duplicate) (auto simp: dedup_check_dup process_stateful_def duplicate_reason_def)
  next
    case False
    obtain d where d: "dedup_check B (clk_dedup clk, msg_id m) (dedup_cache p) = (Inr None, d)" "dedup_inv B d"
      using dedup_check_new [OF B dinv False] by blast
    from ne show thesis
    proof
      assume "rr = None"
      with d r show thesis by (intro through) (auto simp: process_stateful_def)
    next
      assume "\<exists>s. rr = Some s \<and> s \<noteq> []"
      with d r show thesis by (auto simp: process_stateful_def intro: throttled)
    qed
  qed
qed

lemma process_stateful_ok:
  assumes "pipeline_inv B C D p" "parse_packet bs = Inr m"
  shows "returns (fst (process_stateful B C clk bs m p))"
    "pipeline_inv B C D (snd (process_stateful B C clk bs m p))"
proof -
  have a: "attested_inv C D (attestation p)" "ed25519_errors C" "bloom_ok B"
    "dedup_inv B (dedup_cache p)" "rate_inv (rate_limiter p)"
    using assms(1) by (auto simp: pipeline_inv_def)
  show "returns (fst (process_stateful B C clk bs m p))"
    using assms(1)
    by (rule process_stateful_cases [of B C D p clk m bs])
       (simp_all add: process_signature_ok(1) [OF assms(2) _ a(2), of D] a(1))
  show "pipeline_inv B C D (snd (process_stateful B C clk bs m p))"
    using assms(1)
    by (rule process_stateful_cases [of B C D p clk m bs])
       (simp_all add: pipeline_inv_def a process_signature_state
          process_signature_ok(2) [OF assms(2) _ a(2), of D])
qed

interpretation pipe: gate "process B C" "pipeline_inv B C D" for B :: "'b bloom_ops" and C D
proof
  fix s :: "'b relay_pipeline" and req :: "clocks \<times> bytes"
  assume inv: "pipeline_inv B C D s"
  obtain clk bs where req: "req = (clk, bs)" by (cases req)
  have "pipeline_inv B C D (snd (process B C req s)) \<and> returns (fst (process B C req s))"
  proof (cases "\<exists>m. admitted clk bs m")
    case True
    then obtain m where m: "admitted clk bs m" by blast
    then have "parse_packet bs = Inr m" by (simp add: admitted_def)
    from process_stateful_ok [OF inv this] show ?thesis
      by (simp add: req process_admitted [OF m])
  next
    case False
    with process_not_admitted [of clk bs B C s] inv req show ?thesis by auto
  qed
  then show "pipeline_inv B C D (snd (process B C req s))" and "returns (fst (process B C req s))"
    by auto
qed

end
