(* ===== verification/Signing.thy ===== *)
theory Signing
  imports Checks
begin

text \<open>
  Building outgoing packets: \<^emph>\<open>identity/signing.py\<close> (\<open>compute_msg_id\<close>,
  \<open>build_signed_packet\<close>), the identity record of \<^emph>\<open>identity/keygen.py\<close>, and the packet
  helpers of the simulation, \<^emph>\<open>sim/packet.py\<close> (\<open>build_packet\<close>,
  \<open>rewrite_ttl_and_spray\<close>). A signing key is its 32-byte seed.
\<close>

section \<open>Identities\<close>

record device_identity =
  signing_key :: bytes

definition public_key :: "crypto \<Rightarrow> device_identity \<Rightarrow> bytes" where
  "public_key C i = ed_pub C (signing_key i)"

definition private_seed :: "device_identity \<Rightarrow> bytes" where
  "private_seed i = signing_key i"

section \<open>Packets\<close>

definition compute_msg_id :: "crypto \<Rightarrow> bytes \<Rightarrow> int \<Rightarrow> int \<Rightarrow> bytes \<Rightarrow> bytes res" where
  "compute_msg_id C skey ts mtype pl =
     res_bind (struct_pack ''>I'' [VI ts]) (\<lambda>a.
     res_bind (struct_pack ''>B'' [VI mtype]) (\<lambda>b.
     Inr (take 16 (blake3 C (skey @ a @ b @ pl)))))"

text \<open>\<^emph>\<open>sim/packet.py\<close>: a packet with a message identifier the caller chooses.\<close>

definition build_packet ::
    "crypto \<Rightarrow> device_identity \<Rightarrow> bytes \<Rightarrow> bytes \<Rightarrow> int \<Rightarrow> int \<Rightarrow> int \<Rightarrow> int \<Rightarrow> int \<Rightarrow> bytes \<Rightarrow> bytes res" where
  "build_packet C i mid eid ts hops l zid mtype pl =
     res_bind (struct_pack HEADER_FORMAT
        [VB mid, VB (public_key C i), VB eid, VI ts, VI hops, VI l, VI zid, VI mtype, VI (int (length pl))])
     (\<lambda>header.
       let unsigned_packet = header @ pl;
           sig = ed_sign C (signing_key i) (signed_region unsigned_packet (int (length pl)))
       in Inr (unsigned_packet @ sig))"

text \<open>\<^emph>\<open>timestamp=None\<close> takes the clock; the clock reading is the last argument.\<close>

definition build_signed_packet ::
    "crypto \<Rightarrow> device_identity \<Rightarrow> bytes \<Rightarrow> int \<Rightarrow> int \<Rightarrow> int \<Rightarrow> int \<Rightarrow> bytes \<Rightarrow> int option \<Rightarrow> time
     \<Rightarrow> bytes res" where
  "build_signed_packet C i eid hops l zid mtype pl ts_arg now =
     (let ts = (case ts_arg of None \<Rightarrow> py_int now | Some t \<Rightarrow> t); skey = public_key C i in
      res_bind (compute_msg_id C skey ts mtype pl) (\<lambda>mid.
      res_bind (struct_pack HEADER_FORMAT
        [VB mid, VB skey, VB eid, VI ts, VI hops, VI l, VI zid, VI mtype, VI (int (length pl))])
      (\<lambda>header.
        let unsigned_packet = header @ pl;
            sig = ed_sign C (signing_key i) (signed_region unsigned_packet (int (length pl)))
        in Inr (unsigned_packet @ sig))))"

text \<open>\<^emph>\<open>patched[68] = ttl; patched[69] = spray_l\<close> on a copy of the packet.\<close>

definition set_byte :: "nat \<Rightarrow> int \<Rightarrow> bytes \<Rightarrow> bytes res" where
  "set_byte k v bs =
     (if v < 0 \<or> 256 \<le> v then Inl (ValueError ''byte must be in range(0, 256)'')
      else if length bs \<le> k then Inl IndexError
      else Inr (bs[k := word_of_int v]))"

definition rewrite_ttl_and_spray :: "bytes \<Rightarrow> int \<Rightarrow> int \<Rightarrow> bytes res" where
  "rewrite_ttl_and_spray bs hops l = res_bind (set_byte 68 hops bs) (set_byte 69 l)"

section \<open>What a built packet says\<close>

lemma parse_fmt_I [simp]: "parse_fmt ''>I'' = Inr [FUInt 4]"
  by (simp add: fmt_eval)

lemma parse_fmt_B [simp]: "parse_fmt ''>B'' = Inr [FUInt 1]"
  by (simp add: fmt_eval)

lemma compute_msg_id_ok:
  assumes "0 \<le> ts" "ts < 2 ^ 32" "0 \<le> mtype" "mtype < 2 ^ 8" "hash_ok C"
  shows "compute_msg_id C skey ts mtype pl =
    Inr (take 16 (blake3 C (skey @ be_bytes 4 ts @ be_bytes 1 mtype @ pl)))"
  using assms by (simp add: compute_msg_id_def struct_pack_def)

lemma build_signed_packet_build:
  assumes "compute_msg_id C (public_key C i) ts mtype pl = Inr mid"
  shows "build_signed_packet C i eid hops l zid mtype pl (Some ts) now =
    build_packet C i mid eid ts hops l zid mtype pl"
  using assms by (simp add: build_signed_packet_def build_packet_def)

lemma build_signed_packet_clock:
  "build_signed_packet C i eid hops l zid mtype pl None now =
   build_signed_packet C i eid hops l zid mtype pl (Some (py_int now)) now"
  by (simp add: build_signed_packet_def)

text \<open>The header fields in range.\<close>

definition header_args_ok :: "bytes \<Rightarrow> int \<Rightarrow> int \<Rightarrow> int \<Rightarrow> int \<Rightarrow> int \<Rightarrow> bytes \<Rightarrow> bool" where
  "header_args_ok eid ts hops l zid mtype pl \<longleftrightarrow>
     length eid = 16 \<and> 0 \<le> ts \<and> ts < 2 ^ 32 \<and> 0 \<le> hops \<and> hops < 2 ^ 8 \<and>
     0 \<le> l \<and> l < 2 ^ 8 \<and> 0 \<le> zid \<and> zid < 2 ^ 16 \<and> 0 \<le> mtype \<and> mtype < 2 ^ 8 \<and> length pl < 2 ^ 16"

definition packet_args_ok :: "bytes \<Rightarrow> bytes \<Rightarrow> int \<Rightarrow> int \<Rightarrow> int \<Rightarrow> int \<Rightarrow> int \<Rightarrow> bytes \<Rightarrow> bool" where
  "packet_args_ok mid eid ts hops l zid mtype pl \<longleftrightarrow>
     length mid = 16 \<and> header_args_ok eid ts hops l zid mtype pl"

lemma build_packet_parse:
  assumes C: "ed25519_ok C" and ok: "packet_args_ok mid eid ts hops l zid mtype pl"
  shows "\<exists>bs m. build_packet C i mid eid ts hops l zid mtype pl = Inr bs \<and>
     parse_packet bs = Inr m \<and> length bs = 139 + length pl \<and> sig_valid C m \<and>
     m = \<lparr> raw = bs, msg_id = mid, sender_key = public_key C i, ephem_id = eid, timestamp = ts, ttl = hops,
           spray_l = l, zone_id = zid, msg_type = mtype, payload_len = int (length pl), payload = pl,
           signature = drop (75 + length pl) bs \<rparr>"
proof -
  note c = ed25519_okD [OF C]
  have pk: "length (public_key C i) = 32" by (simp add: public_key_def c)
  define vals where "vals = [VB mid, VB (public_key C i), VB eid, VI ts, VI hops, VI l, VI zid, VI mtype,
    VI (int (length pl))]"
  have "fits header_items vals"
    using ok pk by (simp add: vals_def header_items_def packet_args_ok_def header_args_ok_def)
  then obtain h where h: "pack_items header_items vals = Inr h" "unpack_items header_items h = vals"
    using pack_items_fits by blast
  have hl: "length h = 75" using pack_items_length [OF h(1)] by simp
  define sg where "sg = ed_sign C (signing_key i) (signed_region (h @ pl) (int (length pl)))"
  have sl: "length sg = 64" by (simp add: sg_def c)
  define m0 where "m0 = \<lparr> raw = [], msg_id = mid, sender_key = public_key C i, ephem_id = eid, timestamp = ts,
    ttl = hops, spray_l = l, zone_id = zid, msg_type = mtype, payload_len = int (length pl), payload = pl,
    signature = sg \<rparr>"
  have "msg_wf m0" using ok pk sl by (simp add: msg_wf_def m0_def packet_args_ok_def header_args_ok_def)
  moreover have "header_values m0 = vals" by (simp add: header_values_def m0_def vals_def)
  moreover from this h have "struct_pack HEADER_FORMAT (header_values m0) = Inr h"
    by (simp add: struct_pack_def)
  ultimately have p: "parse_packet (h @ pl @ sg) = Inr (m0\<lparr>raw := h @ pl @ sg\<rparr>)"
    using parse_packet_build [of m0 h] by (simp add: m0_def)
  have b: "build_packet C i mid eid ts hops l zid mtype pl = Inr (h @ pl @ sg)"
    using h by (simp add: build_packet_def struct_pack_def vals_def sg_def Let_def)
  have "signed_region (h @ pl @ sg) (int (length pl)) = signed_region (h @ pl) (int (length pl))"
    using signed_region_append [of "h @ pl" "length pl" sg] hl by simp
  then have "sig_valid C (m0\<lparr>raw := h @ pl @ sg\<rparr>)"
    using c(3) [OF pk] by (simp add: sig_valid_def m0_def sg_def public_key_def c(4))
  moreover have "drop (75 + length pl) (h @ pl @ sg) = sg" using hl by simp
  ultimately show ?thesis using p b hl sl by (auto simp: m0_def)
qed

lemma build_signed_packet_parse:
  assumes C: "ed25519_ok C" "hash_ok C"
    and ok: "header_args_ok eid ts hops l zid mtype pl"
  shows "\<exists>bs m mid. build_signed_packet C i eid hops l zid mtype pl (Some ts) now = Inr bs \<and>
     compute_msg_id C (public_key C i) ts mtype pl = Inr mid \<and>
     parse_packet bs = Inr m \<and> length bs = 139 + length pl \<and> sig_valid C m \<and>
     m = \<lparr> raw = bs, msg_id = mid, sender_key = public_key C i, ephem_id = eid, timestamp = ts, ttl = hops,
           spray_l = l, zone_id = zid, msg_type = mtype, payload_len = int (length pl), payload = pl,
           signature = drop (75 + length pl) bs \<rparr>"
proof -
  have r: "0 \<le> ts" "ts < 2 ^ 32" "0 \<le> mtype" "mtype < 2 ^ 8" using ok by (simp_all add: header_args_ok_def)
  define mid where "mid = take 16 (blake3 C (public_key C i @ be_bytes 4 ts @ be_bytes 1 mtype @ pl))"
  have id: "compute_msg_id C (public_key C i) ts mtype pl = Inr mid"
    unfolding mid_def by (rule compute_msg_id_ok [OF r C(2)])
  have "packet_args_ok mid eid ts hops l zid mtype pl"
    using ok C(2) by (simp add: packet_args_ok_def mid_def hash_ok_def)
  from build_packet_parse [OF C(1) this, of i] id build_signed_packet_build [OF id]
  show ?thesis by auto
qed

lemma rewrite_ttl_and_spray_eq:
  assumes "70 \<le> length bs" "0 \<le> hops" "hops < 256" "0 \<le> l" "l < 256"
  shows "rewrite_ttl_and_spray bs hops l = Inr ((bs[68 := word_of_int hops])[69 := word_of_int l])"
  using assms by (simp add: rewrite_ttl_and_spray_def set_byte_def)

text \<open>
  A packet that \<open>build_signed_packet\<close> makes says what was asked and verifies: it parses to the
  given header fields and payload under the identity's key, its identifier is the truncated hash
  of its content, and its signature is valid.
\<close>

lemma signed_packet_sound:
  assumes "ed25519_ok C" "hash_ok C" "header_args_ok eid ts hops l zid mtype pl"
  shows "\<exists>bs m. build_signed_packet C i eid hops l zid mtype pl (Some ts) now = Inr bs \<and>
     length bs = 139 + length pl \<and> parse_packet bs = Inr m \<and> sig_valid C m \<and>
     msg_id m = take 16 (blake3 C (public_key C i @ be_bytes 4 ts @ be_bytes 1 mtype @ pl)) \<and>
     sender_key m = public_key C i \<and> ephem_id m = eid \<and> timestamp m = ts \<and> ttl m = hops \<and>
     spray_l m = l \<and> zone_id m = zid \<and> msg_type m = mtype \<and> payload m = pl"
proof -
  have r: "0 \<le> ts" "ts < 2 ^ 32" "0 \<le> mtype" "mtype < 2 ^ 8"
    using assms(3) by (simp_all add: header_args_ok_def)
  from build_signed_packet_parse [OF assms(1,2,3)] compute_msg_id_ok [OF r assms(2)]
  show ?thesis by fastforce
qed

lemma signed_packet_sound_witness:
  "\<exists>bs m. build_signed_packet toy_crypto \<lparr>signing_key = replicate 32 9\<rparr> (replicate 16 2) 5 8 0xFFFF 1 [104, 105] (Some 1000) 0 = Inr bs \<and>
     length bs = 141 \<and> parse_packet bs = Inr m \<and> sig_valid toy_crypto m \<and> payload m = [104, 105]"
proof -
  have "header_args_ok (replicate 16 2) 1000 5 8 0xFFFF 1 [104, 105]" by (simp add: header_args_ok_def)
  from signed_packet_sound [OF toy_ed25519_ok toy_hash_ok this] show ?thesis by fastforce
qed

end
