(* ===== verification/Delivery.thy ===== *)
theory Delivery
  imports Pipeline Signing
begin

text \<open>
  What the pipeline as a whole promises: \<open>clears\<close> puts the conditions of the eight steps in one
  place and \<open>process_delivers\<close>/\<open>process_drops\<close> show that \<open>process\<close> delivers exactly what clears
  them. On top of it: replays, onward copies travelling over several hops, and concrete data.
\<close>

section \<open>The conditions of a delivery\<close>

definition clears :: "'b bloom_ops \<Rightarrow> crypto \<Rightarrow> clocks \<Rightarrow> bytes \<Rightarrow> 'b relay_pipeline \<Rightarrow> message \<Rightarrow> bool" where
  "clears B C clk bs p m \<longleftrightarrow>
     admitted clk bs m \<and>
     \<not> bf_mem B (msg_id m) (bloom (dedup_cache p)) \<and>
     fst (rate_check (clk_rate clk, ephem_id m) (rate_limiter p)) = Inr None \<and>
     sig_valid C m \<and>
     (\<forall>cache. attestation p = Some cache \<longrightarrow>
        (\<exists>ex. expiry cache (sender_key m) = Some ex \<and> py_int (clk_attest clk) < ex)) \<and>
     (\<forall>e. expected (spray_budget p) (msg_id m) = Some e \<longrightarrow> spray_l m \<le> e)"

definition delivery :: "message \<Rightarrow> bytes option \<Rightarrow> pipeline_result" where
  "delivery m f = \<lparr> outcome = DELIVER, drop_reason = None, delivered = Some m, forward = f \<rparr>"

text \<open>Is there a copy to pass on, and which.\<close>

definition onward :: "bytes \<Rightarrow> message \<Rightarrow> bytes option" where
  "onward bs m = (case onward_copy bs m of Inr f \<Rightarrow> f | Inl _ \<Rightarrow> None)"

lemma onward_copy_onward: "parse_packet bs = Inr m \<Longrightarrow> onward_copy bs m = Inr (onward bs m)"
  using onward_copy_eq by (simp add: onward_def)

lemma spray_check_fst_eq:
  "fst (spray_check (mid, l) tr) =
     (case expected tr mid of
        Some e \<Rightarrow> if l > e then Inr (Some (''spray_L inflated: expected <= '' @ show_int e @ '', got '' @ show_int l))
                 else Inr None
      | None \<Rightarrow> Inr None)"
  by (simp add: spray_check_def split: option.splits)

lemma process_deliver_outcome:
  assumes "parse_packet bs = Inr m"
  shows "(\<forall>e. expected (spray_budget p) (msg_id m) = Some e \<longrightarrow> spray_l m \<le> e) \<Longrightarrow>
      fst (process_deliver bs m p) = Inr (delivery m (onward bs m))"
    "\<not> (\<forall>e. expected (spray_budget p) (msg_id m) = Some e \<longrightarrow> spray_l m \<le> e) \<Longrightarrow>
      drops (fst (process_deliver bs m p))"
  using spray_check_fst_eq [of "msg_id m" "spray_l m" "spray_budget p"]
  by (cases "spray_check (msg_id m, spray_l m) (spray_budget p)";
      auto simp: process_deliver_def onward_copy_onward [OF assms] delivery_def drops_def
        split: option.splits if_splits)+

lemma process_attest_outcome:
  fixes m :: message and now :: time
  assumes "parse_packet bs = Inr m"
  defines "att \<equiv> \<lambda>p :: 'b relay_pipeline. \<forall>cache. attestation p = Some cache \<longrightarrow>
      (\<exists>ex. expiry cache (sender_key m) = Some ex \<and> py_int now < ex)"
    and "spr \<equiv> \<lambda>p :: 'b relay_pipeline. \<forall>e. expected (spray_budget p) (msg_id m) = Some e \<longrightarrow> spray_l m \<le> e"
  shows "att p \<and> spr p \<Longrightarrow> fst (process_attest now bs m p) = Inr (delivery m (onward bs m))"
    "\<not> (att p \<and> spr p) \<Longrightarrow> drops (fst (process_attest now bs m p))"
proof -
  note d = process_deliver_outcome [OF assms(1)]
  have "(att p \<and> spr p \<longrightarrow> fst (process_attest now bs m p) = Inr (delivery m (onward bs m))) \<and>
    (\<not> (att p \<and> spr p) \<longrightarrow> drops (fst (process_attest now bs m p)))"
  proof (cases "attestation p")
    case None
    then show ?thesis using d [of p] by (simp add: process_attest_def att_def spr_def)
  next
    case (Some cache)
    show ?thesis
    proof (cases "\<exists>ex. expiry cache (sender_key m) = Some ex \<and> py_int now < ex")
      case True
      then have c: "attestation_check (now, sender_key m) cache = (Inr None, cache)"
        by (auto simp: attestation_check_def)
      have "process_attest now bs m p = process_deliver bs m (p\<lparr>attestation := Some cache\<rparr>)"
        using Some c by (simp add: process_attest_def)
      then show ?thesis using d [of "p\<lparr>attestation := Some cache\<rparr>"] True Some
        by (simp add: att_def spr_def)
    next
      case False
      then show ?thesis using Some
        by (auto simp: process_attest_def attestation_check_def att_def drops_def split: option.splits)
    qed
  qed
  then show "att p \<and> spr p \<Longrightarrow> fst (process_attest now bs m p) = Inr (delivery m (onward bs m))"
    "\<not> (att p \<and> spr p) \<Longrightarrow> drops (fst (process_attest now bs m p))" by auto
qed

lemma process_outcome:
  assumes "pipeline_inv B C D p"
  shows "clears B C clk bs p m \<Longrightarrow> fst (process B C (clk, bs) p) = Inr (delivery m (onward bs m))"
    "\<not> (\<exists>m. clears B C clk bs p m) \<Longrightarrow> drops (fst (process B C (clk, bs) p))"
proof -
  have E: "ed25519_errors C" and B: "bloom_ok B" "dedup_inv B (dedup_cache p)"
    using assms by (simp_all add: pipeline_inv_def)
  have main: "(clears B C clk bs p m \<longrightarrow> fst (process B C (clk, bs) p) = Inr (delivery m (onward bs m))) \<and>
      (\<not> clears B C clk bs p m \<longrightarrow> drops (fst (process B C (clk, bs) p)))" if a: "admitted clk bs m" for m
  proof -
    have parse: "parse_packet bs = Inr m" using a by (simp add: admitted_def)
    have new: "\<not> bf_mem B (msg_id m) (bloom (dedup_cache p))"
      if "dedup_check B (clk_dedup clk, msg_id m) (dedup_cache p) = (Inr None, d)" for d
      using that by (auto simp: dedup_check_def)
    from assms show ?thesis
    proof (cases rule: process_stateful_cases [where clk = clk and m = m and bs = bs])
      case (duplicate d reason)
      then have "bf_mem B (msg_id m) (bloom (dedup_cache p))"
        using dedup_check_new [OF B, of "msg_id m" "clk_dedup clk"] by fastforce
      then show ?thesis using duplicate
        by (auto simp: process_admitted [OF a] clears_def drops_def)
    next
      case (throttled d l reason)
      then show ?thesis by (auto simp: process_admitted [OF a] clears_def drops_def)
    next
      case (through d l)
      let ?p = "p\<lparr>dedup_cache := d, rate_limiter := l\<rparr>"
      have s: "process_signature C clk bs m ?p =
          (if sig_valid C m then process_attest (clk_attest clk) bs m ?p
           else (Inr (drop_with (Some ''signature invalid: Ed25519 verification failed'')), ?p))"
        by (simp add: process_signature_def check_signature_total [OF E])
      from process_attest_outcome [OF parse, of ?p "clk_attest clk"] new [OF through(1)] through(3) a
      show ?thesis unfolding process_admitted [OF a] through(5) s
        by (auto simp: clears_def drops_def)
    qed
  qed
  show "clears B C clk bs p m \<Longrightarrow> fst (process B C (clk, bs) p) = Inr (delivery m (onward bs m))"
    using main [of m] by (simp add: clears_def)
  show "\<not> (\<exists>m. clears B C clk bs p m) \<Longrightarrow> drops (fst (process B C (clk, bs) p))"
  proof (cases "\<exists>m. admitted clk bs m")
    case True
    then obtain m where m: "admitted clk bs m" by blast
    assume "\<not> (\<exists>m. clears B C clk bs p m)"
    with main [OF m] show ?thesis by blast
  next
    case False
    with process_not_admitted [of clk bs B C p] show ?thesis by (auto simp: drops_def)
  qed
qed

lemma clears_unique: "clears B C clk bs p m \<Longrightarrow> clears B C clk bs p m' \<Longrightarrow> m = m'"
  by (simp add: clears_def admitted_def)

lemma not_drops_delivery [simp]: "\<not> drops (Inr (delivery m f))"
  by (auto simp: drops_def delivery_def drop_with_def)

lemma drops_not_accepts: "drops r \<Longrightarrow> \<not> accepts r m"
  by (auto simp: drops_def)

lemma accepts_clears:
  assumes "pipeline_inv B C D p"
  shows "accepts (fst (process B C (clk, bs) p)) m \<longleftrightarrow> clears B C clk bs p m"
proof
  assume acc: "accepts (fst (process B C (clk, bs) p)) m"
  then obtain m' where m': "clears B C clk bs p m'"
    using process_outcome(2) [OF assms] drops_not_accepts by blast
  from process_outcome(1) [OF assms m'] acc m' show "clears B C clk bs p m"
    by (auto simp: accepts_def delivery_def)
qed (use process_outcome(1) [OF assms] in \<open>auto simp: accepts_def delivery_def\<close>)

section \<open>Replays\<close>

text \<open>Packet after packet, each call reading the clock four times; the clock never goes back.\<close>

definition readings :: "clocks \<Rightarrow> time list" where
  "readings clk = [clk_timestamp clk, clk_dedup clk, clk_rate clk, clk_attest clk]"

definition in_order :: "(clocks \<times> bytes) list \<Rightarrow> bool" where
  "in_order reqs \<longleftrightarrow> sorted (concat (map (readings \<circ> fst) reqs))"

lemma holds_mono: "holds m t i s \<Longrightarrow> i \<le> j \<Longrightarrow> holds m t j s"
  unfolding holds_def by (meson order_trans)

lemma process_dedup_state:
  assumes "pipeline_inv B C D p"
  shows "dedup_cache (snd (process B C (clk, bs) p)) = dedup_cache p \<or>
    (\<exists>x. dedup_cache (snd (process B C (clk, bs) p)) =
          snd (dedup_check B (clk_dedup clk, x) (dedup_cache p)))"
proof (cases "\<exists>m. admitted clk bs m")
  case True
  then obtain m where m: "admitted clk bs m" by blast
  from assms show ?thesis unfolding process_admitted [OF m]
    by (cases rule: process_stateful_cases [where clk = clk and m = m and bs = bs])
       (auto simp: process_signature_state intro!: exI [of _ "msg_id m"] disjI2)
next
  case False
  then show ?thesis using process_not_admitted [of clk bs B C p] by auto
qed

lemma process_holds:
  assumes "pipeline_inv B C D p" "holds mid t j (dedup_cache p)"
    and "clk_dedup clk - t \<le> TTL_SECONDS" "j + 1 < CAPACITY"
  shows "holds mid t (j + 1) (dedup_cache (snd (process B C (clk, bs) p)))"
  using process_dedup_state [OF assms(1), of clk bs]
proof
  assume "dedup_cache (snd (process B C (clk, bs) p)) = dedup_cache p"
  with assms(2) show ?thesis by (auto intro: holds_mono)
next
  assume "\<exists>x. dedup_cache (snd (process B C (clk, bs) p)) =
      snd (dedup_check B (clk_dedup clk, x) (dedup_cache p))"
  then obtain x where x: "dedup_cache (snd (process B C (clk, bs) p)) =
      snd (dedup_check B (clk_dedup clk, x) (dedup_cache p))" by blast
  have "bloom_ok B" "dedup_inv B (dedup_cache p)" using assms(1) by (simp_all add: pipeline_inv_def)
  from holds_step [OF this assms(2-4), of x] show ?thesis
    unfolding x by (auto intro: holds_mono split: if_splits)
qed

lemma process_run_holds:
  assumes "pipeline_inv B C D p" "holds mid t j (dedup_cache p)"
    and "\<forall>(clk, bs) \<in> set reqs. clk_dedup clk - t \<le> TTL_SECONDS" "j + length reqs < CAPACITY"
  shows "holds mid t (j + length reqs) (dedup_cache (snd (run_checks (process B C) reqs p)))"
  using assms
proof (induction reqs arbitrary: p j)
  case (Cons r reqs)
  obtain clk bs where r: "r = (clk, bs)" by (cases r)
  have "holds mid t (j + 1) (dedup_cache (snd (process B C (clk, bs) p)))"
    by (rule process_holds [OF Cons.prems(1,2)]) (use Cons.prems(3,4) r in auto)
  with Cons.IH [of "snd (process B C (clk, bs) p)" "j + 1"] pipe.keeps [OF Cons.prems(1)] Cons.prems(3,4)
  show ?case by (simp add: r)
qed simp

text \<open>Every admitted packet with a new identifier is remembered, before its signature is looked at.\<close>

lemma admitted_holds:
  assumes "pipeline_inv B C D p" and a: "admitted clk bs m"
    and new: "\<not> bf_mem B (msg_id m) (bloom (dedup_cache p))"
  shows "holds (msg_id m) (clk_dedup clk) 0 (dedup_cache (snd (process B C (clk, bs) p)))"
proof -
  have B: "bloom_ok B" "dedup_inv B (dedup_cache p)" using assms(1) by (simp_all add: pipeline_inv_def)
  have acc: "fst (dedup_check B (clk_dedup clk, msg_id m) (dedup_cache p)) = Inr None"
    using dedup_check_new_lru [OF B new, of "clk_dedup clk"] by auto
  from assms(1) have "dedup_cache (snd (process B C (clk, bs) p)) =
      snd (dedup_check B (clk_dedup clk, msg_id m) (dedup_cache p))"
    unfolding process_admitted [OF a]
    by (cases rule: process_stateful_cases [where clk = clk and m = m and bs = bs])
       (auto simp: process_signature_state)
  with holds_accept [OF B acc] show ?thesis by simp
qed

lemma holds_mem:
  assumes "pipeline_inv B C D p" "holds mid t j (dedup_cache p)"
  shows "bf_mem B mid (bloom (dedup_cache p))"
proof -
  have "dedup_inv B (dedup_cache p)" using assms(1) by (simp add: pipeline_inv_def)
  from holds_dup [OF this assms(2), of 0] show ?thesis
    by (auto simp: dedup_check_def split: if_splits sum.splits prod.splits)
qed

lemma admitted_remembered:
  assumes "pipeline_inv B C D p" "admitted clk bs m" "\<not> bf_mem B (msg_id m) (bloom (dedup_cache p))"
  shows "bf_mem B (msg_id m) (bloom (dedup_cache (snd (process B C (clk, bs) p))))"
  by (rule holds_mem [OF pipe.keeps [OF assms(1)] admitted_holds [OF assms]])

lemma accepted_holds:
  assumes "pipeline_inv B C D p" "clears B C clk bs p m"
  shows "holds (msg_id m) (clk_dedup clk) 0 (dedup_cache (snd (process B C (clk, bs) p)))"
  using assms by (intro admitted_holds) (simp_all add: clears_def)

lemma in_order_span:
  assumes "in_order ((clk, bs) # reqs @ [(clk', bs')])"
  shows "clk_timestamp clk \<le> clk_dedup clk" "(c, x) \<in> set reqs \<Longrightarrow> clk_dedup c \<le> clk_timestamp clk'"
  using assms by (auto simp: in_order_def readings_def sorted_append)

section \<open>Hops\<close>

text \<open>A packet and the copies that successive relays hand on.\<close>

inductive relayed :: "bytes \<Rightarrow> nat \<Rightarrow> bytes \<Rightarrow> bool" where
  origin: "relayed bs 0 bs"
| hop: "relayed bs n cs \<Longrightarrow> parse_packet cs = Inr m \<Longrightarrow> onward_copy cs m = Inr (Some ds) \<Longrightarrow>
    relayed bs (Suc n) ds"

lemma relayed_same:
  assumes "relayed bs n cs" "parse_packet bs = Inr m"
  shows "\<exists>m'. parse_packet cs = Inr m' \<and> m' = m\<lparr>raw := cs, ttl := ttl m - int n, spray_l := spray_l m div 2 ^ n\<rparr> \<and>
     (0 < n \<longrightarrow> int n < ttl m \<and> 2 ^ n \<le> spray_l m) \<and>
     signed_region cs (payload_len m) = signed_region bs (payload_len m)"
  using assms
proof (induction rule: relayed.induct)
  case (origin bs)
  then show ?case using parse_packet_InrD(2) [OF origin] by simp
next
  case (hop bs n cs m2 ds)
  then obtain m' where m': "parse_packet cs = Inr m'"
    "m' = m\<lparr>raw := cs, ttl := ttl m - int n, spray_l := spray_l m div 2 ^ n\<rparr>"
    "signed_region cs (payload_len m) = signed_region bs (payload_len m)" by blast
  with hop.hyps(2) have "m2 = m'" by simp
  note c = onward_copy_parse [OF hop.hyps(2,3)]
  have "1 < spray_l m div 2 ^ n" "1 < ttl m - int n" using c(4,5) m'(2) \<open>m2 = m'\<close> by simp_all
  moreover have d: "spray_l m div 2 ^ n div 2 = spray_l m div 2 ^ Suc n"
    using zdiv_zmult2_eq [of 2 "spray_l m" "2 ^ n"] by (simp only: power_Suc mult.commute)
  moreover have "2 ^ Suc n \<le> spray_l m"
  proof -
    have "2 * 2 ^ n \<le> spray_l m div 2 ^ n * 2 ^ n" using \<open>1 < spray_l m div 2 ^ n\<close> by simp
    also have "\<dots> \<le> spray_l m" by (simp add: minus_mod_eq_div_mult [symmetric])
    finally show ?thesis by simp
  qed
  ultimately show ?case
    using c(1,3) m' \<open>m2 = m'\<close> by (auto simp del: power_Suc)
qed

lemma relayed_sig:
  assumes "relayed bs n cs" "parse_packet bs = Inr m" "parse_packet cs = Inr m'"
  shows "sig_valid C m' = sig_valid C m"
  using relayed_same [OF assms(1,2)] assms(3) parse_packet_InrD(2) [OF assms(2)]
  by (auto simp: sig_valid_def)

lemma relayed_length: "relayed bs n cs \<Longrightarrow> length cs = length bs"
  by (induction rule: relayed.induct) (use onward_copy_parse(2) in auto)

text \<open>A copy can travel as long as hops and copies last.\<close>

lemma relayed_exists:
  assumes "parse_packet bs = Inr m" "int n < ttl m" "2 ^ n \<le> spray_l m"
  shows "\<exists>cs. relayed bs n cs"
  using assms(2,3)
proof (induction n)
  case 0
  then show ?case using origin by blast
next
  case (Suc n)
  have "(2 :: int) ^ n \<le> 2 ^ Suc n" by simp
  with Suc.prems have "int n < ttl m" "2 ^ n \<le> spray_l m" by linarith+
  with Suc.IH obtain cs where cs: "relayed bs n cs" by blast
  from relayed_same [OF this assms(1)] obtain m' where m': "parse_packet cs = Inr m'"
    "ttl m' = ttl m - int n" "spray_l m' = spray_l m div 2 ^ n" by auto
  have "2 * 2 ^ n div 2 ^ n \<le> spray_l m div 2 ^ n"
    using Suc.prems(2) by (intro zdiv_mono1) simp_all
  then have "1 < ttl m'" "1 < spray_l m'" using m' Suc.prems(1) by simp_all
  then obtain ds where "onward_copy cs m' = Inr (Some ds)"
    using onward_copy_eq [OF m'(1)] by simp
  from hop [OF cs m'(1) this] show ?case by blast
qed

section \<open>A new pipeline\<close>

lemma new_limiter_passes: "0 \<le> now \<Longrightarrow> fst (rate_check (now, e) new_limiter) = Inr None"
  by (simp add: rate_check_def new_limiter_def sender_step_def new_sender_def Let_def)

lemma new_pipeline_clears:
  assumes "bloom_ok B" "parse_packet bs = Inr m" "length bs \<le> 460" "0 < ttl m" "sig_valid C m"
    and "fresh (clk_timestamp clk) (timestamp m)" "0 \<le> clk_rate clk"
  shows "clears B C clk bs (new_pipeline B None) m"
  using assms new_limiter_passes [OF assms(7), of "ephem_id m"]
  by (simp add: clears_def admitted_def new_pipeline_def new_dedup_def new_bloom_def new_tracker_def
      bloom_ok_new(3))

end
