(* ===== verification/Fixtures.thy ===== *)
theory Fixtures
  imports Delivery
begin

text \<open>
  Concrete data on which the properties with hypotheses are instantiated: an identity, a packet
  it signed, the clock, and fresh pipelines over \<open>toy_crypto\<close> and \<open>list_bloom\<close>.
\<close>

definition demo_identity :: device_identity where
  "demo_identity = \<lparr> signing_key = replicate 32 7 \<rparr>"

definition demo_payload :: bytes where "demo_payload = [104, 101, 108, 108, 111]"

definition demo_packet :: bytes where
  "demo_packet =
     (case build_packet toy_crypto demo_identity (replicate 16 1) (replicate 16 2) 1000 5 8 0xFFFF 1 demo_payload of
        Inr bs \<Rightarrow> bs | Inl _ \<Rightarrow> [])"

definition demo_message :: message where
  "demo_message =
     \<lparr> raw = demo_packet, msg_id = replicate 16 1, sender_key = replicate 32 7, ephem_id = replicate 16 2,
       timestamp = 1000, ttl = 5, spray_l = 8, zone_id = 0xFFFF, msg_type = 1, payload_len = 5,
       payload = demo_payload, signature = drop 80 demo_packet \<rparr>"

definition clocks_at :: "time \<Rightarrow> clocks" where
  "clocks_at t = \<lparr> clk_timestamp = t, clk_dedup = t, clk_rate = t, clk_attest = t \<rparr>"

definition demo_pipeline :: "(nat \<times> bytes list) relay_pipeline" where
  "demo_pipeline = new_pipeline list_bloom None"

lemma clocks_at_simps [simp]:
  "clk_timestamp (clocks_at t) = t" "clk_dedup (clocks_at t) = t" "clk_rate (clocks_at t) = t"
  "clk_attest (clocks_at t) = t" "readings (clocks_at t) = [t, t, t, t]"
  by (simp_all add: clocks_at_def readings_def)

lemma demo_args: "packet_args_ok (replicate 16 1) (replicate 16 2) 1000 5 8 0xFFFF 1 demo_payload"
  by (simp add: packet_args_ok_def header_args_ok_def demo_payload_def)

lemma demo_packet_facts:
  "build_packet toy_crypto demo_identity (replicate 16 1) (replicate 16 2) 1000 5 8 0xFFFF 1 demo_payload = Inr demo_packet"
  "parse_packet demo_packet = Inr demo_message" "length demo_packet = 144" "sig_valid toy_crypto demo_message"
proof -
  have k: "public_key toy_crypto demo_identity = replicate 32 7"
    by (simp add: public_key_def toy_crypto_def demo_identity_def)
  from build_packet_parse [OF toy_ed25519_ok demo_args, of demo_identity] obtain bs m where
    b: "build_packet toy_crypto demo_identity (replicate 16 1) (replicate 16 2) 1000 5 8 0xFFFF 1 demo_payload = Inr bs"
    and r: "parse_packet bs = Inr m" "length bs = 139 + length demo_payload" "sig_valid toy_crypto m"
    and m: "m = \<lparr> raw = bs, msg_id = replicate 16 1, sender_key = public_key toy_crypto demo_identity,
      ephem_id = replicate 16 2, timestamp = 1000, ttl = 5, spray_l = 8, zone_id = 0xFFFF, msg_type = 1,
      payload_len = int (length demo_payload), payload = demo_payload,
      signature = drop (75 + length demo_payload) bs \<rparr>" by blast
  have d: "bs = demo_packet" using b by (simp add: demo_packet_def)
  with m k have "m = demo_message" by (simp add: demo_message_def demo_payload_def)
  with b r d show
    "build_packet toy_crypto demo_identity (replicate 16 1) (replicate 16 2) 1000 5 8 0xFFFF 1 demo_payload = Inr demo_packet"
    "parse_packet demo_packet = Inr demo_message" "length demo_packet = 144" "sig_valid toy_crypto demo_message"
    by (simp_all add: demo_payload_def)
qed

lemma demo_message_fields [simp]:
  "msg_id demo_message = replicate 16 1" "ephem_id demo_message = replicate 16 2" "ttl demo_message = 5"
  "spray_l demo_message = 8" "timestamp demo_message = 1000" "sender_key demo_message = replicate 32 7"
  by (simp_all add: demo_message_def)

lemma demo_inv: "pipeline_inv list_bloom toy_crypto D demo_pipeline"
  unfolding demo_pipeline_def
  by (rule new_pipeline_inv) (simp_all add: list_bloom_ok toy_ed25519_errors attested_inv_def)

lemma demo_admitted: "admitted (clocks_at 1000) demo_packet demo_message"
  by (simp add: admitted_def demo_packet_facts fresh_def)

lemma demo_rate: "fst (rate_check (1000, e) new_limiter) = Inr None"
  by (simp add: rate_check_def new_limiter_def sender_step_def new_sender_def Let_def)

lemma demo_clears: "clears list_bloom toy_crypto (clocks_at 1000) demo_packet demo_pipeline demo_message"
  using demo_admitted demo_packet_facts(4) demo_rate [of "replicate 16 2"]
  by (simp add: clears_def demo_pipeline_def new_pipeline_def new_dedup_def new_bloom_def new_tracker_def
      bloom_ok_new(3) [OF list_bloom_ok])

lemma demo_delivered: "accepts (fst (process list_bloom toy_crypto (clocks_at 1000, demo_packet) demo_pipeline)) demo_message"
  using demo_clears by (simp add: accepts_clears [OF demo_inv])

lemma demo_onward: "onward_copy demo_packet demo_message = Inr (Some ((demo_packet[68 := 4])[69 := 4]))"
  by (simp add: onward_copy_eq [OF demo_packet_facts(2)])

text \<open>The demo packet under a signature of zeros.\<close>

definition forged_packet :: bytes where
  "forged_packet = take 75 demo_packet @ demo_payload @ replicate 64 0"

definition forged_message :: message where
  "forged_message = demo_message\<lparr>raw := forged_packet, signature := replicate 64 0\<rparr>"

lemma demo_forged:
  "admitted (clocks_at 999) forged_packet forged_message" "\<not> sig_valid toy_crypto forged_message"
  "msg_id demo_message = msg_id forged_message"
proof -
  let ?m = "demo_message\<lparr>signature := replicate 64 0\<rparr>"
  have "msg_wf ?m" using parse_packet_wf [OF demo_packet_facts(2)] by (simp add: msg_wf_def)
  moreover have "struct_pack HEADER_FORMAT (header_values ?m) = Inr (take 75 demo_packet)"
    using parse_packet_header [OF demo_packet_facts(2)] by (simp add: header_values_def)
  ultimately have "parse_packet (take 75 demo_packet @ payload ?m @ signature ?m) =
      Inr (?m\<lparr>raw := take 75 demo_packet @ payload ?m @ signature ?m\<rparr>)" by (rule parse_packet_build)
  then have p: "parse_packet forged_packet = Inr forged_message"
    by (simp add: forged_message_def forged_packet_def demo_message_def)
  have "length forged_packet = 144"
    by (simp add: forged_packet_def demo_packet_facts(3) demo_payload_def)
  with p show "admitted (clocks_at 999) forged_packet forged_message"
    by (simp add: admitted_def forged_message_def fresh_def)
  have "hd (replicate 64 0 :: bytes) \<noteq> hd (toy_sign (replicate 32 7) x)" for x
    by (simp add: toy_sign_def)
  then have "replicate 64 0 \<noteq> toy_sign (replicate 32 7) x" for x by metis
  then show "\<not> sig_valid toy_crypto forged_message"
    by (simp add: sig_valid_def forged_message_def toy_crypto_def)
  show "msg_id demo_message = msg_id forged_message" by (simp add: forged_message_def)
qed

lemma demo_onward_parse:
  "parse_packet ((demo_packet[68 := 4])[69 := 4]) =
     Inr (demo_message\<lparr>raw := (demo_packet[68 := 4])[69 := 4], ttl := 4, spray_l := 4\<rparr>)"
  using onward_copy_parse(1) [OF demo_packet_facts(2) demo_onward] by simp

theorem signed_region_binds_witness:
  "demo_message\<lparr>raw := (demo_packet[68 := 4])[69 := 4], ttl := 4, spray_l := 4\<rparr> =
   demo_message\<lparr>raw := (demo_packet[68 := 4])[69 := 4], ttl := 4, spray_l := 4, signature := drop 80 demo_packet\<rparr>"
  using signed_region_binds [OF demo_packet_facts(2) demo_onward_parse] by (simp add: demo_message_def)

end
