(* ===== verification/Device.thy ===== *)
theory Device
  imports Fixtures "HOL-Library.Multiset"
begin

text \<open>
  \<^emph>\<open>sim/device.py\<close>: a simulated device around the pipeline, and the mesh of them. The addresses
  of the peers are the devices' numbers; a log line is a value of \<open>log_line\<close>. \<^emph>\<open>transport.send\<close> is an
  argument, over a state \<open>'w\<close>: it may raise, and then the loop over the neighbours ends there.
  \<open>handle_local\<close> and \<open>inject\<close> are the instances with sends that are never refused, which collect the
  frames; sends that are refused are in \<open>Transport_Contract\<close> and \<open>Mesh_Threads\<close>.
  \<open>net_step\<close> is the mesh whose devices handle one frame at a time: some frame in
  flight reaches its device at some clock, or is lost.
\<close>

section \<open>Devices\<close>

definition BROADCAST_ZONE :: int where [simp]: "BROADCAST_ZONE = 0xFFFF"

datatype log_line =
    Injected bytes int int int
  | Received pystr
  | Dropped reason
  | Delivered bytes int
  | Relayed bytes nat int int

record 'b device =
  dev_zone :: int
  dev_identity :: device_identity
  dev_pipeline :: "'b relay_pipeline"
  dev_neighbors :: "nat list"

type_synonym frame = "nat \<times> bytes"

text \<open>
  What \<^emph>\<open>_handle_local\<close> does with the pipeline's answer, up to its loop: the lines it logs and, if the
  message is passed on, the line for a neighbour and the new packet.
\<close>

definition relay_plan :: "'b device \<Rightarrow> pipeline_result \<Rightarrow> log_line list \<times> ((nat \<Rightarrow> log_line) \<times> bytes) option res" where
  "relay_plan dev result =
     (if outcome result = DROP then ([Dropped (drop_reason result)], Inr None)
      else case delivered result of
        None \<Rightarrow> ([], Inl AttributeError)
      | Some msg \<Rightarrow>
          let log1 = (if zone_id msg \<in> {dev_zone dev, BROADCAST_ZONE}
                      then [Delivered (take 4 (msg_id msg)) (zone_id msg)] else []);
              copies = split_copies (spray_l msg) in
          (log1,
           if copies_forward copies > 0 \<and> ttl msg > 1
           then res_bind (rewrite_ttl_and_spray (raw msg) (ttl msg - 1) (copies_forward copies)) (\<lambda>new_raw.
                  Inr (Some (\<lambda>peer. Relayed (take 4 (msg_id msg)) peer (ttl msg - 1) (copies_forward copies), new_raw)))
           else Inr None))"

text \<open>The loop over the neighbours: a send that raises leaves it.\<close>

fun relay_loop ::
    "(nat \<Rightarrow> bytes \<Rightarrow> 'w \<Rightarrow> unit res \<times> 'w) \<Rightarrow> bytes \<Rightarrow> (nat \<Rightarrow> log_line) \<Rightarrow> nat list \<Rightarrow> 'w \<Rightarrow> unit res \<times> log_line list \<times> 'w" where
  "relay_loop send bs line [] w = (Inr (), [], w)"
| "relay_loop send bs line (peer # ps) w =
     (case send peer bs w of
        (Inl e, w1) \<Rightarrow> (Inl e, [], w1)
      | (Inr _, w1) \<Rightarrow> (case relay_loop send bs line ps w1 of (r, logs, w2) \<Rightarrow> (r, line peer # logs, w2)))"

definition handle_local_with ::
    "(nat \<Rightarrow> bytes \<Rightarrow> 'w \<Rightarrow> unit res \<times> 'w) \<Rightarrow> 'b bloom_ops \<Rightarrow> crypto \<Rightarrow> clocks \<times> bytes \<Rightarrow> 'b device \<times> 'w
     \<Rightarrow> (unit res \<times> log_line list) \<times> 'b device \<times> 'w" where
  "handle_local_with send B C req s =
     (case s of (dev, w) \<Rightarrow>
      case process B C req (dev_pipeline dev) of
        (Inl e, p) \<Rightarrow> ((Inl e, []), dev\<lparr>dev_pipeline := p\<rparr>, w)
      | (Inr result, p) \<Rightarrow>
          (case relay_plan dev result of
             (log1, Inl e) \<Rightarrow> ((Inl e, log1), dev\<lparr>dev_pipeline := p\<rparr>, w)
           | (log1, Inr None) \<Rightarrow> ((Inr (), log1), dev\<lparr>dev_pipeline := p\<rparr>, w)
           | (log1, Inr (Some (line, new_raw))) \<Rightarrow>
               (case relay_loop send new_raw line (dev_neighbors dev) w of
                  (r, logs, w1) \<Rightarrow> ((r, log1 @ logs), dev\<lparr>dev_pipeline := p\<rparr>, w1))))"

text \<open>\<^emph>\<open>inject\<close>: a packet of the device's own, handled as if received.\<close>

definition inject_packet ::
    "crypto \<Rightarrow> time \<Rightarrow> bytes \<Rightarrow> int \<Rightarrow> int \<Rightarrow> int \<Rightarrow> bytes \<Rightarrow> 'b device \<Rightarrow> bytes res" where
  "inject_packet C now pl hops l zid mid dev =
     build_packet C (dev_identity dev) mid (replicate 16 2) (py_int now) hops l zid 1 pl"

definition inject_with ::
    "(nat \<Rightarrow> bytes \<Rightarrow> 'w \<Rightarrow> unit res \<times> 'w) \<Rightarrow> 'b bloom_ops \<Rightarrow> crypto \<Rightarrow> time \<Rightarrow> clocks \<Rightarrow> bytes \<Rightarrow> int \<Rightarrow> int \<Rightarrow> int \<Rightarrow> bytes
     \<Rightarrow> 'b device \<times> 'w \<Rightarrow> (unit res \<times> log_line list) \<times> 'b device \<times> 'w" where
  "inject_with send B C now clk pl hops l zid mid s =
     (case inject_packet C now pl hops l zid mid (fst s) of
        Inl e \<Rightarrow> ((Inl e, []), s)
      | Inr bs \<Rightarrow>
          (case handle_local_with send B C (clk, bs) s of ((r, logs), s') \<Rightarrow>
           ((r, Injected (take 4 mid) zid hops l # logs), s')))"

text \<open>\<^emph>\<open>_on_receive\<close>: the callback of the transport.\<close>

definition on_receive_with ::
    "(nat \<Rightarrow> bytes \<Rightarrow> 'w \<Rightarrow> unit res \<times> 'w) \<Rightarrow> 'b bloom_ops \<Rightarrow> crypto \<Rightarrow> clocks \<Rightarrow> pystr \<Rightarrow> bytes
     \<Rightarrow> 'b device \<times> 'w \<Rightarrow> (unit res \<times> log_line list) \<times> 'b device \<times> 'w" where
  "on_receive_with send B C clk sender_peer_id bs s =
     (case handle_local_with send B C (clk, bs) s of ((r, logs), s') \<Rightarrow>
      ((r, Received sender_peer_id # logs), s'))"

section \<open>Sends that are never refused\<close>

definition collect_send :: "nat \<Rightarrow> bytes \<Rightarrow> frame list \<Rightarrow> unit res \<times> frame list" where
  "collect_send peer bs fs = (Inr (), fs @ [(peer, bs)])"

text \<open>The result and the log with the frames collected.\<close>

definition collected ::
    "(unit res \<times> log_line list) \<times> 'b device \<times> frame list \<Rightarrow> (log_line list \<times> frame list) res \<times> 'b device" where
  "collected x =
     (case x of ((Inl e, _), dev, _) \<Rightarrow> (Inl e, dev)
      | ((Inr _, logs), dev, fs) \<Rightarrow> (Inr (logs, fs), dev))"

definition handle_local ::
    "'b bloom_ops \<Rightarrow> crypto \<Rightarrow> clocks \<times> bytes \<Rightarrow> 'b device \<Rightarrow> (log_line list \<times> frame list) res \<times> 'b device" where
  "handle_local B C req dev = collected (handle_local_with collect_send B C req (dev, []))"

definition inject ::
    "'b bloom_ops \<Rightarrow> crypto \<Rightarrow> time \<Rightarrow> clocks \<Rightarrow> bytes \<Rightarrow> int \<Rightarrow> int \<Rightarrow> int \<Rightarrow> bytes \<Rightarrow> 'b device
     \<Rightarrow> (log_line list \<times> frame list) res \<times> 'b device" where
  "inject B C now clk pl hops l zid mid dev =
     collected (inject_with collect_send B C now clk pl hops l zid mid (dev, []))"

definition device_on_receive ::
    "'b bloom_ops \<Rightarrow> crypto \<Rightarrow> clocks \<Rightarrow> pystr \<Rightarrow> bytes \<Rightarrow> 'b device \<Rightarrow> (log_line list \<times> frame list) res \<times> 'b device" where
  "device_on_receive B C clk sender_peer_id bs dev =
     collected (on_receive_with collect_send B C clk sender_peer_id bs (dev, []))"

lemma relay_loop_collect:
  "relay_loop collect_send bs line ps fs = (Inr (), map line ps, fs @ map (\<lambda>peer. (peer, bs)) ps)"
  by (induction ps arbitrary: fs) (simp_all add: collect_send_def)

text \<open>The frames are what is left of the pipeline's answer.\<close>

lemma handle_local_eq:
  "handle_local B C req dev =
     (case process B C req (dev_pipeline dev) of
        (Inl e, p) \<Rightarrow> (Inl e, dev\<lparr>dev_pipeline := p\<rparr>)
      | (Inr result, p) \<Rightarrow>
          (case relay_plan dev result of
             (log1, Inl e) \<Rightarrow> Inl e
           | (log1, Inr None) \<Rightarrow> Inr (log1, [])
           | (log1, Inr (Some (line, new_raw))) \<Rightarrow>
               Inr (log1 @ map line (dev_neighbors dev), map (\<lambda>peer. (peer, new_raw)) (dev_neighbors dev)),
           dev\<lparr>dev_pipeline := p\<rparr>))"
  by (auto simp: handle_local_def handle_local_with_def collected_def relay_loop_collect
      split: prod.splits sum.splits option.splits)

lemma inject_eq:
  "inject B C now clk pl hops l zid mid dev =
     (case inject_packet C now pl hops l zid mid dev of
        Inl e \<Rightarrow> (Inl e, dev)
      | Inr bs \<Rightarrow>
          (case handle_local B C (clk, bs) dev of (r, dev') \<Rightarrow>
           (res_bind r (\<lambda>(logs, sends). Inr (Injected (take 4 mid) zid hops l # logs, sends)), dev')))"
  by (auto simp: inject_def inject_with_def handle_local_def collected_def split: prod.splits sum.splits)

lemma device_on_receive_eq:
  "device_on_receive B C clk sender_peer_id bs dev =
     (case handle_local B C (clk, bs) dev of (r, dev') \<Rightarrow>
      (res_bind r (\<lambda>(logs, sends). Inr (Received sender_peer_id # logs, sends)), dev'))"
  by (auto simp: device_on_receive_def on_receive_with_def handle_local_def collected_def split: prod.splits sum.splits)

lemma relay_plan_drop [simp]:
  "outcome result = DROP \<Longrightarrow> relay_plan dev result = ([Dropped (drop_reason result)], Inr None)"
  by (simp add: relay_plan_def)

section \<open>What a device sends\<close>

lemma process_deliver_delivered:
  assumes "process_deliver bs m p = (Inr x, p')" "outcome x \<noteq> DROP"
  shows "delivered x = Some m"
  using assms by (auto simp: process_deliver_def drop_with_def split: prod.splits sum.splits if_splits)

lemma process_attest_delivered:
  assumes "process_attest now bs m p = (Inr x, p')" "outcome x \<noteq> DROP"
  shows "delivered x = Some m"
  using assms process_deliver_delivered [of bs m _ x]
  by (auto simp: process_attest_def drop_with_def split: prod.splits sum.splits option.splits if_splits)

lemma process_stateful_delivered:
  assumes "process_stateful B C clk bs m p = (Inr x, p')" "outcome x \<noteq> DROP"
  shows "delivered x = Some m"
  using assms process_attest_delivered [of "clk_attest clk" bs m _ x]
  by (auto simp: process_stateful_def process_signature_def drop_with_def
      split: prod.splits sum.splits if_splits)

lemma process_delivered_parse:
  assumes "process B C (clk, bs) p = (Inr x, p')" "outcome x \<noteq> DROP"
  shows "\<exists>m. parse_packet bs = Inr m \<and> delivered x = Some m"
  using assms process_stateful_delivered [of B C clk bs _ p x]
  by (auto simp: process_def drop_with_def split: sum.splits if_splits)

text \<open>The rewritten packet is the pipeline's own onward copy.\<close>

lemma rewrite_is_onward:
  assumes "parse_packet bs = Inr m"
  shows "(if 0 < copies_forward (split_copies (spray_l m)) \<and> 1 < ttl m
          then res_bind (rewrite_ttl_and_spray (raw m) (ttl m - 1) (copies_forward (split_copies (spray_l m)))) (\<lambda>f. Inr (Some f))
          else Inr None) = onward_copy bs m"
proof -
  have wf: "0 \<le> ttl m" "ttl m < 256" "0 \<le> spray_l m" "spray_l m < 256"
    using parse_packet_wf [OF assms] by (simp_all add: msg_wf_def)
  have "raw m = bs" "139 \<le> length bs" using parse_packet_InrD(1,2) [OF assms] by simp_all
  with wf show ?thesis
    by (auto simp: onward_copy_eq [OF assms] split_copies_forward rewrite_ttl_and_spray_eq)
qed

lemma relay_plan_onward:
  assumes "outcome x \<noteq> DROP" "parse_packet bs = Inr m" "delivered x = Some m"
  shows "\<exists>logs line. relay_plan dev x = (logs, Inr (map_option (\<lambda>f. (line, f)) (onward bs m)))"
  using rewrite_is_onward [OF assms(2)] assms
  by (cases "rewrite_ttl_and_spray (raw m) (ttl m - 1) (copies_forward (split_copies (spray_l m)))";
      cases "onward bs m")
     (auto simp: relay_plan_def Let_def onward_copy_onward [OF assms(2)] split: if_splits option.splits)

lemma handle_local_delivered:
  assumes "process B C (clk, bs) (dev_pipeline dev) = (Inr x, p)" "outcome x \<noteq> DROP"
    and m: "parse_packet bs = Inr m" "delivered x = Some m"
  shows "\<exists>logs. handle_local B C (clk, bs) dev =
    (Inr (logs, case onward bs m of None \<Rightarrow> [] | Some f \<Rightarrow> map (\<lambda>peer. (peer, f)) (dev_neighbors dev)),
     dev\<lparr>dev_pipeline := p\<rparr>)"
  using relay_plan_onward [OF assms(2) m, of dev] assms(1)
  by (auto simp: handle_local_eq split: option.splits)

text \<open>Every frame a device sends is a copy of the packet it handled, with fewer hops left.\<close>

lemma handle_local_sends:
  assumes "handle_local B C (clk, bs) dev = (Inr (logs, sends), dev')" "(peer, f) \<in> set sends"
  shows "peer \<in> set (dev_neighbors dev)"
    "\<exists>m. parse_packet bs = Inr m \<and> onward_copy bs m = Inr (Some f)"
proof -
  obtain r p where rp: "process B C (clk, bs) (dev_pipeline dev) = (r, p)" by fastforce
  have "\<exists>x. r = Inr x \<and> outcome x \<noteq> DROP"
  proof (cases r)
    case (Inr x)
    then show ?thesis using rp assms by (cases "outcome x = DROP") (auto simp: handle_local_eq)
  qed (use rp assms(1) in \<open>simp add: handle_local_eq\<close>)
  with rp obtain x where x: "process B C (clk, bs) (dev_pipeline dev) = (Inr x, p)" "outcome x \<noteq> DROP" by blast
  from process_delivered_parse [OF this] obtain m where m: "parse_packet bs = Inr m" "delivered x = Some m" by blast
  from handle_local_delivered [OF x m] assms
  show "peer \<in> set (dev_neighbors dev)" "\<exists>m. parse_packet bs = Inr m \<and> onward_copy bs m = Inr (Some f)"
    using m(1) onward_copy_onward [OF m(1)] by (auto split: option.splits)
qed

interpretation device_gate: gate "handle_local B C" "\<lambda>d. pipeline_inv B C D (dev_pipeline d)" for B C D
proof
  fix s :: "'a device" and req :: "clocks \<times> bytes"
  assume inv: "pipeline_inv B C D (dev_pipeline s)"
  obtain clk bs where req: "req = (clk, bs)" by fastforce
  obtain x p where x: "process B C (clk, bs) (dev_pipeline s) = (Inr x, p)" "pipeline_inv B C D p"
    using pipe.value_of [OF inv] by metis
  have "pipeline_inv B C D (dev_pipeline (snd (handle_local B C req s))) \<and> returns (fst (handle_local B C req s))"
  proof (cases "outcome x = DROP")
    case True
    with x req show ?thesis by (simp add: handle_local_eq)
  next
    case False
    from process_delivered_parse [OF x(1) False] obtain m where m: "parse_packet bs = Inr m" "delivered x = Some m" by blast
    from handle_local_delivered [OF x(1) False m] x(2) req show ?thesis by auto
  qed
  then show "pipeline_inv B C D (dev_pipeline (snd (handle_local B C req s)))" "returns (fst (handle_local B C req s))"
    by auto
qed

section \<open>The mesh\<close>

record 'b net =
  devices :: "nat \<Rightarrow> 'b device"
  in_flight :: "frame multiset"

inductive net_step :: "'b bloom_ops \<Rightarrow> crypto \<Rightarrow> 'b net \<Rightarrow> 'b net \<Rightarrow> bool" for B C where
  arrive: "handle_local B C (clk, bs) (devices n d) = (Inr (logs, sends), dev) \<Longrightarrow>
    in_flight n = add_mset (d, bs) rest \<Longrightarrow>
    net_step B C n (n\<lparr>devices := (devices n)(d := dev), in_flight := rest + mset sends\<rparr>)"
| failed: "handle_local B C (clk, bs) (devices n d) = (Inl e, dev) \<Longrightarrow>
    in_flight n = add_mset (d, bs) rest \<Longrightarrow>
    net_step B C n (n\<lparr>devices := (devices n)(d := dev), in_flight := rest\<rparr>)"
| lost: "in_flight n = add_mset f rest \<Longrightarrow> net_step B C n (n\<lparr>in_flight := rest\<rparr>)"

text \<open>The hops a frame has left.\<close>

definition hops_left :: "frame \<Rightarrow> nat" where
  "hops_left f = (case parse_packet (snd f) of Inr m \<Rightarrow> nat (ttl m) | Inl _ \<Rightarrow> 0)"

lemma onward_hops_left:
  assumes "parse_packet bs = Inr m" "onward_copy bs m = Inr (Some f)"
  shows "hops_left (peer, f) < hops_left (d, bs)"
  using onward_copy_parse(1,4) [OF assms] assms(1) by (simp add: hops_left_def)

lemma net_step_decreases:
  assumes "net_step B C n n'"
  shows "(image_mset hops_left (in_flight n'), image_mset hops_left (in_flight n)) \<in> mult less_than"
  using assms
proof cases
  case (arrive clk bs d logs sends dev rest)
  have "hops_left x < hops_left (d, bs)" if "x \<in> set sends" for x
    using handle_local_sends(2) [OF arrive(2), of "fst x" "snd x"] that onward_hops_left [of bs _ "snd x" "fst x" d] by auto
  then have "\<forall>k \<in># image_mset hops_left (mset sends). \<exists>j \<in># {#hops_left (d, bs)#}. (k, j) \<in> less_than"
    by auto
  from one_step_implies_mult [OF _ this, of "image_mset hops_left rest"] arrive(1,3) show ?thesis by simp
next
  case (failed clk bs d e dev rest)
  then show ?thesis by (simp add: subset_implies_mult)
next
  case (lost f rest)
  then show ?thesis by (simp add: subset_implies_mult)
qed

lemma wf_net_step: "wf {(n', n). net_step B C n n'}"
proof -
  have "wf (inv_image (mult less_than) (\<lambda>n :: 'a net. image_mset hops_left (in_flight n)))"
    by (intro wf_inv_image wf_mult) simp
  then show ?thesis by (rule wf_subset) (auto simp: net_step_decreases)
qed

section \<open>Devices and the mesh as their users see them\<close>

text \<open>
  A device never raises and forwards what the pipeline computed: from a good state it hands
  the onward copy of a delivered packet to each of its neighbours, and nothing for a dropped one;
  \<^emph>\<open>rewrite_ttl_and_spray\<close> and \<^emph>\<open>_onward_copy\<close> agree byte for byte.
\<close>

lemma device_forwards_onward_copy:
  assumes "pipeline_inv B C D (dev_pipeline dev)"
  shows "\<exists>result logs p. process B C (clk, bs) (dev_pipeline dev) = (Inr result, p) \<and>
    handle_local B C (clk, bs) dev =
      (Inr (logs, case forward result of None \<Rightarrow> [] | Some f \<Rightarrow> map (\<lambda>peer. (peer, f)) (dev_neighbors dev)),
       dev\<lparr>dev_pipeline := p\<rparr>)"
proof -
  obtain x p where x: "process B C (clk, bs) (dev_pipeline dev) = (Inr x, p)"
    using pipe.value_of [OF assms] by metis
  show ?thesis
  proof (cases "\<exists>m. clears B C clk bs (dev_pipeline dev) m")
    case True
    then obtain m where m: "clears B C clk bs (dev_pipeline dev) m" by blast
    have d: "x = delivery m (onward bs m)" using process_outcome(1) [OF assms m] x by simp
    have "parse_packet bs = Inr m" using m by (simp add: clears_def admitted_def)
    from handle_local_delivered [OF x _ this] d x show ?thesis by (auto simp: delivery_def)
  next
    case False
    from process_outcome(2) [OF assms False] x obtain r where "x = drop_with (Some r)" by (auto simp: drops_def)
    with x show ?thesis by (auto simp: handle_local_eq drop_with_def)
  qed
qed

definition demo_device :: "(nat \<times> bytes list) device" where
  "demo_device = \<lparr> dev_zone = 3, dev_identity = demo_identity, dev_pipeline = demo_pipeline, dev_neighbors = [1, 2] \<rparr>"

lemma demo_device_inv: "pipeline_inv list_bloom toy_crypto D (dev_pipeline demo_device)"
  using demo_inv by (simp add: demo_device_def)

lemma demo_process:
  "fst (process list_bloom toy_crypto (clocks_at 1000, demo_packet) demo_pipeline) =
     Inr (delivery demo_message (Some ((demo_packet[68 := 4])[69 := 4])))"
  using process_outcome(1) [OF demo_inv demo_clears] demo_onward by (simp add: onward_def)

lemma device_forwards_demo:
  "\<exists>logs dev. handle_local list_bloom toy_crypto (clocks_at 1000, demo_packet) demo_device =
     (Inr (logs, [(1, (demo_packet[68 := 4])[69 := 4]), (2, (demo_packet[68 := 4])[69 := 4])]), dev)"
proof -
  obtain result logs p where r:
    "process list_bloom toy_crypto (clocks_at 1000, demo_packet) demo_pipeline = (Inr result, p)"
    "handle_local list_bloom toy_crypto (clocks_at 1000, demo_packet) demo_device =
      (Inr (logs, case forward result of None \<Rightarrow> [] | Some f \<Rightarrow> map (\<lambda>peer. (peer, f)) (dev_neighbors demo_device)),
       demo_device\<lparr>dev_pipeline := p\<rparr>)"
    using device_forwards_onward_copy [OF demo_device_inv, of "clocks_at 1000" demo_packet] by (auto simp: demo_device_def)
  from r(1) demo_process have "forward result = Some ((demo_packet[68 := 4])[69 := 4])" by (simp add: delivery_def)
  with r(2) show ?thesis by (simp add: demo_device_def)
qed

text \<open>
  Flooding ends: whatever the devices, their links, the clock readings and the order of
  arrival, no mesh can go on for ever delivering and relaying the frames in flight.
\<close>

lemma flooding_terminates:
  "\<not> (\<exists>run :: nat \<Rightarrow> 'b net. \<forall>i. net_step B C (run i) (run (Suc i)))"
  using wf_net_step [of B C] unfolding wf_iff_no_infinite_down_chain by blast

end
