(* ===== verification/Reach.thy ===== *)
theory Reach
  imports Device
begin

text \<open>
  How far a message can get in a mesh of devices. A frame in flight is a copy some number of
  hops away from the packet it started as, along links of the mesh; the hop limit and the halved
  copy budget bound that number, whatever the order of arrival, losses and clocks.
\<close>

definition link :: "'b net \<Rightarrow> nat \<Rightarrow> nat \<Rightarrow> bool" where
  "link n i j \<longleftrightarrow> j \<in> set (dev_neighbors (devices n i))"

lemma handle_local_frame [simp]:
  "dev_neighbors (snd (handle_local B C req dev)) = dev_neighbors dev"
  "dev_zone (snd (handle_local B C req dev)) = dev_zone dev"
  by (auto simp: handle_local_eq split: prod.splits sum.splits)

lemma net_step_link:
  assumes "net_step B C n n'"
  shows "link n' = link n"
  using assms
proof cases
  case (arrive clk bs d logs sends dev rest)
  have "dev_neighbors dev = dev_neighbors (devices n d)"
    using handle_local_frame(1) [of B C "(clk, bs)" "devices n d"] arrive(2) by simp
  with arrive(1) show ?thesis by (auto simp: link_def fun_eq_iff)
next
  case (failed clk bs d e dev rest)
  have "dev_neighbors dev = dev_neighbors (devices n d)"
    using handle_local_frame(1) [of B C "(clk, bs)" "devices n d"] failed(2) by simp
  with failed(1) show ?thesis by (auto simp: link_def fun_eq_iff)
next
  case (lost f rest)
  then show ?thesis by (simp add: link_def fun_eq_iff)
qed

text \<open>\<open>carried\<close>: the frame is a copy as many hops old as its device is links away.\<close>

definition carried :: "(nat \<Rightarrow> nat \<Rightarrow> bool) \<Rightarrow> nat \<Rightarrow> bytes \<Rightarrow> frame \<Rightarrow> bool" where
  "carried lnk src bs f \<longleftrightarrow> (\<exists>h. relayed bs h (snd f) \<and> (lnk ^^ h) src (fst f))"

lemma net_step_carried:
  assumes "net_step B C n n'" "\<forall>f \<in># in_flight n. carried (link n) src bs f"
  shows "\<forall>f \<in># in_flight n'. carried (link n') src bs f"
  using assms(1)
proof cases
  case (arrive clk cs d logs sends dev rest)
  have "carried (link n) src bs (d, cs)" using assms(2) arrive(3) by simp
  then obtain h where h: "relayed bs h cs" "(link n ^^ h) src d" by (auto simp: carried_def)
  have "carried (link n) src bs f" if f: "f \<in> set sends" for f
  proof -
    note s = handle_local_sends [OF arrive(2), of "fst f" "snd f"]
    obtain m where "parse_packet cs = Inr m" "onward_copy cs m = Inr (Some (snd f))" using s(2) f by auto
    from hop [OF h(1) this] have "relayed bs (Suc h) (snd f)" .
    moreover have "(link n ^^ Suc h) src (fst f)"
      using h(2) s(1) f by (auto simp: link_def intro: relpowp_Suc_I)
    ultimately show ?thesis unfolding carried_def by blast
  qed
  with assms(2) arrive show ?thesis unfolding net_step_link [OF assms(1)] by auto
next
  case (failed clk cs d e dev rest)
  with assms show ?thesis unfolding net_step_link [OF assms(1)] by auto
next
  case (lost f rest)
  with assms show ?thesis unfolding net_step_link [OF assms(1)] by auto
qed

lemma net_run_carried:
  assumes "(net_step B C)\<^sup>*\<^sup>* n n'" "\<forall>f \<in># in_flight n. carried (link n) src bs f"
  shows "(\<forall>f \<in># in_flight n'. carried (link n) src bs f) \<and> link n' = link n"
  using assms
proof (induction rule: rtranclp_induct)
  case (step y z)
  then have "link z = link n" using net_step_link by metis
  with step net_step_carried [OF step(2)] show ?case by simp
qed simp

lemma halvings_of_eight:
  assumes "0 < h \<longrightarrow> (2 :: int) ^ h \<le> 8"
  shows "h \<le> 3"
proof (rule ccontr)
  assume h: "\<not> h \<le> 3"
  then have "(2 :: int) ^ 4 \<le> 2 ^ h" by (intro power_increasing) simp_all
  with assms h show False by simp
qed

text \<open>
  How far a message gets: when a packet is handed to a device, then in every run of the mesh each
  frame in flight is a copy of it that is as many hops old as its device is links away from the first
  one, and that number is below the hop limit and its power of two within the copy budget. With the
  harness's defaults, five hops and eight copies, no device more than three links away ever sees the
  message.
\<close>

lemma spray_radius:
  assumes "parse_packet bs = Inr m" "in_flight n = {#(src, bs)#}"
    and "(net_step B C)\<^sup>*\<^sup>* n n'" "(d, cs) \<in># in_flight n'"
  shows "\<exists>h. relayed bs h cs \<and> (link n ^^ h) src d \<and> (0 < h \<longrightarrow> int h < ttl m \<and> 2 ^ h \<le> spray_l m) \<and>
    (spray_l m = 8 \<longrightarrow> h \<le> 3)"
proof -
  have "carried (link n) src bs (src, bs)"
    unfolding carried_def using origin by (intro exI [of _ 0]) simp
  with assms(2) have "\<forall>f \<in># in_flight n. carried (link n) src bs f" by simp
  from net_run_carried [OF assms(3) this] assms(4) obtain h where h: "relayed bs h cs" "(link n ^^ h) src d"
    by (auto simp: carried_def)
  then have "0 < h \<longrightarrow> int h < ttl m \<and> 2 ^ h \<le> spray_l m" using relayed_same [OF h(1) assms(1)] by blast
  with h halvings_of_eight [of h] show ?thesis by auto
qed

section \<open>How many copies it takes along\<close>

definition budget :: "bytes \<Rightarrow> int" where
  "budget bs = (case parse_packet bs of Inr m \<Rightarrow> spray_l m | Inl _ \<Rightarrow> 0)"

text \<open>
  The mesh over-commits the copy budget: a device that delivers a packet with \<open>L\<close> copies left hands
  each of its \<open>k\<close> neighbours the peer's half, so what it sends adds up to \<open>k\<close> times half of \<open>L\<close>; with
  four neighbours or more that is beyond \<open>L\<close>, where binary spraying would have handed out half once.
\<close>

lemma relay_overcommits:
  assumes "pipeline_inv B C D (dev_pipeline dev)" "clears B C clk bs (dev_pipeline dev) m"
    and "1 < ttl m" "2 \<le> spray_l m"
  shows "\<exists>logs sends dev'. handle_local B C (clk, bs) dev = (Inr (logs, sends), dev') \<and>
    (\<Sum>f \<leftarrow> sends. budget (snd f)) = int (length (dev_neighbors dev)) * (spray_l m div 2) \<and>
    (4 \<le> length (dev_neighbors dev) \<longrightarrow> spray_l m < (\<Sum>f \<leftarrow> sends. budget (snd f)))"
proof -
  have parse: "parse_packet bs = Inr m" using assms(2) by (simp add: clears_def admitted_def)
  obtain f where f: "onward_copy bs m = Inr (Some f)" using onward_copy_eq [OF parse] assms(3,4) by simp
  obtain p where x: "process B C (clk, bs) (dev_pipeline dev) = (Inr (delivery m (Some f)), p)"
    using process_outcome(1) [OF assms(1,2)] f onward_copy_onward [OF parse] by (metis Inr_inject prod.collapse)
  from handle_local_delivered [OF x _ parse] f onward_copy_onward [OF parse] obtain logs where
    h: "handle_local B C (clk, bs) dev = (Inr (logs, map (\<lambda>peer. (peer, f)) (dev_neighbors dev)), dev\<lparr>dev_pipeline := p\<rparr>)"
    by (auto simp: delivery_def)
  have "budget f = spray_l m div 2" using onward_copy_parse(1) [OF parse f] by (simp add: budget_def)
  then have sum: "(\<Sum>g \<leftarrow> map (\<lambda>peer. (peer, f)) (dev_neighbors dev). budget (snd g)) =
      int (length (dev_neighbors dev)) * (spray_l m div 2)"
    by (simp add: o_def sum_list_triv)
  have "spray_l m < int (length (dev_neighbors dev)) * (spray_l m div 2)" if "4 \<le> length (dev_neighbors dev)"
  proof -
    have "4 * (spray_l m div 2) \<le> int (length (dev_neighbors dev)) * (spray_l m div 2)"
      using that assms(4) by (intro mult_right_mono) simp_all
    moreover have "spray_l m < 4 * (spray_l m div 2)" using assms(4) by presburger
    ultimately show ?thesis by simp
  qed
  with h sum show ?thesis by auto
qed

lemma relay_overcommits_witness:
  "\<exists>logs sends dev'. handle_local list_bloom toy_crypto (clocks_at 1000, demo_packet) (demo_device\<lparr>dev_neighbors := [1, 2, 3, 4]\<rparr>) =
      (Inr (logs, sends), dev') \<and> (\<Sum>f \<leftarrow> sends. budget (snd f)) = 16 \<and> spray_l demo_message = 8"
proof -
  have "pipeline_inv list_bloom toy_crypto undefined (dev_pipeline (demo_device\<lparr>dev_neighbors := [1, 2, 3, 4]\<rparr>))"
    using demo_device_inv by simp
  from relay_overcommits [OF this, of "clocks_at 1000" demo_packet demo_message] demo_clears
  show ?thesis by (auto simp: demo_device_def demo_packet_facts)
qed

section \<open>And it gets that far\<close>

lemma relayed_next:
  assumes "relayed bs h cs" "parse_packet bs = Inr m" "int (Suc h) < ttl m" "2 ^ Suc h \<le> spray_l m"
  shows "\<exists>m' ds. parse_packet cs = Inr m' \<and> onward_copy cs m' = Inr (Some ds)"
proof -
  from relayed_same [OF assms(1,2)] obtain m' where m': "parse_packet cs = Inr m'"
    "ttl m' = ttl m - int h" "spray_l m' = spray_l m div 2 ^ h" by auto
  have "2 * 2 ^ h div 2 ^ h \<le> spray_l m div 2 ^ h"
    using assms(4) by (intro zdiv_mono1) simp_all
  then have "1 < ttl m'" "1 < spray_l m'" using m' assms(3) by simp_all
  then show ?thesis using onward_copy_eq [OF m'(1)] m'(1) by simp
qed

text \<open>A device with a new pipeline hands every copy of a good packet on to all its neighbours.\<close>

lemma new_device_forwards:
  assumes "bloom_ok B" "ed25519_errors C" "parse_packet bs = Inr m" "sig_valid C m" "length bs \<le> 460"
    and "relayed bs h cs" "int (Suc h) < ttl m" "2 ^ Suc h \<le> spray_l m"
    and "dev_pipeline dev = new_pipeline B None"
    and "fresh (clk_timestamp clk) (timestamp m)" "0 \<le> clk_rate clk"
  shows "\<exists>ds logs dev'. relayed bs (Suc h) ds \<and> handle_local B C (clk, cs) dev =
    (Inr (logs, map (\<lambda>peer. (peer, ds)) (dev_neighbors dev)), dev')"
proof -
  obtain m' where m': "parse_packet cs = Inr m'"
    "m' = m\<lparr>raw := cs, ttl := ttl m - int h, spray_l := spray_l m div 2 ^ h\<rparr>"
    using relayed_same [OF assms(6,3)] by blast
  obtain ds where ds: "onward_copy cs m' = Inr (Some ds)"
    using relayed_next [OF assms(6,3,7,8)] m'(1) by auto
  have inv: "pipeline_inv B C undefined (new_pipeline B None)"
    by (intro new_pipeline_inv assms(1,2)) (simp add: attested_inv_def)
  have "sig_valid C m'" using relayed_sig [OF assms(6,3) m'(1), of C] assms(4) by simp
  then have "clears B C clk cs (new_pipeline B None) m'"
    using assms(5,7,10,11) m'(2) relayed_length [OF assms(6)]
    by (intro new_pipeline_clears [OF assms(1) m'(1)]) simp_all
  from process_outcome(1) [OF inv this] obtain p where
    "process B C (clk, cs) (dev_pipeline dev) = (Inr (delivery m' (Some ds)), p)"
    using ds assms(9) by (metis (no_types, lifting) fst_conv onward_copy_onward [OF m'(1)] prod.collapse sum.inject(2))
  from handle_local_delivered [OF this _ m'(1)] ds onward_copy_onward [OF m'(1)]
  show ?thesis using hop [OF assms(6) m'(1) ds] by (auto simp: delivery_def)
qed

text \<open>One hop: a frame at a new device brings a copy to each neighbour and changes no other device.\<close>

lemma hop_forward:
  assumes "bloom_ok B" "ed25519_errors C" "parse_packet bs = Inr m" "sig_valid C m" "length bs \<le> 460"
    and "relayed bs h cs" "int (Suc h) < ttl m" "2 ^ Suc h \<le> spray_l m"
    and "dev_pipeline (devices n d) = new_pipeline B None" "(d, cs) \<in># in_flight n" "link n d e"
  shows "\<exists>n' ds. net_step B C n n' \<and> (e, ds) \<in># in_flight n' \<and> relayed bs (Suc h) ds \<and>
    (\<forall>x. x \<noteq> d \<longrightarrow> devices n' x = devices n x)"
proof -
  let ?clk = "clocks_at (of_int (timestamp m))"
  have "0 \<le> timestamp m" using parse_packet_wf [OF assms(3)] by (simp add: msg_wf_def)
  then have clk: "fresh (clk_timestamp ?clk) (timestamp m)" "0 \<le> clk_rate ?clk" by (simp_all add: fresh_def)
  from new_device_forwards [OF assms(1-9) clk] obtain ds logs dev' where
    ds: "relayed bs (Suc h) ds" and f: "handle_local B C (?clk, cs) (devices n d) =
      (Inr (logs, map (\<lambda>peer. (peer, ds)) (dev_neighbors (devices n d))), dev')" by blast
  obtain rest where "in_flight n = add_mset (d, cs) rest" using assms(10) by (auto dest: multi_member_split)
  from net_step.arrive [OF f this] ds assms(11) show ?thesis
    by (intro exI [of _ "n\<lparr>devices := (devices n)(d := dev'),
      in_flight := rest + mset (map (\<lambda>peer. (peer, ds)) (dev_neighbors (devices n d)))\<rparr>"] exI [of _ ds]) (auto simp: link_def)
qed

text \<open>
  Along a path of new devices the frame arrives, and finds the last one as it was.
\<close>

lemma spray_path:
  assumes "bloom_ok B" "ed25519_errors C" "parse_packet bs = Inr m" "sig_valid C m" "length bs \<le> 460"
    and "(src, bs) \<in># in_flight n" "list_all (\<lambda>i. dev_pipeline (devices n i) = new_pipeline B None) (src # path)"
    and "distinct (src # path)" "successively (link n) (src # path)"
    and "path = [] \<or> int (length path) < ttl m \<and> 2 ^ length path \<le> spray_l m"
  shows "\<exists>n' cs. (net_step B C)\<^sup>*\<^sup>* n n' \<and> (last (src # path), cs) \<in># in_flight n' \<and> relayed bs (length path) cs \<and>
    devices n' (last (src # path)) = devices n (last (src # path))"
proof -
  let ?p = "src # path"
  have "\<exists>n' cs. (net_step B C)\<^sup>*\<^sup>* n n' \<and> (?p ! i, cs) \<in># in_flight n' \<and> relayed bs i cs \<and>
      (\<forall>j. i \<le> j \<longrightarrow> j \<le> length path \<longrightarrow> devices n' (?p ! j) = devices n (?p ! j))" if "i \<le> length path" for i
    using that
  proof (induction i)
    case 0
    then show ?case using assms(6) origin by (intro exI [of _ n] exI [of _ bs]) simp
  next
    case (Suc i)
    then obtain n1 cs where n1: "(net_step B C)\<^sup>*\<^sup>* n n1" "(?p ! i, cs) \<in># in_flight n1" "relayed bs i cs"
      "\<And>j. i \<le> j \<Longrightarrow> j \<le> length path \<Longrightarrow> devices n1 (?p ! j) = devices n (?p ! j)" by auto
    have "path \<noteq> []" using Suc.prems by auto
    moreover have "(2 :: int) ^ Suc i \<le> 2 ^ length path" using Suc.prems by (intro power_increasing) simp_all
    ultimately have b: "int (Suc i) < ttl m" "2 ^ Suc i \<le> spray_l m" using assms(10) Suc.prems by linarith+
    have dev: "devices n1 (?p ! i) = devices n (?p ! i)" using n1(4) Suc.prems by simp
    have "?p ! i \<in> set ?p" using Suc.prems by (intro nth_mem) simp
    then have new: "dev_pipeline (devices n1 (?p ! i)) = new_pipeline B None"
      using assms(7) dev by (simp only: list_all_iff)
    have "link n1 (?p ! i) (?p ! Suc i)"
      using assms(9) Suc.prems dev successively_conv_nth [of "link n" ?p] by (simp add: link_def)
    from hop_forward [OF assms(1-5) n1(3) b new n1(2) this] obtain n2 ds where
      n2: "net_step B C n1 n2" "(?p ! Suc i, ds) \<in># in_flight n2" "relayed bs (Suc i) ds"
      "\<And>x. x \<noteq> ?p ! i \<Longrightarrow> devices n2 x = devices n1 x" by blast
    have "devices n2 (?p ! j) = devices n (?p ! j)" if "Suc i \<le> j" "j \<le> length path" for j
    proof -
      have "?p ! j \<noteq> ?p ! i" using nth_eq_iff_index_eq [OF assms(8), of j i] that Suc.prems by auto
      from n2(4) [OF this] n1(4) [of j] that show ?thesis by (metis Suc_leD)
    qed
    with n2(2,3) rtranclp.rtrancl_into_rtrancl [OF n1(1) n2(1)] show ?case by blast
  qed
  from this [of "length path"] have
    "\<exists>n' cs. (net_step B C)\<^sup>*\<^sup>* n n' \<and> (?p ! length path, cs) \<in># in_flight n' \<and> relayed bs (length path) cs \<and>
      devices n' (?p ! length path) = devices n (?p ! length path)" by blast
  moreover have "last ?p = ?p ! length path" by (simp add: last_conv_nth)
  ultimately show ?thesis by (simp only:)
qed

text \<open>
  And it gets that far: in a mesh of new devices, a good packet handed to the first device of a
  path without repetition can reach the last one, if the hop limit and the copy budget allow as many
  hops as the path has links; nothing but losses, other traffic or a shorter way can keep it from
  doing so.
\<close>

lemma spray_reaches:
  assumes "bloom_ok B" "ed25519_errors C" "parse_packet bs = Inr m" "sig_valid C m" "length bs \<le> 460"
    and "(src, bs) \<in># in_flight n" "list_all (\<lambda>i. dev_pipeline (devices n i) = new_pipeline B None) (src # path)"
    and "distinct (src # path)" "successively (link n) (src # path)"
    and "path = [] \<or> int (length path) < ttl m \<and> 2 ^ length path \<le> spray_l m"
  shows "\<exists>n' cs. (net_step B C)\<^sup>*\<^sup>* n n' \<and> (last (src # path), cs) \<in># in_flight n' \<and> relayed bs (length path) cs"
  using spray_path [OF assms] by blast

section \<open>Who hears a message\<close>

text \<open>A walk of some links contains a path without repetition that has no more links.\<close>

lemma walk_path:
  assumes "(R ^^ h) x y"
  shows "\<exists>path. length path \<le> h \<and> last (x # path) = y \<and> successively R (x # path) \<and> distinct (x # path)"
  using assms
proof (induction h arbitrary: x)
  case 0
  then show ?case by (intro exI [of _ "[]"]) simp
next
  case (Suc h)
  then obtain z where z: "R x z" "(R ^^ h) z y" using relpowp_Suc_D2 by metis
  from Suc.IH [OF z(2)] obtain p where p: "length p \<le> h" "last (z # p) = y" "successively R (z # p)" "distinct (z # p)" by blast
  show ?case
  proof (cases "x \<in> set (z # p)")
    case False
    with p z(1) show ?thesis by (intro exI [of _ "z # p"]) auto
  next
    case True
    then obtain us vs where s: "z # p = us @ x # vs" using split_list [OF True] by blast
    then have "Suc (length p) = length us + Suc (length vs)" by (metis length_Cons length_append)
    then have "length vs \<le> Suc h" using p(1) by simp
    moreover have "last (x # vs) = y" using p(2) s by (metis last_appendR list.distinct(1))
    moreover have "successively R (x # vs)" using p(3) unfolding s by (simp add: successively_append_iff)
    moreover have "distinct (x # vs)" using p(4) unfolding s by simp
    ultimately show ?thesis by blast
  qed
qed

text \<open>A packet handed to a device.\<close>

definition sent_at :: "nat \<Rightarrow> bytes \<Rightarrow> 'b net \<Rightarrow> 'b net" where
  "sent_at d bs n = n\<lparr>in_flight := add_mset (d, bs) (in_flight n)\<rparr>"

lemma sent_at_simps [simp]:
  "devices (sent_at d bs n) = devices n" "link (sent_at d bs n) = link n"
  "in_flight (sent_at d bs n) = add_mset (d, bs) (in_flight n)"
  by (simp_all add: sent_at_def link_def fun_eq_iff)

lemma spray_near:
  assumes "bloom_ok B" "ed25519_errors C" "parse_packet bs = Inr m" "sig_valid C m" "length bs \<le> 460"
    and "\<And>i. dev_pipeline (devices n i) = new_pipeline B None"
    and "(link n ^^ h) src d" "h = 0 \<or> int h < ttl m \<and> 2 ^ h \<le> spray_l m"
  shows "\<exists>n' cs k. (net_step B C)\<^sup>*\<^sup>* (sent_at src bs n) n' \<and> (d, cs) \<in># in_flight n' \<and> relayed bs k cs \<and>
    devices n' d = devices n d"
proof -
  from walk_path [OF assms(7)] obtain path where p: "length path \<le> h" "last (src # path) = d"
    "successively (link n) (src # path)" "distinct (src # path)" by blast
  have le: "(2 :: int) ^ length path \<le> 2 ^ h" using p(1) by (intro power_increasing) simp_all
  have "path = [] \<or> int (length path) < ttl m \<and> 2 ^ length path \<le> spray_l m"
    using assms(8) p(1) order_trans [OF le] by (cases "h = 0") auto
  moreover have "list_all (\<lambda>i. dev_pipeline (devices (sent_at src bs n) i) = new_pipeline B None) (src # path)"
    using assms(6) by (simp add: list_all_iff)
  ultimately show ?thesis
    using spray_path [OF assms(1-5), of src "sent_at src bs n" path] p(3,4) unfolding p(2) sent_at_simps by auto
qed

lemma heard_near:
  assumes "bloom_ok B" "ed25519_errors C" "parse_packet bs = Inr m" "sig_valid C m" "length bs \<le> 460"
    and "\<And>i. dev_pipeline (devices n i) = new_pipeline B None" "in_flight n = {#}"
  shows "(\<exists>n' cs. (net_step B C)\<^sup>*\<^sup>* (sent_at src bs n) n' \<and> (d, cs) \<in># in_flight n') \<longleftrightarrow>
    (\<exists>h. (link n ^^ h) src d \<and> (h = 0 \<or> int h < ttl m \<and> 2 ^ h \<le> spray_l m))"
proof
  assume "\<exists>n' cs. (net_step B C)\<^sup>*\<^sup>* (sent_at src bs n) n' \<and> (d, cs) \<in># in_flight n'"
  then obtain n' cs where n': "(net_step B C)\<^sup>*\<^sup>* (sent_at src bs n) n'" "(d, cs) \<in># in_flight n'" by blast
  have "\<forall>f \<in># in_flight (sent_at src bs n). carried (link (sent_at src bs n)) src bs f"
    using origin assms(7) by (auto simp: carried_def intro: exI [of _ 0])
  from net_run_carried [OF n'(1) this] n'(2) obtain h where h: "relayed bs h cs" "(link n ^^ h) src d"
    by (auto simp: carried_def)
  from relayed_same [OF h(1) assms(3)] h(2)
  show "\<exists>h. (link n ^^ h) src d \<and> (h = 0 \<or> int h < ttl m \<and> 2 ^ h \<le> spray_l m)" by auto
next
  assume "\<exists>h. (link n ^^ h) src d \<and> (h = 0 \<or> int h < ttl m \<and> 2 ^ h \<le> spray_l m)"
  then show "\<exists>n' cs. (net_step B C)\<^sup>*\<^sup>* (sent_at src bs n) n' \<and> (d, cs) \<in># in_flight n'"
    using spray_near [OF assms(1-6)] by metis
qed

text \<open>
  C11: Who hears a message: in a quiet mesh of new devices a good packet handed to one of them can reach a
  device if and only if the device is some number of links away that is below the hop limit and whose power of
  two is within the copy budget. Losses, clocks and the order of arrival can only make it fewer.
\<close>

theorem heard_iff_near:
  assumes "bloom_ok B" "ed25519_errors C" "parse_packet bs = Inr m" "sig_valid C m" "length bs \<le> 460"
    and "\<And>i. dev_pipeline (devices n i) = new_pipeline B None" "in_flight n = {#}"
  shows "(\<exists>n' cs. (net_step B C)\<^sup>*\<^sup>* (sent_at src bs n) n' \<and> (d, cs) \<in># in_flight n') \<longleftrightarrow>
    (\<exists>h. (link n ^^ h) src d \<and> (h = 0 \<or> int h < ttl m \<and> 2 ^ h \<le> spray_l m))"
  by (rule heard_near [OF assms])

section \<open>A line of devices\<close>

text \<open>The demonstration packet at one end of an endless line.\<close>

definition line_net :: "(nat \<times> bytes list) net" where
  "line_net = \<lparr> devices = (\<lambda>i. demo_device\<lparr>dev_neighbors := [i + 1]\<rparr>), in_flight = {#(0, demo_packet)#} \<rparr>"

lemma line_net_simps:
  "dev_pipeline (devices line_net i) = new_pipeline list_bloom None" "in_flight line_net = {#(0, demo_packet)#}"
  by (simp_all add: line_net_def demo_device_def demo_pipeline_def)

lemma line_link: "link line_net i j \<longleftrightarrow> j = i + 1"
  by (auto simp: link_def line_net_def)

lemma line_links: "(link line_net ^^ h) i j \<longleftrightarrow> j = i + h"
  by (induction h arbitrary: j) (auto simp: line_link relcompp_apply)

lemma spray_reaches_witness:
  "\<exists>n' cs. (net_step list_bloom toy_crypto)\<^sup>*\<^sup>* line_net n' \<and> (3, cs) \<in># in_flight n' \<and> relayed demo_packet 3 cs"
proof -
  have "successively (link line_net) [0, 1, 2, 3]" by (simp add: line_link)
  moreover have "sig_valid toy_crypto demo_message" using demo_clears by (simp add: clears_def)
  ultimately show ?thesis
    using spray_reaches [OF list_bloom_ok toy_ed25519_errors demo_packet_facts(2), of 0 line_net "[1, 2, 3]"]
    by (simp add: line_net_simps demo_packet_facts numeral_3_eq_3)
qed

lemma spray_radius_witness:
  "\<not> (\<exists>n' cs. (net_step list_bloom toy_crypto)\<^sup>*\<^sup>* line_net n' \<and> (4, cs) \<in># in_flight n')"
proof
  assume "\<exists>n' cs. (net_step list_bloom toy_crypto)\<^sup>*\<^sup>* line_net n' \<and> (4, cs) \<in># in_flight n'"
  then obtain n' cs where n: "(net_step list_bloom toy_crypto)\<^sup>*\<^sup>* line_net n'" "(4, cs) \<in># in_flight n'" by blast
  from spray_radius [OF demo_packet_facts(2) line_net_simps(2) n] show False by (auto simp: line_links)
qed

theorem heard_iff_near_witness:
  "\<exists>n' cs. (net_step list_bloom toy_crypto)\<^sup>*\<^sup>* (sent_at 0 demo_packet (line_net\<lparr>in_flight := {#}\<rparr>)) n' \<and> (3, cs) \<in># in_flight n'"
proof -
  let ?n = "line_net\<lparr>in_flight := {#}\<rparr>"
  have "sig_valid toy_crypto demo_message" using demo_clears by (simp add: clears_def)
  moreover have "link ?n = link line_net" by (simp add: link_def fun_eq_iff)
  ultimately show ?thesis
    using heard_iff_near [OF list_bloom_ok toy_ed25519_errors demo_packet_facts(2), of ?n 0 3]
    by (simp add: line_net_simps line_links demo_packet_facts)
qed

end
