(* ===== verification/Harness.thy ===== *)
theory Harness
  imports Socket Topology Reach Attestation
begin

text \<open>
  \<^emph>\<open>sim/harness.py\<close> and \<^emph>\<open>sim/logging_util.py\<close>: the injection specs of the command line, the
  start-up of the devices and the log. The numbers in a spec are read by \<^emph>\<open>int\<close> (\<open>Py_Text\<close>); the
  reader of the delay, \<^emph>\<open>float\<close>, is a parameter, its value is only slept on. Random message
  identifiers, clock readings and the ports the system assigns are arguments.
\<close>

section \<open>Injection specs\<close>

record 'f inject_spec =
  spec_device :: int
  spec_payload :: bytes
  spec_ttl :: int
  spec_spray_l :: int
  spec_zone_id :: int
  spec_delay :: 'f

text \<open>\<^emph>\<open>dict(...)\<close> of the split pairs: an element that is no pair is a \<^emph>\<open>ValueError\<close>.\<close>

fun pairs_of :: "pystr list list \<Rightarrow> (pystr \<times> pystr) list res" where
  "pairs_of [] = Inr []"
| "pairs_of (p # ps) =
     (case p of
        [k, v] \<Rightarrow> res_bind (pairs_of ps) (\<lambda>r. Inr ((k, v) # r))
      | _ \<Rightarrow> Inl (ValueError ''dictionary update sequence element has the wrong length''))"

definition spec_fields :: "pystr \<Rightarrow> (pystr \<times> pystr) list res" where
  "spec_fields spec = pairs_of (map (split_first 61) (split_on 44 spec))"

text \<open>\<^emph>\<open>fields[k]\<close> and \<^emph>\<open>fields.get(k)\<close>: the last of equal keys counts.\<close>

definition field :: "(pystr \<times> pystr) list \<Rightarrow> string \<Rightarrow> pystr option" where
  "field fs k = map_of (rev fs) (str k)"

definition field_res :: "(pystr \<times> pystr) list \<Rightarrow> string \<Rightarrow> pystr res" where
  "field_res fs k = (case field fs k of None \<Rightarrow> Inl KeyError | Some v \<Rightarrow> Inr v)"

text \<open>\<^emph>\<open>int(fields.get(k, d))\<close>: an integer default goes through \<^emph>\<open>int\<close> unchanged.\<close>

definition int_field :: "unicode \<Rightarrow> (pystr \<times> pystr) list \<Rightarrow> string \<Rightarrow> int \<Rightarrow> int res" where
  "int_field U fs k d = (case field fs k of None \<Rightarrow> Inr d | Some v \<Rightarrow> int_of_text U 10 v)"

text \<open>
  \<^emph>\<open>int(fields.get("zone_id", BROADCAST_ZONE), 0)\<close>: with an explicit base \<^emph>\<open>int\<close> takes texts only, and
  the default is an integer.
\<close>

definition zone_field :: "unicode \<Rightarrow> (pystr \<times> pystr) list \<Rightarrow> int res" where
  "zone_field U fs = (case field fs ''zone_id'' of None \<Rightarrow> Inl TypeError | Some v \<Rightarrow> int_of_text U 0 v)"

definition delay_field :: "(pystr \<Rightarrow> 'f res) \<Rightarrow> 'f \<Rightarrow> (pystr \<times> pystr) list \<Rightarrow> 'f res" where
  "delay_field to_float zero fs = (case field fs ''delay'' of None \<Rightarrow> Inr zero | Some v \<Rightarrow> to_float v)"

definition parse_inject_spec :: "unicode \<Rightarrow> (pystr \<Rightarrow> 'f res) \<Rightarrow> 'f \<Rightarrow> pystr \<Rightarrow> 'f inject_spec res" where
  "parse_inject_spec U to_float zero spec =
     res_bind (spec_fields spec) (\<lambda>fs.
     res_bind (res_bind (field_res fs ''device'') (int_of_text U 10)) (\<lambda>dev.
     res_bind (res_bind (field_res fs ''payload'') utf8_encode) (\<lambda>pl.
     res_bind (int_field U fs ''ttl'' 5) (\<lambda>hops.
     res_bind (int_field U fs ''spray_l'' 8) (\<lambda>l.
     res_bind (zone_field U fs) (\<lambda>zid.
     res_bind (delay_field to_float zero fs) (\<lambda>delay.
     Inr \<lparr> spec_device = dev, spec_payload = pl, spec_ttl = hops, spec_spray_l = l, spec_zone_id = zid,
           spec_delay = delay \<rparr>)))))))"

text \<open>
  What \<^emph>\<open>argparse\<close> makes of the exception of a \<^emph>\<open>type\<close> function: a usage error and exit status 2 for
  \<^emph>\<open>TypeError\<close> and \<^emph>\<open>ValueError\<close>, anything else goes through.
\<close>

definition argument_type :: "(pystr \<Rightarrow> 'a res) \<Rightarrow> pystr \<Rightarrow> 'a res" where
  "argument_type f s =
     (case f s of Inr v \<Rightarrow> Inr v
      | Inl e \<Rightarrow> Inl (if is_TypeError e \<or> is_ValueError e then SystemExit 2 else e))"

text \<open>A spec as the usage line writes it.\<close>

definition spec_text :: "int \<Rightarrow> pystr \<Rightarrow> int \<Rightarrow> int \<Rightarrow> int \<Rightarrow> pystr \<Rightarrow> pystr" where
  "spec_text dev txt hops l zid delay =
     join 44 [str ''device='' @ text_of_int dev, str ''payload='' @ txt, str ''ttl='' @ text_of_int hops,
       str ''spray_l='' @ text_of_int l, str ''zone_id='' @ text_of_int zid, str ''delay='' @ delay]"

lemma text_of_int_comma [simp]: "44 \<notin> set (text_of_int i)"
  using text_of_int_ascii [of 44 i] by auto

lemma spec_fields_text:
  assumes "44 \<notin> set txt" "44 \<notin> set delay"
  shows "spec_fields (spec_text dev txt hops l zid delay) =
    Inr [(str ''device'', text_of_int dev), (str ''payload'', txt), (str ''ttl'', text_of_int hops),
      (str ''spray_l'', text_of_int l), (str ''zone_id'', text_of_int zid), (str ''delay'', delay)]"
proof -
  have "split_on 44 (spec_text dev txt hops l zid delay) =
     [str ''device='' @ text_of_int dev, str ''payload='' @ txt, str ''ttl='' @ text_of_int hops,
       str ''spray_l='' @ text_of_int l, str ''zone_id='' @ text_of_int zid, str ''delay='' @ delay]"
    unfolding spec_text_def by (rule split_on_join) (use assms in \<open>simp_all add: str_def\<close>)
  then show ?thesis by (simp add: spec_fields_def str_def)
qed

text \<open>
  A complete spec says what it means: written out in the form of the usage line, with a text that
  has no comma (an equals sign is allowed), it is read back as exactly those values.
\<close>

lemma inject_spec_roundtrip:
  assumes "44 \<notin> set txt" "44 \<notin> set delay" "utf8_encode txt = Inr pl" "to_float delay = Inr f"
    and "\<bar>dev\<bar> < 2 ^ 64" "\<bar>hops\<bar> < 2 ^ 64" "\<bar>l\<bar> < 2 ^ 64" "\<bar>zid\<bar> < 2 ^ 64"
  shows "parse_inject_spec U to_float zero (spec_text dev txt hops l zid delay) =
    Inr \<lparr> spec_device = dev, spec_payload = pl, spec_ttl = hops, spec_spray_l = l, spec_zone_id = zid, spec_delay = f \<rparr>"
proof -
  have "int_of_text U base (text_of_int i) = Inr i" if "\<bar>i\<bar> < 2 ^ 64" "base = 0 \<or> base = 10" for i :: int and base
  proof -
    have "\<bar>i\<bar> < (10 :: int) ^ 20" using that(1) by simp
    also have "\<dots> \<le> 10 ^ MAX_STR_DIGITS" by (rule power_increasing) (simp_all add: MAX_STR_DIGITS_def)
    finally show ?thesis using that(2) by (rule int_of_text_of_int)
  qed
  note i = this [OF assms(5)] this [OF assms(6)] this [OF assms(7)] this [OF assms(8)]
  show ?thesis
    unfolding parse_inject_spec_def spec_fields_text [OF assms(1,2)]
    by (simp add: field_res_def field_def int_field_def zone_field_def delay_field_def str_def i assms(3,4))
qed

text \<open>
  But a spec without a zone is refused, although the usage line has \<^emph>\<open>zone_id\<close> in brackets and the
  guide names a default: on the missing field \<^emph>\<open>int\<close> raises \<^emph>\<open>TypeError\<close>, and the command line ends
  with a usage error.
\<close>

lemma inject_spec_needs_zone:
  assumes "spec_fields spec = Inr fs" "field fs ''zone_id'' = None"
    and "res_bind (field_res fs ''device'') (int_of_text U 10) = Inr dev"
    and "res_bind (field_res fs ''payload'') utf8_encode = Inr pl"
    and "int_field U fs ''ttl'' 5 = Inr hops" "int_field U fs ''spray_l'' 8 = Inr l"
  shows "argument_type (parse_inject_spec U to_float zero) spec = Inl (SystemExit 2)"
proof -
  have "parse_inject_spec U to_float zero spec = Inl TypeError"
    unfolding parse_inject_spec_def assms(1) using assms(2-6)
    by (simp add: zone_field_def del: res_bind_eq_Inr)
  then show ?thesis by (simp add: argument_type_def)
qed

lemma inject_spec_roundtrip_witness:
  "\<exists>s. parse_inject_spec ascii_unicode (\<lambda>t. Inr t) [] s =
    Inr \<lparr> spec_device = 0, spec_payload = [97, 61], spec_ttl = 5, spec_spray_l = 8, spec_zone_id = 65535, spec_delay = [48] \<rparr>"
  using inject_spec_roundtrip [of "[97, 61]" "[48]" "[97, 61]" "\<lambda>t. Inr t" "[48]" 0 5 8 65535 ascii_unicode "[]"]
  by (auto simp: utf8_encode_def utf8_char_def scalar_def)

lemma inject_spec_needs_zone_witness:
  "argument_type (parse_inject_spec ascii_unicode (\<lambda>t. Inr t) []) (str ''device=0,payload=first'') = Inl (SystemExit 2)"
  by (rule inject_spec_needs_zone [where fs = "[(str ''device'', [48]), (str ''payload'', str ''first'')]"
        and dev = 0 and pl = "[102, 105, 114, 115, 116]" and hops = 5 and l = 8])
    (simp_all add: spec_fields_def str_def field_def field_res_def int_field_def int_of_text_def ascii_unicode_def
      to_ascii_def c_space_def int_magnitude_def literal_base_def digit_val_def MAX_STR_DIGITS_def digits_value_def
      utf8_encode_def utf8_char_def scalar_def)

section \<open>Starting the devices\<close>

definition ZONE_COUNT :: int where [simp]: "ZONE_COUNT = 4"

text \<open>
  A device as the harness builds it; the callback its transport calls is the device's own, named by
  its number. \<open>bind k\<close> is the system's answer to the \<open>k\<close>-th device.
\<close>

record sim_device =
  sd_index :: int
  sd_zone :: int
  sd_transport :: "nat socket_transport"
  sd_neighbors :: "pystr list"

definition TOPOLOGIES :: "pystr \<Rightarrow> (int \<Rightarrow> adjacency res) option" where
  "TOPOLOGIES name =
     (if name = str ''line'' then Some line_build else if name = str ''star'' then Some star_build
      else if name = str ''mesh'' then Some mesh_build else None)"

definition new_sim_device :: "nat \<Rightarrow> sim_device" where
  "new_sim_device i =
     \<lparr> sd_index = int i, sd_zone = int i mod ZONE_COUNT, sd_transport = new_transport (str ''127.0.0.1'') 0,
       sd_neighbors = [] \<rparr>"

definition sd_address :: "sim_device \<Rightarrow> pystr" where
  "sd_address d = transport_address (sd_transport d)"

text \<open>\<^emph>\<open>Device.start\<close>.\<close>

definition device_start :: "(pystr \<Rightarrow> int \<Rightarrow> int res) \<Rightarrow> nat \<Rightarrow> sim_device \<Rightarrow> unit res \<times> sim_device" where
  "device_start bind i d =
     (case transport_start bind (sd_transport d) of
        (Inl e, t) \<Rightarrow> (Inl e, d\<lparr>sd_transport := t\<rparr>)
      | (Inr _, t) \<Rightarrow> (Inr (), d\<lparr>sd_transport := on_receive i t\<rparr>))"

fun start_all :: "(nat \<Rightarrow> pystr \<Rightarrow> int \<Rightarrow> int res) \<Rightarrow> nat \<Rightarrow> sim_device list \<Rightarrow> sim_device list res" where
  "start_all bind k [] = Inr []"
| "start_all bind k (d # ds) =
     (case device_start (bind k) k d of
        (Inl e, _) \<Rightarrow> Inl e
      | (Inr _, d1) \<Rightarrow> res_bind (start_all bind (k + 1) ds) (\<lambda>ds1. Inr (d1 # ds1)))"

text \<open>The neighbours of one device: their addresses are looked up, stored and connected to.\<close>

fun addresses_of :: "sim_device list \<Rightarrow> nat list \<Rightarrow> pystr list res" where
  "addresses_of ds [] = Inr []"
| "addresses_of ds (j # js) =
     (if j < length ds then res_bind (addresses_of ds js) (\<lambda>r. Inr (sd_address (ds ! j) # r)) else Inl IndexError)"

definition wire_device :: "pystr list \<Rightarrow> sim_device \<Rightarrow> sim_device" where
  "wire_device addrs d =
     d\<lparr>sd_neighbors := addrs, sd_transport := foldl (\<lambda>t a. connect_peer a t) (sd_transport d) addrs\<rparr>"

fun wire_all :: "adjacency \<Rightarrow> nat list \<Rightarrow> sim_device list \<Rightarrow> sim_device list res" where
  "wire_all adj [] ds = Inr ds"
| "wire_all adj (i # is') ds =
     (case adj i of
        None \<Rightarrow> Inl KeyError
      | Some row \<Rightarrow> res_bind (addresses_of ds row) (\<lambda>addrs. wire_all adj is' (ds[i := wire_device addrs (ds ! i)])))"

definition build_devices :: "(nat \<Rightarrow> pystr \<Rightarrow> int \<Rightarrow> int res) \<Rightarrow> int \<Rightarrow> pystr \<Rightarrow> sim_device list res" where
  "build_devices bind n topology_name =
     (case TOPOLOGIES topology_name of
        None \<Rightarrow> Inl KeyError
      | Some build \<Rightarrow>
          res_bind (build n) (\<lambda>adj.
          res_bind (start_all bind 0 (map new_sim_device [0..<nat n])) (\<lambda>ds.
          wire_all adj [0..<nat n] ds)))"

lemma connect_peers:
  "foldl (\<lambda>t a. connect_peer a t) t addrs = t\<lparr>peers := peers t \<union> set addrs\<rparr>"
  by (induction addrs arbitrary: t) (simp_all add: connect_peer_def)

lemma wire_device_simps [simp]:
  "sd_address (wire_device addrs d) = sd_address d" "sd_zone (wire_device addrs d) = sd_zone d"
  "sd_neighbors (wire_device addrs d) = addrs" "sd_index (wire_device addrs d) = sd_index d"
  "sd_transport (wire_device addrs d) = (sd_transport d)\<lparr>peers := peers (sd_transport d) \<union> set addrs\<rparr>"
  by (simp_all add: wire_device_def sd_address_def transport_address_def connect_peers)

text \<open>A started device.\<close>

definition started :: "nat \<Rightarrow> int \<Rightarrow> sim_device" where
  "started i p = (new_sim_device i)\<lparr>sd_transport :=
     \<lparr> host = str ''127.0.0.1'', port = p, server = True, callback = Some i, peers = {}, running = True \<rparr>\<rparr>"

lemma device_start_started:
  "bind (str ''127.0.0.1'') 0 = Inr p \<Longrightarrow> device_start bind i (new_sim_device i) = (Inr (), started i p)"
  by (simp add: device_start_def new_sim_device_def transport_op_defs Let_def started_def)

lemma start_all_started:
  assumes "\<And>i. i < k + m \<Longrightarrow> bind i (str ''127.0.0.1'') 0 = Inr (ports i)"
  shows "start_all bind k (map new_sim_device [k..<k + m]) = Inr (map (\<lambda>i. started i (ports i)) [k..<k + m])"
  using assms
proof (induction m arbitrary: k)
  case (Suc m)
  have u: "[k..<k + Suc m] = k # [Suc k..<Suc k + m]" by (simp add: upt_conv_Cons del: upt_Suc)
  have "start_all bind (Suc k) (map new_sim_device [Suc k..<Suc k + m]) =
      Inr (map (\<lambda>i. started i (ports i)) [Suc k..<Suc k + m])"
    using Suc.prems by (intro Suc.IH) simp
  with Suc.prems [of k] show ?case
    unfolding u by (simp add: device_start_started del: upt_Suc)
qed simp

lemma addresses_of_row:
  "set row \<subseteq> {..<length ds} \<Longrightarrow> addresses_of ds row = Inr (map (\<lambda>j. sd_address (ds ! j)) row)"
  by (induction row) auto

lemma wire_all_rows:
  assumes "distinct is'" "set is' \<subseteq> {..<length ds}" "\<And>i. i \<in> set is' \<Longrightarrow> \<exists>row. adj i = Some row \<and> set row \<subseteq> {..<length ds}"
  shows "wire_all adj is' ds = Inr (map (\<lambda>i. if i \<in> set is'
    then wire_device (map (\<lambda>j. sd_address (ds ! j)) (the (adj i))) (ds ! i) else ds ! i) [0..<length ds])"
  using assms
proof (induction is' arbitrary: ds)
  case Nil
  then show ?case by (simp add: map_nth)
next
  case (Cons i is')
  obtain row where row: "adj i = Some row" "set row \<subseteq> {..<length ds}" using Cons.prems(3) by auto
  let ?w = "wire_device (map (\<lambda>j. sd_address (ds ! j)) row) (ds ! i)"
  let ?ds = "ds[i := ?w]"
  have same: "sd_address (?ds ! j) = sd_address (ds ! j)" for j
    using Cons.prems(2) by (cases "j = i") simp_all
  have "wire_all adj (i # is') ds = wire_all adj is' ?ds"
    using row by (simp add: addresses_of_row)
  also have "\<dots> = Inr (map (\<lambda>i. if i \<in> set is'
    then wire_device (map (\<lambda>j. sd_address (?ds ! j)) (the (adj i))) (?ds ! i) else ?ds ! i) [0..<length ?ds])"
    using Cons.prems by (intro Cons.IH) auto
  finally have step: "wire_all adj (i # is') ds = Inr (map (\<lambda>i. if i \<in> set is'
    then wire_device (map (\<lambda>j. sd_address (ds ! j)) (the (adj i))) (?ds ! i) else ?ds ! i) [0..<length ds])"
    by (simp add: same)
  have elt: "(if k \<in> set is' then wire_device (map (\<lambda>j. sd_address (ds ! j)) (the (adj k))) (?ds ! k) else ?ds ! k) =
      (if k \<in> set (i # is') then wire_device (map (\<lambda>j. sd_address (ds ! j)) (the (adj k))) (ds ! k) else ds ! k)"
    if "k < length ds" for k
  proof (cases "k = i")
    case True
    then have "?ds ! k = ?w" "k \<notin> set is'" using that Cons.prems(1) by simp_all
    then show ?thesis using True row(1) by (simp only: if_False) simp
  next
    case False
    then have "?ds ! k = ds ! k" by simp
    then show ?thesis using False by (simp only: set_simps insert_iff) simp
  qed
  have "map (\<lambda>k. if k \<in> set is' then wire_device (map (\<lambda>j. sd_address (ds ! j)) (the (adj k))) (?ds ! k) else ?ds ! k)
      [0..<length ds] =
    map (\<lambda>k. if k \<in> set (i # is') then wire_device (map (\<lambda>j. sd_address (ds ! j)) (the (adj k))) (ds ! k) else ds ! k)
      [0..<length ds]"
    by (rule map_cong [OF refl], rule elt, simp)
  then show ?case unfolding step by (rule arg_cong)
qed

lemma text_of_int_inj:
  fixes a b :: int
  assumes "\<bar>a\<bar> < 65536" "\<bar>b\<bar> < 65536" "text_of_int a = text_of_int b"
  shows "a = b"
proof -
  have "int_of_text ascii_unicode 10 (text_of_int i) = Inr i" if "\<bar>i\<bar> < 65536" for i :: int
  proof -
    have "\<bar>i\<bar> < 10 ^ MAX_STR_DIGITS" using port_digits [OF abs_ge_zero that] unfolding abs_abs .
    then show ?thesis by (rule int_of_text_of_int [OF _ disjI2 [OF refl]])
  qed
  from trans [OF this [OF assms(1), symmetric] this [OF assms(2), folded assms(3)]] show ?thesis by (rule Inr_inject)
qed

lemma started_address: "sd_address (started i p) = str ''127.0.0.1'' @ [58] @ text_of_int p"
  by (simp add: started_def sd_address_def transport_address_def)

lemma topologies_known:
  assumes "name = str ''line'' \<or> name = str ''star'' \<or> name = str ''mesh''"
  shows "\<exists>build adj. TOPOLOGIES name = Some build \<and> build n = Inr adj \<and> sound_topology (nat n) adj"
proof -
  have d: "str ''star'' \<noteq> str ''line''" "str ''mesh'' \<noteq> str ''line''" "str ''mesh'' \<noteq> str ''star''"
    by (simp_all add: str_def)
  from topologies_are_sound [of n] assms show ?thesis
    by (auto simp: TOPOLOGIES_def d)
qed

text \<open>What start-up and wiring make of a sound topology: the devices that come out.\<close>

definition wired :: "(nat \<Rightarrow> int) \<Rightarrow> adjacency \<Rightarrow> nat \<Rightarrow> sim_device list" where
  "wired ports adj k =
     map (\<lambda>i. wire_device (map (\<lambda>j. sd_address (started j (ports j))) (the (adj i))) (started i (ports i))) [0..<k]"

lemma sound_row:
  assumes "sound_topology k adj" "i < k"
  shows "\<exists>xs. adj i = Some xs \<and> set xs \<subseteq> {..<k}"
proof -
  have "i \<in> dom adj" using assms by (simp add: sound_topology_def)
  with assms(1) show ?thesis unfolding sound_topology_def by blast
qed

lemma build_devices_wired:
  assumes "TOPOLOGIES name = Some build" "build n = Inr adj" "sound_topology (nat n) adj"
    and "\<And>i. i < nat n \<Longrightarrow> bind i (str ''127.0.0.1'') 0 = Inr (ports i)"
  shows "build_devices bind n name = Inr (wired ports adj (nat n))"
proof -
  let ?ds = "map (\<lambda>i. started i (ports i)) [0..<nat n]"
  have "map (\<lambda>j. sd_address (?ds ! j)) (the (adj i)) = map (\<lambda>j. sd_address (started j (ports j))) (the (adj i))"
    if "i < nat n" for i
    using sound_row [OF assms(3) that] by auto
  then have "map (\<lambda>i. wire_device (map (\<lambda>j. sd_address (?ds ! j)) (the (adj i))) (?ds ! i)) [0..<nat n] = wired ports adj (nat n)"
    by (simp add: wired_def)
  moreover have "wire_all adj [0..<nat n] ?ds =
      Inr (map (\<lambda>i. wire_device (map (\<lambda>j. sd_address (?ds ! j)) (the (adj i))) (?ds ! i)) [0..<nat n])"
    using wire_all_rows [of "[0..<nat n]" ?ds adj] sound_row [OF assms(3)] by (simp add: lessThan_atLeast0)
  moreover have "start_all bind 0 (map new_sim_device [0..<nat n]) = Inr ?ds"
    using assms(4) start_all_started [of 0 "nat n" bind ports] by simp
  ultimately show ?thesis by (simp add: build_devices_def assms(1,2))
qed

lemma wired_simps:
  assumes "sound_topology k adj" "i < k"
  shows "length (wired ports adj k) = k"
    "sd_address (wired ports adj k ! i) = str ''127.0.0.1'' @ [58] @ text_of_int (ports i)"
    "sd_neighbors (wired ports adj k ! i) = map (\<lambda>j. sd_address (wired ports adj k ! j)) (the (adj i))"
proof -
  have a: "sd_address (wired ports adj k ! j) = sd_address (started j (ports j))" if "j < k" for j
    using that by (simp add: wired_def)
  show "length (wired ports adj k) = k" by (simp add: wired_def)
  show "sd_address (wired ports adj k ! i) = str ''127.0.0.1'' @ [58] @ text_of_int (ports i)"
    using a [OF assms(2)] by (simp add: started_address)
  from sound_row [OF assms] a assms(2)
  show "sd_neighbors (wired ports adj k ! i) = map (\<lambda>j. sd_address (wired ports adj k ! j)) (the (adj i))"
    by (auto simp: wired_def)
qed

lemma wired_knows:
  assumes "sound_topology k adj" "inj_on ports {..<k}" "\<And>i. i < k \<Longrightarrow> \<bar>ports i\<bar> < 65536" "i < k" "j < k"
  shows "sd_address (wired ports adj k ! j) \<in> set (sd_neighbors (wired ports adj k ! i)) \<longleftrightarrow> linked adj i j"
proof -
  obtain xs where xs: "adj i = Some xs" "set xs \<subseteq> {..<k}" using sound_row [OF assms(1,4)] by blast
  let ?a = "\<lambda>l. sd_address (wired ports adj k ! l)"
  have "inj_on ?a {..<k}"
  proof (rule inj_onI)
    fix l l'
    assume l: "l \<in> {..<k}" "l' \<in> {..<k}" "?a l = ?a l'"
    then have "text_of_int (ports l) = text_of_int (ports l')" by (simp add: wired_simps(2) [OF assms(1)])
    then have "ports l = ports l'" using l assms(3) by (intro text_of_int_inj) simp_all
    then show "l = l'" using assms(2) l by (simp add: inj_on_def)
  qed
  from inj_on_image_mem_iff [OF this _ xs(2), of j] assms(5) have "?a j \<in> ?a ` set xs \<longleftrightarrow> j \<in> set xs" by simp
  then show ?thesis by (simp add: wired_simps(3) [OF assms(1,4)] xs(1) linked_def)
qed

text \<open>
  The harness builds the mesh it was asked for: when the system assigns each device a port of its
  own, the devices are up, listening for themselves, in zone index modulo four, and know as neighbours
  and as peers exactly the addresses of the devices next to them in the topology chosen; and a device
  knows another exactly when the other knows it.
\<close>

lemma build_devices_mesh:
  assumes "name = str ''line'' \<or> name = str ''star'' \<or> name = str ''mesh''"
    and "list_all (\<lambda>i. bind i (str ''127.0.0.1'') 0 = Inr (ports i)) [0..<nat n]" "inj_on ports {..<nat n}"
    and "list_all (\<lambda>i. \<bar>ports i\<bar> < 65536) [0..<nat n]"
  shows "\<exists>build adj ds. TOPOLOGIES name = Some build \<and> build n = Inr adj \<and> build_devices bind n name = Inr ds \<and>
    length ds = nat n \<and>
    (\<forall>i < nat n. sd_index (ds ! i) = int i \<and> sd_zone (ds ! i) = int i mod 4 \<and>
       running (sd_transport (ds ! i)) \<and> callback (sd_transport (ds ! i)) = Some i \<and>
       sd_neighbors (ds ! i) = map (\<lambda>j. sd_address (ds ! j)) (the (adj i)) \<and>
       peers (sd_transport (ds ! i)) = set (sd_neighbors (ds ! i)) \<and>
       (\<forall>j < nat n. sd_address (ds ! j) \<in> set (sd_neighbors (ds ! i)) \<longleftrightarrow>
          sd_address (ds ! i) \<in> set (sd_neighbors (ds ! j))))"
proof -
  obtain build adj where t: "TOPOLOGIES name = Some build" "build n = Inr adj" "sound_topology (nat n) adj"
    using topologies_known [OF assms(1)] by blast
  let ?ds = "wired ports adj (nat n)"
  have ports: "bind i (str ''127.0.0.1'') 0 = Inr (ports i)" "\<bar>ports i\<bar> < 65536" if "i < nat n" for i
    using assms(2,4) that by (simp_all add: list_all_iff)
  have "sd_index (?ds ! i) = int i \<and> sd_zone (?ds ! i) = int i mod 4 \<and>
       running (sd_transport (?ds ! i)) \<and> callback (sd_transport (?ds ! i)) = Some i \<and>
       peers (sd_transport (?ds ! i)) = set (sd_neighbors (?ds ! i))" if "i < nat n" for i
    using that by (simp add: wired_def started_def new_sim_device_def)
  moreover have "linked adj i j \<longleftrightarrow> linked adj j i" for i j using t(3) unfolding sound_topology_def by blast
  then have "sd_address (?ds ! j) \<in> set (sd_neighbors (?ds ! i)) \<longleftrightarrow> sd_address (?ds ! i) \<in> set (sd_neighbors (?ds ! j))"
    if "i < nat n" "j < nat n" for i j
    using wired_knows [OF t(3) assms(3) ports(2)] that by simp
  moreover have "length ?ds = nat n" by (simp add: wired_def)
  ultimately show ?thesis
    using t(1,2) build_devices_wired [where bind = bind and ports = ports, OF t ports(1)] wired_simps(3) [OF t(3)]
    by (intro exI [of _ build] exI [of _ adj] exI [of _ ?ds]) simp
qed

lemma build_devices_mesh_witness:
  "\<exists>ds. build_devices (\<lambda>k h p. Inr (5000 + int k)) 3 (str ''line'') = Inr ds \<and> length ds = 3 \<and>
    sd_zone (ds ! 2) = 2 \<and>
    (sd_address (ds ! 0) \<in> set (sd_neighbors (ds ! 1)) \<longleftrightarrow> sd_address (ds ! 1) \<in> set (sd_neighbors (ds ! 0)))"
proof -
  have "inj_on (\<lambda>i. 5000 + int i) {..<nat 3}" by (simp add: inj_on_def)
  moreover have "list_all (\<lambda>i. \<bar>5000 + int i\<bar> < 65536) [0..<nat 3]" by (simp add: list_all_iff)
  moreover have "list_all (\<lambda>i. (\<lambda>k h p. Inr (5000 + int k)) i (str ''127.0.0.1'') 0 = Inr (5000 + int i)) [0..<nat 3]"
    by (simp add: list_all_iff)
  ultimately obtain ds where ds: "build_devices (\<lambda>k h p. Inr (5000 + int k)) 3 (str ''line'') = Inr ds" "length ds = nat 3"
    "\<And>i. i < nat 3 \<Longrightarrow> sd_zone (ds ! i) = int i mod 4 \<and> (\<forall>j < nat 3. sd_address (ds ! j) \<in> set (sd_neighbors (ds ! i)) \<longleftrightarrow>
       sd_address (ds ! i) \<in> set (sd_neighbors (ds ! j)))"
    using build_devices_mesh [of "str ''line''" "\<lambda>k h p. Inr (5000 + int k)" "\<lambda>i. 5000 + int i" 3] by blast
  have "sd_zone (ds ! 2) = 2" using ds(3) [of 2] by simp
  moreover have "sd_address (ds ! 0) \<in> set (sd_neighbors (ds ! 1)) \<longleftrightarrow> sd_address (ds ! 1) \<in> set (sd_neighbors (ds ! 0))"
    using ds(3) [of 1] by simp
  ultimately show ?thesis using ds(1,2) by (intro exI [of _ ds]) simp
qed

section \<open>The run\<close>

text \<open>\<^emph>\<open>devices[i]\<close>: a negative index counts from the end.\<close>

definition py_index :: "int \<Rightarrow> nat \<Rightarrow> nat res" where
  "py_index i n =
     (if 0 \<le> i \<and> i < int n then Inr (nat i)
      else if - int n \<le> i \<and> i < 0 then Inr (nat (int n + i)) else Inl IndexError)"

text \<open>
  One round of the loop of \<^emph>\<open>main\<close>: the spec, the identifier drawn for it, the time of the packet and
  the clock readings of the pipeline. The loop itself is in \<open>Harness_Main\<close>.
\<close>

record 'f injection =
  inj_spec :: "'f inject_spec"
  inj_msg_id :: bytes
  inj_now :: time
  inj_clk :: clocks

section \<open>The log\<close>

text \<open>\<^emph>\<open>log_event\<close>: the line it prints, at some number of milliseconds.\<close>

definition log_event :: "int \<Rightarrow> string \<Rightarrow> int \<Rightarrow> (string \<times> pystr) list \<Rightarrow> pystr" where
  "log_event elapsed_ms event device_index kwargs =
     join 32 ([str ''t='' @ text_of_int elapsed_ms @ str ''ms'', str ''device='' @ text_of_int device_index,
               str ''event='' @ str event] @ map (\<lambda>(k, v). str k @ [61] @ v) kwargs)"

text \<open>The call that \<^emph>\<open>sim/device.py\<close> makes for a line; \<open>addr\<close> gives the address of a neighbour.\<close>

fun log_call :: "(nat \<Rightarrow> pystr) \<Rightarrow> log_line \<Rightarrow> string \<times> (string \<times> pystr) list" where
  "log_call addr (Injected mid zid hops l) =
     (''injected'', [(''msg_id'', to_hex mid), (''zone_id'', text_of_int zid), (''ttl'', text_of_int hops),
        (''spray_l'', text_of_int l)])"
| "log_call addr (Received sender) = (''received'', [(''from'', sender)])"
| "log_call addr (Dropped r) =
     (''dropped'', [(''reason'', case r of None \<Rightarrow> str ''None'' | Some t \<Rightarrow> str t)])"
| "log_call addr (Delivered mid zid) = (''delivered'', [(''msg_id'', to_hex mid), (''zone_id'', text_of_int zid)])"
| "log_call addr (Relayed mid peer hops l) =
     (''relayed'', [(''msg_id'', to_hex mid), (''to'', addr peer), (''ttl'', text_of_int hops), (''spray_l'', text_of_int l)])"

end
