(* ===== verification/Command_Line.thy ===== *)
theory Command_Line
  imports Harness
begin

text \<open>
  The command line of \<^emph>\<open>sim/harness.py\<close>: what \<^emph>\<open>argparse\<close> (of Python 3.11) does with the option table of
  \<^emph>\<open>parse_args\<close>, four options with one value each and the help option it adds. All usage errors end the
  program with status 2, whatever their text, and help with status 0, as soon as it is reached; an
  exception of a \<^emph>\<open>type\<close> function that is no \<^emph>\<open>TypeError\<close> or \<^emph>\<open>ValueError\<close> goes through. \<open>to_float\<close>
  is \<^emph>\<open>float\<close> of a text, \<open>zero\<close> and \<open>two\<close> are the floats of the defaults.
\<close>

section \<open>The option table\<close>

datatype opt = HelpOpt | DevicesOpt | TopologyOpt | InjectOpt | WaitOpt

definition option_strings :: "(pystr \<times> opt) list" where
  "option_strings =
     [(str ''-h'', HelpOpt), (str ''--help'', HelpOpt), (str ''--devices'', DevicesOpt), (str ''--topology'', TopologyOpt),
      (str ''--inject'', InjectOpt), (str ''--wait'', WaitOpt)]"

definition topology_choices :: "pystr list" where
  "topology_choices = [str ''line'', str ''mesh'', str ''star'']"

text \<open>The namespace as it fills up, and as the program gets it.\<close>

record 'f namespace =
  ns_devices :: "int option"
  ns_topology :: "pystr option"
  ns_injections :: "'f inject_spec list"
  ns_wait :: 'f

record 'f harness_args =
  arg_devices :: int
  arg_topology :: pystr
  arg_injections :: "'f inject_spec list"
  arg_wait :: 'f

section \<open>Classifying the arguments\<close>

text \<open>\<^emph>\<open>s.partition("=")\<close>: before, and after if there is one.\<close>

definition partition_eq :: "pystr \<Rightarrow> pystr \<times> pystr option" where
  "partition_eq s = (case split_first 61 s of [a, b] \<Rightarrow> (a, Some b) | _ \<Rightarrow> (s, None))"

text \<open>\<^emph>\<open>^-\d+$|^-\d*\.\d+$\<close>, where \<^emph>\<open>$\<close> also matches before a final newline.\<close>

definition re_digit :: "unicode \<Rightarrow> nat \<Rightarrow> bool" where
  "re_digit U c \<longleftrightarrow> (if c < 128 then 48 \<le> c \<and> c \<le> 57 else decimal_value U c \<noteq> None)"

definition negative_number :: "unicode \<Rightarrow> pystr \<Rightarrow> bool" where
  "negative_number U s =
     (case s of [] \<Rightarrow> False
      | c # t0 \<Rightarrow>
          let t = (if t0 \<noteq> [] \<and> last t0 = 10 then butlast t0 else t0);
              rest = dropWhile (re_digit U) t in
          c = 45 \<and> (t \<noteq> [] \<and> rest = [] \<or>
            (case rest of d # ds \<Rightarrow> d = 46 \<and> ds \<noteq> [] \<and> list_all (re_digit U) ds | [] \<Rightarrow> False)))"

text \<open>
  An argument is a value, an option with the text given to it if any (and whether an equals sign
  introduced it), or something that looks like an option but is none.
\<close>

datatype argument = Value pystr | Opt opt "(bool \<times> pystr) option" | UnknownOpt pystr | Dashes

text \<open>\<^emph>\<open>_get_option_tuples\<close>: the options a text may abbreviate.\<close>

definition option_tuples :: "pystr \<Rightarrow> argument list" where
  "option_tuples s =
     (if take 1 (drop 1 s) = [45] then
        (case partition_eq s of (pre, ex) \<Rightarrow>
           map (\<lambda>(name, a). Opt a (map_option (Pair True) ex)) (filter (\<lambda>(name, a). take (length pre) name = pre) option_strings))
      else
        List.map_filter (\<lambda>(name, a).
          if name = take 2 s then Some (Opt a (Some (False, drop 2 s)))
          else if take (length s) name = s then Some (Opt a None) else None) option_strings)"

text \<open>\<^emph>\<open>_parse_optional\<close>.\<close>

definition parse_optional :: "unicode \<Rightarrow> pystr \<Rightarrow> argument res" where
  "parse_optional U s =
     (if s = [] \<or> hd s \<noteq> 45 then Inr (Value s)
      else case map_of option_strings s of
        Some a \<Rightarrow> Inr (Opt a None)
      | None \<Rightarrow>
          if length s = 1 then Inr (Value s)
          else case partition_eq s of (name, ex) \<Rightarrow>
            (case (ex, map_of option_strings name) of
               (Some v, Some a) \<Rightarrow> Inr (Opt a (Some (True, v)))
             | _ \<Rightarrow>
                 (case option_tuples s of
                    [t] \<Rightarrow> Inr t
                  | _ # _ # _ \<Rightarrow> Inl (SystemExit 2)
                  | [] \<Rightarrow> if negative_number U s \<or> 32 \<in> set s then Inr (Value s) else Inr (UnknownOpt s))))"

text \<open>All arguments are classified before the first one is acted on; after \<^emph>\<open>--\<close> come values only.\<close>

fun classify :: "unicode \<Rightarrow> pystr list \<Rightarrow> argument list res" where
  "classify U [] = Inr []"
| "classify U (s # ss) =
     (if s = [45, 45] then Inr (Dashes # map Value ss)
      else res_bind (parse_optional U s) (\<lambda>a. res_bind (classify U ss) (\<lambda>as. Inr (a # as))))"

section \<open>Acting on them\<close>

text \<open>
  A text stuck to the help option: what follows \<^emph>\<open>-h\<close> may be more \<^emph>\<open>h\<close>s, or something that is
  reported only if help did not end the program first; help takes no value.
\<close>

function help_tail :: "bool \<Rightarrow> pystr \<Rightarrow> exn" where
  "help_tail sep e =
     (if e = [] \<or> sep \<or> hd e = 45 then SystemExit 2
      else if hd e \<noteq> 104 \<or> tl e = [] then SystemExit 0
      else if hd (tl e) = 61 then help_tail True (tl (tl e))
      else help_tail False (tl e))"
  by pat_completeness auto
termination
  by (relation "measure (\<lambda>(sep, e). length e)") (auto simp: neq_Nil_conv)

declare help_tail.simps [simp del]

text \<open>\<^emph>\<open>take_action\<close> for the four options: convert, check, store or append.\<close>

definition take_action ::
    "unicode \<Rightarrow> (pystr \<Rightarrow> 'f res) \<Rightarrow> 'f \<Rightarrow> opt \<Rightarrow> pystr \<Rightarrow> 'f namespace \<Rightarrow> 'f namespace res" where
  "take_action U to_float zero a s ns =
     (case a of
        HelpOpt \<Rightarrow> Inl (SystemExit 0)
      | DevicesOpt \<Rightarrow> res_bind (argument_type (int_of_text U 10) s) (\<lambda>n. Inr (ns\<lparr>ns_devices := Some n\<rparr>))
      | TopologyOpt \<Rightarrow> if s \<in> set topology_choices then Inr (ns\<lparr>ns_topology := Some s\<rparr>) else Inl (SystemExit 2)
      | InjectOpt \<Rightarrow>
          res_bind (argument_type (parse_inject_spec U to_float zero) s) (\<lambda>sp.
          Inr (ns\<lparr>ns_injections := ns_injections ns @ [sp]\<rparr>))
      | WaitOpt \<Rightarrow> res_bind (argument_type to_float s) (\<lambda>w. Inr (ns\<lparr>ns_wait := w\<rparr>)))"

text \<open>The arguments from left to right; the flag says whether any were left over.\<close>

fun consume ::
    "unicode \<Rightarrow> (pystr \<Rightarrow> 'f res) \<Rightarrow> 'f \<Rightarrow> argument list \<Rightarrow> bool \<Rightarrow> 'f namespace \<Rightarrow> (bool \<times> 'f namespace) res" where
  "consume U to_float zero [] extras ns = Inr (extras, ns)"
| "consume U to_float zero (Value s # as) extras ns = consume U to_float zero as True ns"
| "consume U to_float zero (Dashes # as) extras ns = consume U to_float zero as True ns"
| "consume U to_float zero (UnknownOpt s # as) extras ns = consume U to_float zero as True ns"
| "consume U to_float zero (Opt a (Some (sep, e)) # as) extras ns =
     (if a = HelpOpt then Inl (help_tail sep e)
      else res_bind (take_action U to_float zero a e ns) (\<lambda>ns1. consume U to_float zero as extras ns1))"
| "consume U to_float zero (Opt a None # as) extras ns =
     (if a = HelpOpt then Inl (SystemExit 0)
      else case as of
        Value s # as1 \<Rightarrow> res_bind (take_action U to_float zero a s ns) (\<lambda>ns1. consume U to_float zero as1 extras ns1)
      | _ \<Rightarrow> Inl (SystemExit 2))"

definition parse_args :: "unicode \<Rightarrow> (pystr \<Rightarrow> 'f res) \<Rightarrow> 'f \<Rightarrow> 'f \<Rightarrow> pystr list \<Rightarrow> 'f harness_args res" where
  "parse_args U to_float zero two argv =
     res_bind (classify U argv) (\<lambda>as.
     res_bind (consume U to_float zero as False
        \<lparr> ns_devices = None, ns_topology = None, ns_injections = [], ns_wait = two \<rparr>) (\<lambda>(extras, ns).
     case (ns_devices ns, ns_topology ns) of
       (Some n, Some t) \<Rightarrow>
         if ns_injections ns = [] \<or> extras then Inl (SystemExit 2)
         else Inr \<lparr> arg_devices = n, arg_topology = t, arg_injections = ns_injections ns, arg_wait = ns_wait ns \<rparr>
     | _ \<Rightarrow> Inl (SystemExit 2)))"

section \<open>What the program gets\<close>

text \<open>\<^emph>\<open>float\<close> of a text raises \<^emph>\<open>ValueError\<close> and nothing else.\<close>

definition float_errors :: "(pystr \<Rightarrow> 'f res) \<Rightarrow> bool" where
  "float_errors to_float \<longleftrightarrow> (\<forall>t e. to_float t = Inl e \<longrightarrow> is_ValueError e)"

lemma float_errorsD: "float_errors to_float \<Longrightarrow> to_float t = Inl e \<Longrightarrow> is_ValueError e"
  by (simp add: float_errors_def)

lemma argument_type_cases:
  assumes "argument_type f s = Inl e"
  shows "e = SystemExit 2 \<or> f s = Inl e \<and> \<not> is_TypeError e \<and> \<not> is_ValueError e"
  using assms by (auto simp: argument_type_def split: sum.splits if_splits)

lemma parse_inject_spec_errors:
  assumes "float_errors to_float" "parse_inject_spec U to_float zero s = Inl e"
  shows "is_TypeError e \<or> is_ValueError e \<or> e = KeyError"
proof -
  have pairs: "is_ValueError e" if "pairs_of ps = Inl e" for ps e
    using that by (induction ps rule: pairs_of.induct) (auto simp: res_bind_eq_Inl split: list.splits)
  show ?thesis
    using assms(2)
    by (auto simp: parse_inject_spec_def res_bind_eq_Inl spec_fields_def field_res_def int_field_def zone_field_def
        delay_field_def split: option.splits dest!: pairs int_of_text_error utf8_encode_error float_errorsD [OF assms(1)])
qed

lemma take_action_errors:
  assumes "float_errors to_float" "take_action U to_float zero a s ns = Inl e"
  shows "e \<in> {SystemExit 0, SystemExit 2, KeyError}"
  using assms(2)
  by (cases a) (auto simp: take_action_def res_bind_eq_Inl split: if_splits
    dest!: argument_type_cases dest: int_of_text_error float_errorsD [OF assms(1)] parse_inject_spec_errors [OF assms(1)])

lemma help_tail_exits: "help_tail sep e \<in> {SystemExit 0, SystemExit 2}"
  by (induction sep e rule: help_tail.induct) (subst help_tail.simps, simp)

lemma consume_errors:
  assumes "float_errors to_float" "consume U to_float zero as extras ns = Inl e"
  shows "e \<in> {SystemExit 0, SystemExit 2, KeyError}"
  using assms
proof (induction U to_float zero as extras ns rule: consume.induct)
  case (5 U to_float zero a sep e' as extras ns)
  show ?case
    using help_tail_exits [of sep e'] 5 by (auto simp: res_bind_eq_Inl split: if_splits dest: take_action_errors [OF 5(2)])
next
  case (6 U to_float zero a as extras ns)
  show ?case
    using 6 by (auto simp: res_bind_eq_Inl split: if_splits list.splits argument.splits dest: take_action_errors [OF 6(2)])
qed auto

lemma classify_errors: "classify U ss = Inl e \<Longrightarrow> e = SystemExit 2"
  by (induction ss) (auto simp: res_bind_eq_Inl parse_optional_def split: if_splits option.splits prod.splits list.splits)

text \<open>Only a listed topology gets into the namespace.\<close>

lemma take_action_topology:
  assumes "take_action U to_float zero a s ns = Inr ns'" "ns_topology ns \<in> insert None (Some ` set topology_choices)"
  shows "ns_topology ns' \<in> insert None (Some ` set topology_choices)"
  using assms by (cases a) (auto simp: take_action_def split: if_splits)

lemma consume_topology:
  assumes "consume U to_float zero as extras ns = Inr (x, ns')" "ns_topology ns \<in> insert None (Some ` set topology_choices)"
  shows "ns_topology ns' \<in> insert None (Some ` set topology_choices)"
  using assms
proof (induction U to_float zero as extras ns rule: consume.induct)
  case (5 U to_float zero a sep e' as extras ns)
  then show ?case using take_action_topology by (fastforce split: if_splits)
next
  case (6 U to_float zero a as extras ns)
  then show ?case using take_action_topology by (fastforce split: if_splits list.splits argument.splits)
qed auto

text \<open>
  C37: The command line: whatever the arguments, \<^emph>\<open>parse_args\<close> either gives the harness a topology it
  knows and at least one injection, or ends the program with status 0 (help) or 2 (a usage error), or
  lets a \<^emph>\<open>KeyError\<close> through: a spec without a device or a payload is not reported as a usage error.
\<close>

theorem command_line_outcomes:
  assumes "float_errors to_float"
  shows "case parse_args U to_float zero two argv of
      Inr a \<Rightarrow> (\<exists>build. TOPOLOGIES (arg_topology a) = Some build) \<and> arg_injections a \<noteq> []
    | Inl e \<Rightarrow> e \<in> {SystemExit 0, SystemExit 2, KeyError}"
proof (cases "parse_args U to_float zero two argv")
  case (Inl e)
  then have "e \<in> {SystemExit 0, SystemExit 2, KeyError}"
    using classify_errors consume_errors [OF assms]
    by (auto simp: parse_args_def res_bind_eq_Inl split: option.splits if_splits)
  with Inl show ?thesis by simp
next
  case (Inr a)
  then have "arg_topology a \<in> set topology_choices" "arg_injections a \<noteq> []"
    using consume_topology by (fastforce simp: parse_args_def split: option.splits if_splits)+
  then have "\<exists>build. TOPOLOGIES (arg_topology a) = Some build" by (auto simp: topology_choices_def TOPOLOGIES_def)
  with Inr \<open>arg_injections a \<noteq> []\<close> show ?thesis by simp
qed

section \<open>A full command line\<close>

definition harness_argv :: "int \<Rightarrow> pystr \<Rightarrow> pystr list \<Rightarrow> pystr \<Rightarrow> pystr list" where
  "harness_argv n topo specs wait =
     [str ''--devices'', text_of_int n, str ''--topology'', topo] @ concat (map (\<lambda>s. [str ''--inject'', s]) specs) @
     [str ''--wait'', wait]"

lemma option_values:
  "parse_optional U (str ''--devices'') = Inr (Opt DevicesOpt None)" "str ''--devices'' \<noteq> [45, 45]"
  "parse_optional U (str ''--topology'') = Inr (Opt TopologyOpt None)" "str ''--topology'' \<noteq> [45, 45]"
  "parse_optional U (str ''--inject'') = Inr (Opt InjectOpt None)" "str ''--inject'' \<noteq> [45, 45]"
  "parse_optional U (str ''--wait'') = Inr (Opt WaitOpt None)" "str ''--wait'' \<noteq> [45, 45]"
  by (simp_all add: parse_optional_def option_strings_def str_def)

text \<open>A text that does not start with a dash is a value.\<close>

definition undashed :: "pystr \<Rightarrow> bool" where
  "undashed s \<longleftrightarrow> s = [] \<or> hd s \<noteq> 45"

lemma undashed_value: "undashed s \<Longrightarrow> parse_optional U s = Inr (Value s)" "undashed s \<Longrightarrow> s \<noteq> [45, 45]"
  by (auto simp: undashed_def parse_optional_def)

lemma classify_pair:
  assumes "parse_optional U o' = Inr (Opt a None)" "o' \<noteq> [45, 45]" "undashed s"
  shows "classify U (o' # s # ss) = res_bind (classify U ss) (\<lambda>as. Inr (Opt a None # Value s # as))"
  using assms undashed_value [of s] by (cases "classify U ss") simp_all

lemma classify_injections:
  assumes "list_all undashed specs"
  shows "classify U (concat (map (\<lambda>s. [str ''--inject'', s]) specs) @ ss) =
    res_bind (classify U ss) (\<lambda>as. Inr (concat (map (\<lambda>s. [Opt InjectOpt None, Value s]) specs) @ as))"
  using assms
proof (induction specs)
  case (Cons s specs)
  then show ?case
    using classify_pair [OF option_values(5,6), of s] by (cases "classify U ss") simp_all
qed (cases "classify U ss"; simp)

lemma consume_injections:
  assumes "list_all2 (\<lambda>s sp. parse_inject_spec U to_float zero s = Inr sp) specs sps"
  shows "consume U to_float zero (concat (map (\<lambda>s. [Opt InjectOpt None, Value s]) specs) @ as) extras ns =
    consume U to_float zero as extras (ns\<lparr>ns_injections := ns_injections ns @ sps\<rparr>)"
  using assms
proof (induction specs sps arbitrary: ns rule: list_all2_induct)
  case (Cons s specs sp sps)
  then show ?case by (simp add: take_action_def argument_type_def)
qed simp

lemma text_of_int_undashed: "0 \<le> n \<Longrightarrow> undashed (text_of_int n)"
  using show_nat_ascii [of 45 "nat n"] show_nat_nonempty [of "nat n"]
  by (cases "str (show_nat (nat n))") (auto simp: undashed_def text_of_int_def show_int_def)

lemma full_command_line:
  assumes "0 \<le> n" "n < 2 ^ 64" "topo \<in> set topology_choices" "specs \<noteq> []" "list_all undashed (wait # specs)"
    and "list_all2 (\<lambda>s sp. parse_inject_spec U to_float zero s = Inr sp) specs sps" "to_float wait = Inr w"
  shows "parse_args U to_float zero two (harness_argv n topo specs wait) =
    Inr \<lparr> arg_devices = n, arg_topology = topo, arg_injections = sps, arg_wait = w \<rparr>"
proof -
  have topo: "undashed topo" using assms(3) by (auto simp: topology_choices_def undashed_def str_def)
  have "\<bar>n\<bar> < (10 :: int) ^ 20" using assms(1,2) by simp
  also have "\<dots> \<le> 10 ^ MAX_STR_DIGITS" by (rule power_increasing) (simp_all add: MAX_STR_DIGITS_def)
  finally have n: "int_of_text U 10 (text_of_int n) = Inr n" by (simp add: int_of_text_of_int)
  have "sps \<noteq> []" using assms(4,6) by auto
  moreover have "classify U (harness_argv n topo specs wait) =
      Inr (Opt DevicesOpt None # Value (text_of_int n) # Opt TopologyOpt None # Value topo #
        concat (map (\<lambda>s. [Opt InjectOpt None, Value s]) specs) @ [Opt WaitOpt None, Value wait])"
    using assms(1,5) classify_injections [of specs U "[str ''--wait'', wait]"] classify_pair [OF option_values(7,8), of wait U "[]"]
    by (simp add: harness_argv_def classify_pair option_values text_of_int_undashed topo del: classify.simps(2))
  ultimately show ?thesis
    using assms(3,7) n by (simp add: parse_args_def take_action_def argument_type_def consume_injections [OF assms(6)])
qed

text \<open>
  A full command line means what it says: with every value in its place and every spec readable,
  the harness gets exactly the number of devices, the topology, the injections in their order and the
  settle time.
\<close>

lemma command_line_roundtrip:
  assumes "0 \<le> n" "n < 2 ^ 64" "topo \<in> set topology_choices" "specs \<noteq> []" "list_all undashed (wait # specs)"
    and "list_all2 (\<lambda>s sp. parse_inject_spec U to_float zero s = Inr sp) specs sps" "to_float wait = Inr w"
  shows "parse_args U to_float zero two (harness_argv n topo specs wait) =
    Inr \<lparr> arg_devices = n, arg_topology = topo, arg_injections = sps, arg_wait = w \<rparr>"
  by (rule full_command_line [OF assms])

lemma command_line_roundtrip_witness:
  "\<exists>a. parse_args ascii_unicode (\<lambda>t. Inr t) [] [50] (harness_argv 5 (str ''line'') [spec_text 0 [97, 61] 5 8 65535 [48]] [51]) = Inr a \<and>
     arg_devices a = 5 \<and> arg_topology a = str ''line'' \<and> map spec_zone_id (arg_injections a) = [65535] \<and> arg_wait a = [51]"
proof -
  obtain sp where sp: "parse_inject_spec ascii_unicode (\<lambda>t. Inr t) [] (spec_text 0 [97, 61] 5 8 65535 [48]) = Inr sp"
    "spec_zone_id sp = 65535"
    using inject_spec_roundtrip [of "[97, 61]" "[48]" "[97, 61]" "\<lambda>t. Inr t" "[48]" 0 5 8 65535 ascii_unicode "[]"]
    by (auto simp: utf8_encode_def utf8_char_def scalar_def)
  have "list_all undashed [[51], spec_text 0 [97, 61] 5 8 65535 [48]]"
    by (simp add: undashed_def spec_text_def str_def)
  from command_line_roundtrip [OF _ _ _ _ this, of 5 "str ''line''" ascii_unicode "\<lambda>t. Inr t" "[]" "[sp]"] sp
  show ?thesis by (simp add: topology_choices_def)
qed

theorem command_line_outcomes_witness:
  "parse_args ascii_unicode (\<lambda>t. Inr (0 :: nat)) 0 2 [str ''--inject'', str ''a=b''] = Inl KeyError \<and>
   (case parse_args ascii_unicode (\<lambda>t. Inr (0 :: nat)) 0 2 [str ''-h''] of
      Inr a \<Rightarrow> (\<exists>build. TOPOLOGIES (arg_topology a) = Some build) \<and> arg_injections a \<noteq> []
    | Inl e \<Rightarrow> e \<in> {SystemExit 0, SystemExit 2, KeyError})"
proof
  show "parse_args ascii_unicode (\<lambda>t. Inr (0 :: nat)) 0 2 [str ''--inject'', str ''a=b''] = Inl KeyError"
  proof -
    have c: "classify U [str ''--inject'', str ''a=b''] = Inr [Opt InjectOpt None, Value (str ''a=b'')]" for U
      using classify_pair [OF option_values(5,6), of "str ''a=b''" U "[]"] by (simp add: undashed_def str_def)
    show ?thesis
      unfolding parse_args_def c
      by (simp add: take_action_def argument_type_def parse_inject_spec_def spec_fields_def field_res_def field_def str_def)
  qed
  show "case parse_args ascii_unicode (\<lambda>t. Inr (0 :: nat)) 0 2 [str ''-h''] of
      Inr a \<Rightarrow> (\<exists>build. TOPOLOGIES (arg_topology a) = Some build) \<and> arg_injections a \<noteq> []
    | Inl e \<Rightarrow> e \<in> {SystemExit 0, SystemExit 2, KeyError}"
    by (rule command_line_outcomes) (simp add: float_errors_def)
qed

end
