(* ===== verification/Threads.thy ===== *)
theory Threads
  imports Main
begin

text \<open>
  Threads that share a state without a lock, as the connection threads of \<^emph>\<open>transport/socket_transport.py\<close> share
  the pipeline of their device. A thread is its local state, \<open>adv\<close> makes its next access to the shared one; any
  thread may go next. The interface \<open>safe_threads\<close> states when local assertions survive the others.
\<close>

inductive sched_step :: "('l \<Rightarrow> 's \<Rightarrow> 'l \<times> 's) \<Rightarrow> 'l list \<times> 's \<Rightarrow> 'l list \<times> 's \<Rightarrow> bool" for adv where
  turn: "i < length ls \<Longrightarrow> adv (ls ! i) sh = (l', sh') \<Longrightarrow> sched_step adv (ls, sh) (ls[i := l'], sh')"

inductive_cases sched_stepE: "sched_step adv (ls, sh) c"

text \<open>A schedule names the threads in the order they go.\<close>

fun run_sched :: "('l \<Rightarrow> 's \<Rightarrow> 'l \<times> 's) \<Rightarrow> nat list \<Rightarrow> 'l list \<times> 's \<Rightarrow> 'l list \<times> 's" where
  "run_sched adv [] c = c"
| "run_sched adv (i # is') (ls, sh) = (case adv (ls ! i) sh of (l', sh') \<Rightarrow> run_sched adv is' (ls[i := l'], sh'))"

lemma run_sched_steps:
  assumes "list_all (\<lambda>i. i < length (fst c)) is'"
  shows "(sched_step adv)\<^sup>*\<^sup>* c (run_sched adv is' c)"
  using assms
proof (induction adv is' c rule: run_sched.induct)
  case (2 adv i is' ls sh)
  obtain l' sh' where a: "adv (ls ! i) sh = (l', sh')" by fastforce
  have "sched_step adv (ls, sh) (ls[i := l'], sh')" using 2(2) by (intro turn a) simp
  with 2 a show ?case by (simp add: converse_rtranclp_into_rtranclp [where r = "sched_step adv"])
qed simp

lemma run_sched_reaches:
  "run_sched adv is' c = c' \<Longrightarrow> list_all (\<lambda>i. i < length (fst c)) is' \<Longrightarrow> (sched_step adv)\<^sup>*\<^sup>* c c'"
  using run_sched_steps by metis

text \<open>One thread by itself, some number of accesses.\<close>

fun run_alone :: "('l \<Rightarrow> 's \<Rightarrow> 'l \<times> 's) \<Rightarrow> nat \<Rightarrow> 'l \<times> 's \<Rightarrow> 'l \<times> 's" where
  "run_alone adv 0 c = c"
| "run_alone adv (Suc n) (l, sh) = run_alone adv n (adv l sh)"

lemma run_alone_add: "run_alone adv (m + n) c = run_alone adv n (run_alone adv m c)"
proof (induction m arbitrary: c)
  case (Suc m)
  obtain l sh where "c = (l, sh)" by fastforce
  with Suc show ?case by simp
qed simp

lemma sched_step_length: "(sched_step adv)\<^sup>*\<^sup>* c c' \<Longrightarrow> length (fst c') = length (fst c)"
  by (induction rule: rtranclp_induct) (auto elim: sched_step.cases)

text \<open>Counting the threads that are at some point, over a step of one of them.\<close>

lemma count_replace:
  fixes f :: "'l \<Rightarrow> nat"
  assumes "i < length ls"
  shows "sum_list (map f (ls[i := l])) + f (ls ! i) = sum_list (map f ls) + f l"
proof -
  have "f (ls ! i) \<le> sum_list (map f ls)"
    using elem_le_sum_list [of i "map f ls"] assms by simp
  then show ?thesis using assms by (simp add: map_update sum_list_update)
qed

lemma count_le:
  fixes f :: "'l \<Rightarrow> nat"
  assumes "\<And>l. f l \<le> 1"
  shows "sum_list (map f ls) \<le> length ls"
  using sum_list_mono [of ls f "\<lambda>_. 1"] assms by (simp add: sum_list_triv)

text \<open>A thread that goes on its own for a while, among the others.\<close>

lemma run_alone_sched:
  assumes "run_alone adv n (ls ! i, sh) = (l', sh')" "i < length ls"
  shows "(sched_step adv)\<^sup>*\<^sup>* (ls, sh) (ls[i := l'], sh')"
  using assms
proof (induction n arbitrary: ls sh)
  case 0
  then have "ls[i := l'] = ls" "sh' = sh" by auto
  then show ?case by simp
next
  case (Suc n)
  obtain l1 sh1 where a: "adv (ls ! i) sh = (l1, sh1)" by fastforce
  have "(sched_step adv)\<^sup>*\<^sup>* (ls[i := l1], sh1) ((ls[i := l1])[i := l'], sh')"
    using Suc a by (intro Suc.IH) simp_all
  with turn [of i ls adv sh l1 sh1] Suc(3) a show ?case
    by (simp add: converse_rtranclp_into_rtranclp [where r = "sched_step adv"])
qed

text \<open>Like threads that go one after the other.\<close>

lemma sched_in_turn:
  assumes "\<And>j. j < k \<Longrightarrow> run_alone adv n (a, f j) = (b, f (Suc j))"
  shows "(sched_step adv)\<^sup>*\<^sup>* (replicate k a, f 0) (replicate k b, f k)"
proof -
  have "j \<le> k \<Longrightarrow> (sched_step adv)\<^sup>*\<^sup>* (replicate k a, f 0) (replicate j b @ replicate (k - j) a, f j)" for j
  proof (induction j)
    case (Suc j)
    then obtain m where m: "k - j = Suc m" "k - Suc j = m" by (metis Suc_diff_Suc Suc_le_lessD)
    have "(sched_step adv)\<^sup>*\<^sup>* (replicate j b @ replicate (k - j) a, f j)
        ((replicate j b @ replicate (k - j) a)[j := b], f (Suc j))"
      using assms [of j] Suc(2) m by (intro run_alone_sched [where n = n]) (simp_all add: nth_append)
    moreover have "(replicate j b @ replicate (k - j) a)[j := b] = replicate (Suc j) b @ replicate (k - Suc j) a"
      by (simp add: m list_update_append replicate_append_same flip: append.assoc)
    ultimately show ?case using Suc by simp
  qed simp
  from this [of k] show ?thesis by simp
qed

text \<open>
  Local assertions under interference: \<open>fine\<close> holds of a thread and the shared state, its own access
  takes it from one such state to the next, and no access of another thread destroys it.
\<close>

locale safe_threads =
  fixes adv :: "'l \<Rightarrow> 's \<Rightarrow> 'l \<times> 's"
    and good :: "'s \<Rightarrow> bool"
    and fine :: "'l \<Rightarrow> 's \<Rightarrow> bool"
  assumes own: "good s \<Longrightarrow> fine l s \<Longrightarrow> adv l s = (l', s') \<Longrightarrow> good s' \<and> fine l' s'"
    and other: "good s \<Longrightarrow> fine l s \<Longrightarrow> adv l s = (l', s') \<Longrightarrow> fine k s \<Longrightarrow> fine k s'"
begin

definition all_fine :: "'l list \<times> 's \<Rightarrow> bool" where
  "all_fine c \<longleftrightarrow> good (snd c) \<and> list_all (\<lambda>l. fine l (snd c)) (fst c)"

lemma step_fine:
  assumes "sched_step adv c c'" "all_fine c"
  shows "all_fine c'"
  using assms(1)
proof cases
  case (turn i ls sh l' sh')
  have g: "good sh" "\<And>l. l \<in> set ls \<Longrightarrow> fine l sh" using assms(2) turn(1) by (simp_all add: all_fine_def list_all_iff)
  have f: "fine (ls ! i) sh" using g(2) turn(3) by simp
  have "fine l sh'" if "l \<in> set (ls[i := l'])" for l
  proof -
    from that have "l = l' \<or> l \<in> set ls" using set_update_subset_insert by fastforce
    then show ?thesis using own [OF g(1) f turn(4)] other [OF g(1) f turn(4)] g(2) by blast
  qed
  with own [OF g(1) f turn(4)] turn(2) show ?thesis by (simp add: all_fine_def list_all_iff)
qed

lemma run_fine:
  assumes "(sched_step adv)\<^sup>*\<^sup>* c c'" "all_fine c"
  shows "all_fine c'"
  using assms by (induction rule: rtranclp_induct) (auto intro: step_fine)

lemma reached_fine:
  assumes "(sched_step adv)\<^sup>*\<^sup>* (ls, sh) (ls', sh')" "good sh" "list_all (\<lambda>l. fine l sh) ls" "i < length ls'"
  shows "good sh' \<and> fine (ls' ! i) sh'"
  using run_fine [OF assms(1)] assms(2-4) by (simp add: all_fine_def list_all_length)

end

end
