(* ===== verification/Pipeline_Threads.thy ===== *)
theory Pipeline_Threads
  imports Fixtures Threads
begin

text \<open>
  \<^emph>\<open>RelayPipeline.process\<close> on many threads, cut at its eight steps: each check is one access, as it would be with a
  lock in each of them, but other calls run between the steps of a call. This separates
  the races inside a check (\<open>Dedup_Threads\<close>, \<open>Rate_Threads\<close>, \<open>Attest_Threads\<close>) from the pipeline: with the checks
  undivided, the pipeline itself needs no lock.
\<close>

section \<open>A call in steps\<close>

datatype step_pc =
    StStart                         \<comment> \<open>steps 1 to 3, which share nothing\<close>
  | StDedup message
  | StRate message
  | StSignature message
  | StAttest message
  | StDeliver message
  | StReturned "pipeline_result res"

record process_thread =
  pt_clk :: clocks
  pt_raw :: bytes
  pt_pc :: step_pc

definition process_thread_of :: "clocks \<Rightarrow> bytes \<Rightarrow> process_thread" where
  "process_thread_of clk bs = \<lparr> pt_clk = clk, pt_raw = bs, pt_pc = StStart \<rparr>"

text \<open>After a check: an exception and a reason end the call.\<close>

definition after_check :: "reason res \<Rightarrow> step_pc \<Rightarrow> step_pc" where
  "after_check r pc =
     (case r of Inl e \<Rightarrow> StReturned (Inl e)
      | Inr reason \<Rightarrow> if truthy reason then StReturned (Inr (drop_with reason)) else pc)"

definition first_steps :: "time \<Rightarrow> bytes \<Rightarrow> step_pc" where
  "first_steps now bs =
     (if truthy (check_size bs) then StReturned (Inr (drop_with (check_size bs)))
      else case parse_packet bs of
        Inl e \<Rightarrow> if is_ValueError e then StReturned (Inr (drop_with (Some (''malformed: '' @ exn_text e))))
                 else StReturned (Inl e)
      | Inr msg \<Rightarrow>
          if truthy (check_ttl msg) then StReturned (Inr (drop_with (check_ttl msg)))
          else if truthy (check_timestamp now msg) then StReturned (Inr (drop_with (check_timestamp now msg)))
          else StDedup msg)"

definition process_advance ::
    "'b bloom_ops \<Rightarrow> crypto \<Rightarrow> process_thread \<Rightarrow> 'b relay_pipeline \<Rightarrow> process_thread \<times> 'b relay_pipeline" where
  "process_advance B C th p =
     (case pt_pc th of
        StStart \<Rightarrow> (th\<lparr>pt_pc := first_steps (clk_timestamp (pt_clk th)) (pt_raw th)\<rparr>, p)
      | StDedup m \<Rightarrow>
          (case dedup_check B (clk_dedup (pt_clk th), msg_id m) (dedup_cache p) of
             (r, d) \<Rightarrow> (th\<lparr>pt_pc := after_check r (StRate m)\<rparr>, p\<lparr>dedup_cache := d\<rparr>))
      | StRate m \<Rightarrow>
          (case rate_check (clk_rate (pt_clk th), ephem_id m) (rate_limiter p) of
             (r, l) \<Rightarrow> (th\<lparr>pt_pc := after_check r (StSignature m)\<rparr>, p\<lparr>rate_limiter := l\<rparr>))
      | StSignature m \<Rightarrow> (th\<lparr>pt_pc := after_check (check_signature C m) (StAttest m)\<rparr>, p)
      | StAttest m \<Rightarrow>
          (case attestation p of
             None \<Rightarrow> (th\<lparr>pt_pc := StDeliver m\<rparr>, p)
           | Some cache \<Rightarrow>
               (case attestation_check (clk_attest (pt_clk th), sender_key m) cache of
                  (r, cache') \<Rightarrow> (th\<lparr>pt_pc := after_check r (StDeliver m)\<rparr>, p\<lparr>attestation := Some cache'\<rparr>)))
      | StDeliver m \<Rightarrow>
          (case process_deliver (pt_raw th) m p of (r, p') \<Rightarrow> (th\<lparr>pt_pc := StReturned r\<rparr>, p'))
      | StReturned r \<Rightarrow> (th, p))"

lemma process_advance_frame:
  assumes "process_advance B C th p = (th', p')"
  shows "pt_clk th' = pt_clk th" "pt_raw th' = pt_raw th"
  using assms by (auto simp: process_advance_def split: step_pc.splits prod.splits option.splits)

abbreviation at_step :: "clocks \<Rightarrow> bytes \<Rightarrow> step_pc \<Rightarrow> process_thread" where
  "at_step clk bs pc \<equiv> \<lparr> pt_clk = clk, pt_raw = bs, pt_pc = pc \<rparr>"

abbreviation steps ::
    "'b bloom_ops \<Rightarrow> crypto \<Rightarrow> nat \<Rightarrow> process_thread \<times> 'b relay_pipeline \<Rightarrow> process_thread \<times> 'b relay_pipeline" where
  "steps B C \<equiv> run_alone (process_advance B C)"

abbreviation returning ::
    "clocks \<Rightarrow> bytes \<Rightarrow> pipeline_result res \<times> 'b relay_pipeline \<Rightarrow> process_thread \<times> 'b relay_pipeline" where
  "returning clk bs out \<equiv> (case out of (r, q) \<Rightarrow> (at_step clk bs (StReturned r), q))"

text \<open>What is left of a call, from each step on.\<close>

lemma steps_returned:
  "steps B C n (at_step clk bs (StReturned r), q) = (at_step clk bs (StReturned r), q)"
  by (induction n) (simp_all add: process_advance_def)

lemma steps_deliver:
  "steps B C (Suc n) (at_step clk bs (StDeliver m), q) = returning clk bs (process_deliver bs m q)"
  by (cases "process_deliver bs m q") (simp add: process_advance_def steps_returned)

lemma steps_attest:
  "steps B C (Suc (Suc n)) (at_step clk bs (StAttest m), q) = returning clk bs (process_attest (clk_attest clk) bs m q)"
proof (cases "attestation q")
  case None
  have "steps B C (Suc (Suc n)) (at_step clk bs (StAttest m), q) = steps B C (Suc n) (at_step clk bs (StDeliver m), q)"
    by (simp add: process_advance_def None)
  with None show ?thesis by (simp only: steps_deliver) (simp add: process_attest_def)
next
  case (Some cache)
  obtain r c where r: "attestation_check (clk_attest clk, sender_key m) cache = (r, c)" by fastforce
  have "steps B C (Suc (Suc n)) (at_step clk bs (StAttest m), q) = steps B C (Suc n) (at_step clk bs (after_check r (StDeliver m)), q\<lparr>attestation := Some c\<rparr>)"
    by (simp add: process_advance_def Some r)
  then show ?thesis
    by (cases r) (auto simp: after_check_def steps_returned steps_deliver process_attest_def Some r simp del: run_alone.simps)
qed

lemma steps_signature:
  "steps B C (Suc (Suc (Suc n))) (at_step clk bs (StSignature m), q) = returning clk bs (process_signature C clk bs m q)"
proof -
  have "steps B C (Suc (Suc (Suc n))) (at_step clk bs (StSignature m), q) =
      steps B C (Suc (Suc n)) (at_step clk bs (after_check (check_signature C m) (StAttest m)), q)"
    by (simp add: process_advance_def)
  then show ?thesis
    by (cases "check_signature C m")
      (auto simp: after_check_def steps_returned steps_attest process_signature_def simp del: run_alone.simps)
qed

lemma steps_rate:
  "steps B C (Suc (Suc (Suc (Suc n)))) (at_step clk bs (StRate m), q) =
    (case rate_check (clk_rate clk, ephem_id m) (rate_limiter q) of
       (Inl e, l) \<Rightarrow> (at_step clk bs (StReturned (Inl e)), q\<lparr>rate_limiter := l\<rparr>)
     | (Inr r, l) \<Rightarrow> if truthy r then (at_step clk bs (StReturned (Inr (drop_with r))), q\<lparr>rate_limiter := l\<rparr>)
         else returning clk bs (process_signature C clk bs m (q\<lparr>rate_limiter := l\<rparr>)))"
proof -
  obtain r l where r: "rate_check (clk_rate clk, ephem_id m) (rate_limiter q) = (r, l)" by fastforce
  have "steps B C (Suc (Suc (Suc (Suc n)))) (at_step clk bs (StRate m), q) =
      steps B C (Suc (Suc (Suc n))) (at_step clk bs (after_check r (StSignature m)), q\<lparr>rate_limiter := l\<rparr>)"
    by (simp add: process_advance_def r)
  then show ?thesis
    by (cases r) (auto simp: after_check_def steps_returned steps_signature r simp del: run_alone.simps)
qed

lemma steps_dedup:
  "steps B C (Suc (Suc (Suc (Suc (Suc n))))) (at_step clk bs (StDedup m), q) = returning clk bs (process_stateful B C clk bs m q)"
proof -
  obtain r d where r: "dedup_check B (clk_dedup clk, msg_id m) (dedup_cache q) = (r, d)" by fastforce
  have "steps B C (Suc (Suc (Suc (Suc (Suc n))))) (at_step clk bs (StDedup m), q) =
      steps B C (Suc (Suc (Suc (Suc n)))) (at_step clk bs (after_check r (StRate m)), q\<lparr>dedup_cache := d\<rparr>)"
    by (simp add: process_advance_def r)
  then show ?thesis
    by (cases r) (auto simp: after_check_def steps_returned steps_rate process_stateful_def r simp del: run_alone.simps
      split: prod.splits sum.splits)
qed

lemma process_in_steps_at:
  "steps B C 6 (process_thread_of clk bs, p) = returning clk bs (process B C (clk, bs) p)"
proof -
  have "steps B C 6 (at_step clk bs StStart, p) =
      steps B C (Suc (Suc (Suc (Suc (Suc 0))))) (at_step clk bs (first_steps (clk_timestamp clk) bs), p)"
    by (simp add: numeral_eq_Suc process_advance_def)
  also have "\<dots> = returning clk bs (process B C (clk, bs) p)"
    by (auto simp: first_steps_def process_def steps_returned steps_dedup simp del: run_alone.simps split: sum.splits)
  finally show ?thesis by (simp add: process_thread_of_def)
qed

text \<open>
  The steps are those of \<^emph>\<open>process\<close>: a thread that is not interrupted returns, after six
  accesses, what \<^emph>\<open>process\<close> returns, and leaves the pipeline as it does.
\<close>

lemma process_in_steps:
  "run_alone (process_advance B C) 6 (process_thread_of clk bs, p) =
    (case process B C (clk, bs) p of
       (r, p') \<Rightarrow> (\<lparr> pt_clk = clk, pt_raw = bs, pt_pc = StReturned r \<rparr>, p'))"
  by (rule process_in_steps_at)

section \<open>What a thread knows\<close>

definition attest_passed :: "crypto \<Rightarrow> decoders \<Rightarrow> 'b relay_pipeline \<Rightarrow> time \<Rightarrow> message \<Rightarrow> bool" where
  "attest_passed C D p now m \<longleftrightarrow>
     (\<forall>cache. attestation p = Some cache \<longrightarrow> (\<exists>ex. granted C D cache (sender_key m) ex \<and> py_int now < ex))"

definition step_fine :: "crypto \<Rightarrow> decoders \<Rightarrow> process_thread \<Rightarrow> 'b relay_pipeline \<Rightarrow> bool" where
  "step_fine C D th p \<longleftrightarrow>
     (let good = admitted (pt_clk th) (pt_raw th) in
      case pt_pc th of
        StStart \<Rightarrow> True
      | StDedup m \<Rightarrow> good m
      | StRate m \<Rightarrow> good m
      | StSignature m \<Rightarrow> good m
      | StAttest m \<Rightarrow> good m \<and> sig_valid C m
      | StDeliver m \<Rightarrow> good m \<and> sig_valid C m \<and> attest_passed C D p (clk_attest (pt_clk th)) m
      | StReturned r \<Rightarrow> drops r \<or> (\<exists>m. r = Inr (delivery m (onward (pt_raw th) m)) \<and> good m \<and> sig_valid C m \<and>
          attest_passed C D p (clk_attest (pt_clk th)) m))"

lemma first_steps_cases:
  obtains m where "first_steps (clk_timestamp clk) bs = StDedup m" "admitted clk bs m"
  | r where "first_steps (clk_timestamp clk) bs = StReturned r" "drops r"
proof (cases "\<exists>m. admitted clk bs m")
  case True
  then obtain m where m: "admitted clk bs m" by blast
  then have "first_steps (clk_timestamp clk) bs = StDedup m"
    using parse_packet_InrD(1) [of bs m] by (simp add: first_steps_def admitted_def)
  with m that(1) show ?thesis by blast
next
  case False
  from process_not_admitted [OF this] obtain reason where
    r: "process list_bloom toy_crypto (clk, bs) demo_pipeline = (Inr (drop_with (Some reason)), demo_pipeline)" by blast
  show ?thesis
  proof (cases "first_steps (clk_timestamp clk) bs")
    case (StDedup m)
    then have "admitted clk bs m"
      using parse_packet_wf [of bs m] check_ttl_truthy
      by (auto simp: first_steps_def admitted_def msg_wf_def check_ttl_def split: if_splits sum.splits)
    with False show ?thesis by blast
  next
    case (StReturned x)
    then have "process list_bloom toy_crypto (clk, bs) demo_pipeline = (x, demo_pipeline)"
      by (auto simp: first_steps_def process_def split: if_splits sum.splits)
    with r StReturned that(2) show ?thesis by (auto simp: drops_def)
  qed (auto simp: first_steps_def split: if_splits sum.splits)
qed

lemma after_check_cases:
  assumes "returns r"
  obtains reason where "r = Inr reason" "\<not> truthy reason" "after_check r pc = pc"
  | x where "after_check r pc = StReturned x" "drops x" "r \<noteq> Inr None"
proof -
  obtain reason where r: "r = Inr reason" using assms by (auto simp: returns_iff)
  show ?thesis
  proof (cases "truthy reason")
    case False
    with r that(1) show ?thesis by (auto simp: after_check_def)
  next
    case True
    then obtain t where "reason = Some t" "t \<noteq> []" by (cases reason) auto
    with r that(2) show ?thesis by (auto simp: after_check_def drops_def)
  qed
qed

lemma attest_passed_cong:
  "attestation p' = attestation p \<Longrightarrow> attest_passed C D p' now m = attest_passed C D p now m"
  by (simp add: attest_passed_def)

lemma step_fine_mono:
  assumes "step_fine C D th p" "\<And>now m. attest_passed C D p now m \<Longrightarrow> attest_passed C D p' now m"
  shows "step_fine C D th p'"
  using assms by (auto simp: step_fine_def Let_def split: step_pc.splits)

text \<open>A step keeps the pipeline good, and what was attested to a message stays attested to it.\<close>

lemma process_advance_inv:
  assumes "pipeline_inv B C D p" "process_advance B C th p = (th', p')"
  shows "pipeline_inv B C D p' \<and> (attest_passed C D p now m \<longrightarrow> attest_passed C D p' now m)"
proof (cases "pt_pc th")
  case (StDedup x)
  have "bloom_ok B \<and> dedup_inv B (dedup_cache p)" using assms(1) by (simp add: pipeline_inv_def)
  from dedup.keeps [OF this] assms StDedup show ?thesis
    by (auto simp: process_advance_def pipeline_inv_def attest_passed_def split: prod.splits) (metis snd_conv)
next
  case (StRate x)
  have "rate_inv (rate_limiter p)" using assms(1) by (simp add: pipeline_inv_def)
  from rate.keeps [OF this] assms StRate show ?thesis
    by (auto simp: process_advance_def pipeline_inv_def attest_passed_def split: prod.splits) (metis snd_conv)
next
  case (StAttest x)
  show ?thesis
  proof (cases "attestation p")
    case None
    with assms StAttest show ?thesis by (auto simp: process_advance_def)
  next
    case (Some cache)
    let ?c = "snd (attestation_check (clk_attest (pt_clk th), sender_key x) cache)"
    have p': "p' = p\<lparr>attestation := Some ?c\<rparr>"
      using assms(2) StAttest Some by (auto simp: process_advance_def split: prod.splits)
    have "attest_inv C D ?c" using assms(1) Some by (auto simp: pipeline_inv_def attested_inv_def intro: attestation.keeps)
    moreover have "granted C D ?c = granted C D cache" by (rule granted_cong) simp_all
    ultimately show ?thesis using assms(1) Some by (simp add: p' pipeline_inv_def attested_inv_def attest_passed_def)
  qed
next
  case (StDeliver x)
  then have "p' = snd (process_deliver (pt_raw th) x p)" using assms(2) by (auto simp: process_advance_def split: prod.splits)
  then show ?thesis
    using assms(1) process_deliver_state [of "pt_raw th" x p] by (simp add: pipeline_inv_def attest_passed_def)
qed (use assms in \<open>auto simp: process_advance_def\<close>)

lemma process_deliver_cases:
  assumes "parse_packet bs = Inr m"
  shows "drops (fst (process_deliver bs m p)) \<or> fst (process_deliver bs m p) = Inr (delivery m (onward bs m))"
  using process_deliver_outcome [OF assms] by blast

lemma process_advance_attest_fine:
  assumes "pipeline_inv B C D p" "step_fine C D th p" "process_advance B C th p = (th', p')" "pt_pc th = StAttest m"
  shows "step_fine C D th' p'"
proof -
  note frame = process_advance_frame [OF assms(3)]
  have g: "admitted (pt_clk th) (pt_raw th) m" "sig_valid C m" using assms(2,4) by (simp_all add: step_fine_def)
  show ?thesis
  proof (cases "attestation p")
    case None
    then show ?thesis using g assms(3,4) by (auto simp: process_advance_def step_fine_def attest_passed_def)
  next
    case (Some cache)
    then have c: "attest_inv C D cache" using assms(1) by (simp add: pipeline_inv_def attested_inv_def)
    obtain r l where r: "attestation_check (clk_attest (pt_clk th), sender_key m) cache = (r, l)" by fastforce
    have pc: "pt_pc th' = after_check r (StDeliver m)" using assms(3,4) Some r by (auto simp: process_advance_def)
    have "returns r" using attestation.total [OF c] r by (metis fst_conv)
    then show ?thesis
    proof (cases rule: after_check_cases [of r "StDeliver m"])
      case (1 reason)
      then have "reason = None" using r by (auto simp: attestation_check_def split: option.splits if_splits)
      then have "attest_passed C D p (clk_attest (pt_clk th)) m"
        using attestation_pass_granted [OF c] r 1 Some by (auto simp: attest_passed_def)
      with process_advance_inv [OF assms(1,3)] have "attest_passed C D p' (clk_attest (pt_clk th)) m" by blast
      with 1 pc g show ?thesis by (simp add: step_fine_def frame)
    next
      case (2 x)
      with pc show ?thesis by (simp add: step_fine_def)
    qed
  qed
qed

lemma process_advance_fine:
  assumes "pipeline_inv B C D p" "step_fine C D th p" "process_advance B C th p = (th', p')"
  shows "step_fine C D th' p'"
proof -
  note frame = process_advance_frame [OF assms(3)]
  have keep: "attest_passed C D p now m \<Longrightarrow> attest_passed C D p' now m" for now m
    using process_advance_inv [OF assms(1,3)] by blast
  have inv: "bloom_ok B \<and> dedup_inv B (dedup_cache p)" "rate_inv (rate_limiter p)" "ed25519_errors C"
    using assms(1) by (simp_all add: pipeline_inv_def)
  show ?thesis
  proof (cases "pt_pc th")
    case StStart
    then have "pt_pc th' = first_steps (clk_timestamp (pt_clk th)) (pt_raw th)" using assms(3) by (auto simp: process_advance_def)
    then show ?thesis
      by (cases rule: first_steps_cases [of "pt_clk th" "pt_raw th"]) (auto simp: step_fine_def frame)
  next
    case (StDedup m)
    obtain r d where r: "dedup_check B (clk_dedup (pt_clk th), msg_id m) (dedup_cache p) = (r, d)" by fastforce
    have "returns r" using dedup.total [OF inv(1)] r by (metis fst_conv)
    moreover have "pt_pc th' = after_check r (StRate m)" using assms(3) StDedup r by (auto simp: process_advance_def)
    ultimately show ?thesis
      using assms(2) StDedup by (elim after_check_cases [of r "StRate m"]) (auto simp: step_fine_def frame)
  next
    case (StRate m)
    obtain r l where r: "rate_check (clk_rate (pt_clk th), ephem_id m) (rate_limiter p) = (r, l)" by fastforce
    have "returns r" using rate.total [OF inv(2)] r by (metis fst_conv)
    moreover have "pt_pc th' = after_check r (StSignature m)" using assms(3) StRate r by (auto simp: process_advance_def)
    ultimately show ?thesis
      using assms(2) StRate by (elim after_check_cases [of r "StSignature m"]) (auto simp: step_fine_def frame)
  next
    case (StSignature m)
    then have "pt_pc th' = (if sig_valid C m then StAttest m
        else StReturned (Inr (drop_with (Some ''signature invalid: Ed25519 verification failed''))))"
      using assms(3) by (auto simp: process_advance_def check_signature_total [OF inv(3)] after_check_def)
    then show ?thesis using assms(2) StSignature by (auto simp: step_fine_def frame drops_def)
  next
    case (StAttest m)
    then show ?thesis by (rule process_advance_attest_fine [OF assms])
  next
    case (StDeliver m)
    then have g: "admitted (pt_clk th) (pt_raw th) m" "sig_valid C m" "attest_passed C D p (clk_attest (pt_clk th)) m"
      using assms(2) by (simp_all add: step_fine_def)
    have "pt_pc th' = StReturned (fst (process_deliver (pt_raw th) m p))"
      using assms(3) StDeliver by (auto simp: process_advance_def split: prod.splits)
    with process_deliver_cases [of "pt_raw th" m p] g keep show ?thesis
      by (auto simp: step_fine_def frame admitted_def)
  next
    case (StReturned r)
    with assms(2,3) show ?thesis by (auto simp: process_advance_def)
  qed
qed

interpretation process_threads: safe_threads "process_advance B C" "pipeline_inv B C D" "step_fine C D"
  for B :: "'b bloom_ops" and C D
proof
  fix s s' :: "'b relay_pipeline" and l l' k
  assume h: "pipeline_inv B C D s" "step_fine C D l s" "process_advance B C l s = (l', s')"
  show "pipeline_inv B C D s' \<and> step_fine C D l' s'"
    using process_advance_inv [OF h(1,3)] process_advance_fine [OF h] by blast
  show "step_fine C D k s \<Longrightarrow> step_fine C D k s'"
    using process_advance_inv [OF h(1,3)] by (blast intro: step_fine_mono)
qed


section \<open>With undivided checks\<close>

text \<open>
  C17: With undivided checks \<^emph>\<open>process\<close> needs no lock: in every interleaving of any number of calls the
  pipeline stays good, no call raises, and a call that delivers does so for a well-formed,
  fresh packet with hops left, validly signed, and attested when attestation is configured; every other
  call that has returned dropped its packet for a reason.
\<close>

theorem locked_checks_sound:
  assumes "pipeline_inv B C D p" "list_all (\<lambda>th. pt_pc th = StStart) ths"
    and "(sched_step (process_advance B C))\<^sup>*\<^sup>* (ths, p) (ths', p')"
    and "i < length ths'" "pt_pc (ths' ! i) = StReturned r"
  shows "pipeline_inv B C D p' \<and>
    (drops r \<or> (\<exists>m. r = Inr (delivery m (onward (pt_raw (ths' ! i)) m)) \<and>
       admitted (pt_clk (ths' ! i)) (pt_raw (ths' ! i)) m \<and> sig_valid C m \<and>
       attest_passed C D p' (clk_attest (pt_clk (ths' ! i))) m))"
proof -
  have "list_all (\<lambda>th. step_fine C D th p) ths" using assms(2) by (auto simp: list_all_iff step_fine_def)
  from process_threads.reached_fine [OF assms(3,1) this assms(4)] assms(5) show ?thesis by (simp add: step_fine_def)
qed

section \<open>One delivery\<close>

text \<open>The message of a thread that has passed the dedup check; and whether a thread is past it at all.\<close>

definition passed :: "process_thread \<Rightarrow> message \<Rightarrow> bool" where
  "passed th m \<longleftrightarrow>
     (case pt_pc th of
        StRate x \<Rightarrow> x = m | StSignature x \<Rightarrow> x = m | StAttest x \<Rightarrow> x = m | StDeliver x \<Rightarrow> x = m
      | StReturned r \<Rightarrow> accepts r m | _ \<Rightarrow> False)"

definition past_dedup :: "process_thread \<Rightarrow> nat" where
  "past_dedup th = (case pt_pc th of StStart \<Rightarrow> 0 | StDedup _ \<Rightarrow> 0 | _ \<Rightarrow> 1)"

lemma after_check_passed:
  "after_check r pc = StReturned x \<Longrightarrow> accepts x m \<Longrightarrow> pc = StReturned x"
  by (auto simp: after_check_def split: sum.splits if_splits)

lemma first_steps_passed:
  "first_steps now bs \<noteq> StReturned r \<or> \<not> accepts r m" "first_steps now bs \<noteq> StRate x" "first_steps now bs \<noteq> StSignature x"
  "first_steps now bs \<noteq> StAttest x" "first_steps now bs \<noteq> StDeliver x"
  by (auto simp: first_steps_def split: sum.splits)

lemma after_check_pc:
  "after_check r pc = pc' \<Longrightarrow> pc' = pc \<or> (\<exists>x. pc' = StReturned x \<and> (\<forall>m. \<not> accepts x m))"
  by (auto simp: after_check_def split: sum.splits)

text \<open>Only the dedup check lets a thread pass, and only it touches the dedup cache.\<close>

lemma advance_other:
  assumes "process_advance B C th p = (th', p')" "\<And>x. pt_pc th \<noteq> StDedup x"
  shows "dedup_cache p' = dedup_cache p" "passed th' m \<Longrightarrow> passed th m" "past_dedup th \<le> past_dedup th'"
proof -
  have "dedup_cache p' = dedup_cache p \<and> (passed th' m \<longrightarrow> passed th m) \<and> past_dedup th \<le> past_dedup th'"
  proof (cases "pt_pc th")
    case StStart
    then show ?thesis using assms(1) first_steps_passed [of "clk_timestamp (pt_clk th)" "pt_raw th"]
      by (cases "first_steps (clk_timestamp (pt_clk th)) (pt_raw th)") (auto simp: process_advance_def passed_def past_dedup_def)
  next
    case (StRate x)
    then show ?thesis
      using assms(1) after_check_pc [of "fst (rate_check (clk_rate (pt_clk th), ephem_id x) (rate_limiter p))" "StSignature x" "pt_pc th'"]
      by (auto simp: process_advance_def passed_def past_dedup_def split: prod.splits)
  next
    case (StSignature x)
    then show ?thesis using assms(1) after_check_pc [of "check_signature C x" "StAttest x" "pt_pc th'"]
      by (auto simp: process_advance_def passed_def past_dedup_def)
  next
    case (StAttest x)
    show ?thesis
    proof (cases "attestation p")
      case None
      then show ?thesis using assms(1) StAttest by (auto simp: process_advance_def passed_def past_dedup_def)
    next
      case (Some cache)
      then show ?thesis
        using assms(1) StAttest
          after_check_pc [of "fst (attestation_check (clk_attest (pt_clk th), sender_key x) cache)" "StDeliver x" "pt_pc th'"]
        by (auto simp: process_advance_def passed_def past_dedup_def split: prod.splits)
    qed
  next
    case (StDeliver x)
    have "accepts (fst (process_deliver (pt_raw th) x p)) m \<Longrightarrow> m = x"
      by (auto simp: process_deliver_def accepts_def drop_with_def res_bind_eq_Inr split: prod.splits sum.splits if_splits)
    then show ?thesis using assms(1) StDeliver process_deliver_state(1) [of "pt_raw th" x p]
      by (auto simp: process_advance_def passed_def past_dedup_def split: prod.splits)
  qed (use assms in \<open>auto simp: process_advance_def\<close>)
  then show "dedup_cache p' = dedup_cache p" "passed th' m \<Longrightarrow> passed th m" "past_dedup th \<le> past_dedup th'" by auto
qed

lemma advance_dedup:
  assumes "pipeline_inv B C D p" "process_advance B C th p = (th', p')" "pt_pc th = StDedup x"
  obtains (duplicate) "dedup_cache p' = dedup_cache p" "\<And>m. \<not> passed th' m" "past_dedup th' = 1"
  | (accepted) "\<not> bf_mem B (msg_id x) (bloom (dedup_cache p))"
      "dedup_check B (clk_dedup (pt_clk th), msg_id x) (dedup_cache p) = (Inr None, dedup_cache p')"
      "\<And>m. passed th' m \<longleftrightarrow> m = x" "past_dedup th' = 1"
proof (cases "bf_mem B (msg_id x) (bloom (dedup_cache p))")
  case True
  with assms(2,3) show thesis
    by (intro duplicate) (auto simp: process_advance_def dedup_check_dup after_check_def duplicate_reason_def
      passed_def past_dedup_def)
next
  case False
  have "bloom_ok B" "dedup_inv B (dedup_cache p)" using assms(1) by (simp_all add: pipeline_inv_def)
  from dedup_check_new [OF this False, of "clk_dedup (pt_clk th)"] obtain d where
    "dedup_check B (clk_dedup (pt_clk th), msg_id x) (dedup_cache p) = (Inr None, d)" by blast
  with assms(2,3) False show thesis
    by (intro accepted) (auto simp: process_advance_def after_check_def passed_def past_dedup_def)
qed


text \<open>
  What holds at every moment: the packet of a thread that passed is remembered, with fewer newer entries than threads
  that are past the check, and no two threads passed with the same identifier.
\<close>

definition remembers :: "process_thread list \<Rightarrow> 'b relay_pipeline \<Rightarrow> process_thread \<Rightarrow> message \<Rightarrow> bool" where
  "remembers ths p th m \<longleftrightarrow>
     (\<exists>j < sum_list (map past_dedup ths). holds (msg_id m) (clk_dedup (pt_clk th)) j (dedup_cache p))"

definition all_remembered :: "process_thread list \<times> 'b relay_pipeline \<Rightarrow> bool" where
  "all_remembered c \<longleftrightarrow> (\<forall>i m. i < length (fst c) \<longrightarrow> passed (fst c ! i) m \<longrightarrow> remembers (fst c) (snd c) (fst c ! i) m)"

definition passed_once :: "process_thread list \<Rightarrow> bool" where
  "passed_once ths \<longleftrightarrow> (\<forall>i j m m'. i < length ths \<longrightarrow> j < length ths \<longrightarrow> i \<noteq> j \<longrightarrow>
     passed (ths ! i) m \<longrightarrow> passed (ths ! j) m' \<longrightarrow> msg_id m \<noteq> msg_id m')"

definition within_ttl :: "process_thread list \<Rightarrow> bool" where
  "within_ttl ths \<longleftrightarrow>
     (\<forall>th \<in> set ths. \<forall>th' \<in> set ths. clk_dedup (pt_clk th) - clk_dedup (pt_clk th') \<le> TTL_SECONDS)"

lemma past_dedup_le: "past_dedup th \<le> 1"
  by (simp add: past_dedup_def split: step_pc.split)

lemma remembers_mono:
  assumes "remembers ths p th m" "dedup_cache p' = dedup_cache p" "pt_clk th' = pt_clk th"
    and "sum_list (map past_dedup ths) \<le> sum_list (map past_dedup ths')"
  shows "remembers ths' p' th' m"
  using assms less_le_trans by (fastforce simp: remembers_def)

text \<open>A step that does not let its thread pass.\<close>

lemma once_quiet_step:
  assumes "all_remembered (ths, p)" "passed_once ths" "i < length ths" "pt_clk th' = pt_clk (ths ! i)"
    and "dedup_cache p' = dedup_cache p" "\<And>m. passed th' m \<Longrightarrow> passed (ths ! i) m" "past_dedup (ths ! i) \<le> past_dedup th'"
  shows "all_remembered (ths[i := th'], p') \<and> passed_once (ths[i := th'])"
proof -
  have more: "sum_list (map past_dedup ths) \<le> sum_list (map past_dedup (ths[i := th']))"
    using count_replace [OF assms(3), of past_dedup th'] assms(7) by simp
  have old: "passed (ths[i := th'] ! k) m \<Longrightarrow> passed (ths ! k) m" for k m
    using assms(3,6) by (cases "k = i") simp_all
  have "remembers (ths[i := th']) p' (ths[i := th'] ! k) m" if "k < length ths" "passed (ths[i := th'] ! k) m" for k m
  proof -
    have "remembers ths p (ths ! k) m" using assms(1) that(1) old [OF that(2)] by (simp add: all_remembered_def)
    then show ?thesis
      by (rule remembers_mono [OF _ assms(5) _ more]) (use assms(3,4) that(1) in \<open>cases "k = i"; simp\<close>)
  qed
  moreover have "passed_once (ths[i := th'])" using assms(2) old unfolding passed_once_def length_list_update by blast
  ultimately show ?thesis by (simp add: all_remembered_def)
qed

text \<open>A step that does.\<close>

lemma once_passing_step:
  assumes inv: "bloom_ok B" "dedup_inv B (dedup_cache p)" and few: "length ths \<le> CAPACITY" "within_ttl ths"
    and old: "all_remembered (ths, p)" "passed_once ths"
    and step: "i < length ths" "pt_clk th' = pt_clk (ths ! i)" "\<And>m. passed th' m \<longleftrightarrow> m = x"
      "past_dedup (ths ! i) = 0" "past_dedup th' = 1"
    and check: "dedup_check B (clk_dedup (pt_clk (ths ! i)), msg_id x) (dedup_cache p) = (Inr None, dedup_cache p')"
  shows "all_remembered (ths[i := th'], p') \<and> passed_once (ths[i := th'])"
proof -
  let ?n = "sum_list (map past_dedup ths)" and ?ths = "ths[i := th']"
  have n: "sum_list (map past_dedup ?ths) = ?n + 1"
    using count_replace [OF step(1), of past_dedup th'] step(4,5) by simp
  have "sum_list (map past_dedup ?ths) \<le> length ths" using count_le [of past_dedup ?ths, OF past_dedup_le] by simp
  then have room: "?n < CAPACITY" using n few(1) by simp
  have new: "remembers ?ths p' th' x"
    using holds_accept [OF inv, of "clk_dedup (pt_clk (ths ! i))" "msg_id x"] check n
    by (auto simp: remembers_def step(2))
  have others: "remembers ?ths p' (ths ! k) m \<and> msg_id m \<noteq> msg_id x" if k: "k < length ths" "passed (ths ! k) m" for k m
  proof -
    obtain j where j: "j < ?n" "holds (msg_id m) (clk_dedup (pt_clk (ths ! k))) j (dedup_cache p)"
      using old(1) k by (auto simp: all_remembered_def remembers_def)
    have "clk_dedup (pt_clk (ths ! i)) - clk_dedup (pt_clk (ths ! k)) \<le> TTL_SECONDS"
      using few(2) step(1) k(1) by (simp add: within_ttl_def)
    from holds_step [OF inv j(2) this, of "msg_id x"] j(1) room
    have "holds (msg_id m) (clk_dedup (pt_clk (ths ! k))) (j + 1) (dedup_cache p')" by (simp add: check)
    then have "remembers ?ths p' (ths ! k) m" using j(1) n by (auto simp: remembers_def)
    moreover have "msg_id m \<noteq> msg_id x"
      using holds_dup [OF inv(2) j(2), of "clk_dedup (pt_clk (ths ! i))"] check by auto
    ultimately show ?thesis by blast
  qed
  have "remembers ?ths p' (?ths ! k) m" if "k < length ths" "passed (?ths ! k) m" for k m
    using that new others step(1,3) by (cases "k = i") auto
  moreover have "msg_id m \<noteq> msg_id m'" if "k < length ths" "l < length ths" "k \<noteq> l" "passed (?ths ! k) m" "passed (?ths ! l) m'"
    for k l m m'
    using that others [of k m] others [of l m'] old(2) step(1,3)
    by (cases "k = i"; cases "l = i") (auto simp: passed_once_def)
  ultimately show ?thesis by (simp add: all_remembered_def passed_once_def)
qed

definition once_inv :: "'b bloom_ops \<Rightarrow> crypto \<Rightarrow> decoders \<Rightarrow> process_thread list \<times> 'b relay_pipeline \<Rightarrow> bool" where
  "once_inv B C D c \<longleftrightarrow> pipeline_inv B C D (snd c) \<and> length (fst c) \<le> CAPACITY \<and> within_ttl (fst c) \<and>
     all_remembered c \<and> passed_once (fst c)"

lemma once_inv_step:
  assumes "sched_step (process_advance B C) c c'" "once_inv B C D c"
  shows "once_inv B C D c'"
  using assms(1)
proof cases
  case (turn i ths p th' p')
  have inv: "pipeline_inv B C D p" "length ths \<le> CAPACITY" "within_ttl ths" "all_remembered (ths, p)" "passed_once ths"
    using assms(2) turn(1) by (simp_all add: once_inv_def)
  then have dinv: "bloom_ok B" "dedup_inv B (dedup_cache p)" by (simp_all add: pipeline_inv_def)
  have clk: "pt_clk th' = pt_clk (ths ! i)" by (rule process_advance_frame [OF turn(4)])
  have "\<exists>x \<in> set ths. pt_clk th = pt_clk x" if "th \<in> set (ths[i := th'])" for th
    using that set_update_subset_insert [of ths i th'] clk turn(3) nth_mem by fastforce
  then have ttl: "within_ttl (ths[i := th'])" using inv(3) unfolding within_ttl_def by metis
  have "all_remembered (ths[i := th'], p') \<and> passed_once (ths[i := th'])"
  proof (cases "\<exists>x. pt_pc (ths ! i) = StDedup x")
    case False
    from advance_other [OF turn(4)] False show ?thesis by (intro once_quiet_step [OF inv(4,5) turn(3) clk]) blast+
  next
    case True
    then obtain x where x: "pt_pc (ths ! i) = StDedup x" by blast
    then have zero: "past_dedup (ths ! i) = 0" by (simp add: past_dedup_def)
    from inv(1) turn(4) x show ?thesis
    proof (cases rule: advance_dedup)
      case duplicate
      then show ?thesis using zero by (intro once_quiet_step [OF inv(4,5) turn(3) clk]) simp_all
    next
      case accepted
      show ?thesis
        by (rule once_passing_step [OF dinv inv(2-5) turn(3) clk accepted(3) zero accepted(4,2)])
    qed
  qed
  with process_advance_inv [OF inv(1) turn(4)] inv(2) ttl turn(2) show ?thesis by (simp add: once_inv_def)
qed

lemma once_inv_run:
  assumes "(sched_step (process_advance B C))\<^sup>*\<^sup>* c c'" "once_inv B C D c"
  shows "once_inv B C D c'"
  using assms by (induction rule: rtranclp_induct) (auto intro: once_inv_step)

text \<open>
  C18: With undivided checks no message is delivered twice: among at most 10000 calls whose readings
  lie within 600 seconds, in whatever way their steps interleave, no two deliver packets with the
  same identifier.
\<close>

theorem locked_checks_once:
  assumes "pipeline_inv B C D p" "list_all (\<lambda>th. pt_pc th = StStart) ths" "length ths \<le> CAPACITY" "within_ttl ths"
    and "(sched_step (process_advance B C))\<^sup>*\<^sup>* (ths, p) (ths', p')"
    and "i < length ths'" "j < length ths'" "i \<noteq> j"
    and "pt_pc (ths' ! i) = StReturned r" "pt_pc (ths' ! j) = StReturned r'"
  shows "\<not> (\<exists>m m'. accepts r m \<and> accepts r' m' \<and> msg_id m = msg_id m')"
proof -
  have "\<not> passed (ths ! k) m" if "k < length ths" for k m
    using assms(2) that by (simp add: list_all_length passed_def)
  then have "once_inv B C D (ths, p)"
    using assms(1,3,4) by (simp add: once_inv_def all_remembered_def passed_once_def)
  from once_inv_run [OF assms(5) this] have "passed_once ths'" by (simp add: once_inv_def)
  moreover have "passed (ths' ! i) m = accepts r m" "passed (ths' ! j) m = accepts r' m" for m
    using assms(9,10) by (simp_all add: passed_def)
  ultimately show ?thesis using assms(6-8) by (auto simp: passed_once_def)
qed


section \<open>Two copies of one packet\<close>

text \<open>The second thread has read its packet when the first one runs.\<close>

abbreviation demo_threads :: "process_thread list" where
  "demo_threads \<equiv> [process_thread_of (clocks_at 1000) demo_packet, process_thread_of (clocks_at 1001) demo_packet]"

lemma demo_threads_run:
  "\<exists>r r' p. (sched_step (process_advance list_bloom toy_crypto))\<^sup>*\<^sup>* (demo_threads, demo_pipeline)
      ([at_step (clocks_at 1000) demo_packet (StReturned r), at_step (clocks_at 1001) demo_packet (StReturned r')], p) \<and>
    accepts r demo_message"
proof -
  let ?adv = "process_advance list_bloom toy_crypto"
  obtain r p where r: "process list_bloom toy_crypto (clocks_at 1000, demo_packet) demo_pipeline = (r, p)" by fastforce
  obtain r' p' where r': "process list_bloom toy_crypto (clocks_at 1001, demo_packet) p = (r', p')" by fastforce
  let ?mid = "[at_step (clocks_at 1000) demo_packet (StReturned r), process_thread_of (clocks_at 1001) demo_packet]"
  have "(sched_step ?adv)\<^sup>*\<^sup>* (demo_threads, demo_pipeline) (demo_threads[0 := at_step (clocks_at 1000) demo_packet (StReturned r)], p)"
    by (rule run_alone_sched [where n = 6]) (simp_all add: process_in_steps_at r)
  then have "(sched_step ?adv)\<^sup>*\<^sup>* (demo_threads, demo_pipeline) (?mid, p)" by simp
  also have "(sched_step ?adv)\<^sup>*\<^sup>* (?mid, p) (?mid[1 := at_step (clocks_at 1001) demo_packet (StReturned r')], p')"
    by (rule run_alone_sched [where n = 6]) (simp_all add: process_in_steps_at r')
  finally show ?thesis using demo_delivered r by auto
qed

theorem locked_checks_sound_witness:
  "\<exists>r p. accepts r demo_message \<and> admitted (clocks_at 1000) demo_packet demo_message \<and> sig_valid toy_crypto demo_message \<and>
    pipeline_inv list_bloom toy_crypto demo_decoders p"
proof -
  obtain r r' p where run: "(sched_step (process_advance list_bloom toy_crypto))\<^sup>*\<^sup>* (demo_threads, demo_pipeline)
      ([at_step (clocks_at 1000) demo_packet (StReturned r), at_step (clocks_at 1001) demo_packet (StReturned r')], p)"
    "accepts r demo_message" using demo_threads_run by blast
  have "list_all (\<lambda>th. pt_pc th = StStart) demo_threads" by (simp add: process_thread_of_def)
  from locked_checks_sound [OF demo_inv [of demo_decoders] this run(1), of 0 r] run(2) show ?thesis
    by (auto simp: accepts_def drops_def delivery_def drop_with_def)
qed

theorem locked_checks_once_witness:
  "\<exists>r r' p. (sched_step (process_advance list_bloom toy_crypto))\<^sup>*\<^sup>* (demo_threads, demo_pipeline)
      ([at_step (clocks_at 1000) demo_packet (StReturned r), at_step (clocks_at 1001) demo_packet (StReturned r')], p) \<and>
    accepts r demo_message \<and> \<not> accepts r' demo_message"
proof -
  obtain r r' p where run: "(sched_step (process_advance list_bloom toy_crypto))\<^sup>*\<^sup>* (demo_threads, demo_pipeline)
      ([at_step (clocks_at 1000) demo_packet (StReturned r), at_step (clocks_at 1001) demo_packet (StReturned r')], p)"
    "accepts r demo_message" using demo_threads_run by blast
  have "list_all (\<lambda>th. pt_pc th = StStart) demo_threads" "length demo_threads \<le> CAPACITY" "within_ttl demo_threads"
    by (simp_all add: process_thread_of_def within_ttl_def clocks_at_def)
  from locked_checks_once [OF demo_inv this run(1), of 0 1 r r'] run show ?thesis by auto
qed

end
