(* ===== verification/Mesh_Threads.thy ===== *)
theory Mesh_Threads
  imports Pipeline_Threads Device
begin

text \<open>
  The mesh with its threads: every connection is handled on a thread of its own (\<^emph>\<open>_accept_loop\<close> starts it,
  \<^emph>\<open>_handle\<close> calls the device), so on one device several calls of \<^emph>\<open>_handle_local\<close> run at once, each cut at the
  steps of \<open>Pipeline_Threads\<close> and at its sends. The system answers the sends: \<open>A L peer r\<close> says that \<open>r\<close> may be the
  outcome of a send to \<open>peer\<close> while the devices of \<open>L\<close> listen; an exception leaves the loop over the
  neighbours and ends the thread. With sends that succeed and no other thread under way a call is
  \<open>handle_local\<close>.
\<close>

section \<open>One call of \<^emph>\<open>_handle_local\<close>\<close>

datatype work =
    Processing process_thread        \<comment> \<open>in the pipeline\<close>
  | Relaying "nat list" bytes        \<comment> \<open>in the loop over the neighbours; those to come, and the packet\<close>
  | SendFailed nat exn               \<comment> \<open>ended by the exception of a send\<close>
  | Ended "unit res"

definition start_work :: "clocks \<Rightarrow> bytes \<Rightarrow> work" where
  "start_work clk bs = Processing (process_thread_of clk bs)"

text \<open>The pipeline has returned or raised.\<close>

definition after_process :: "'b device \<Rightarrow> pipeline_result res \<Rightarrow> work" where
  "after_process dev r =
     (case r of
        Inl e \<Rightarrow> Ended (Inl e)
      | Inr result \<Rightarrow>
          (case snd (relay_plan dev result) of
             Inl e \<Rightarrow> Ended (Inl e)
           | Inr None \<Rightarrow> Ended (Inr ())
           | Inr (Some (line, new_raw)) \<Rightarrow> Relaying (dev_neighbors dev) new_raw))"

definition process_work :: "'b device \<Rightarrow> process_thread \<Rightarrow> work" where
  "process_work dev th = (case pt_pc th of StReturned r \<Rightarrow> after_process dev r | _ \<Rightarrow> Processing th)"

type_synonym answers = "nat set \<Rightarrow> nat \<Rightarrow> unit res \<Rightarrow> bool"

inductive work_step ::
    "'b bloom_ops \<Rightarrow> crypto \<Rightarrow> answers \<Rightarrow> nat set \<Rightarrow> work \<times> 'b device \<Rightarrow> frame list \<Rightarrow> work \<times> 'b device \<Rightarrow> bool" for B C A L where
  processes: "process_advance B C th (dev_pipeline dev) = (th', p) \<Longrightarrow>
    work_step B C A L (Processing th, dev) [] (process_work dev th', dev\<lparr>dev_pipeline := p\<rparr>)"
| sends: "A L peer (Inr ()) \<Longrightarrow>
    work_step B C A L (Relaying (peer # ps) new_raw, dev) [(peer, new_raw)] (Relaying ps new_raw, dev)"
| refused: "A L peer (Inl e) \<Longrightarrow>
    work_step B C A L (Relaying (peer # ps) new_raw, dev) [] (SendFailed peer e, dev)"
| relayed: "work_step B C A L (Relaying [] new_raw, dev) [] (Ended (Inr ()), dev)"

inductive_cases work_stepE: "work_step B C A L c fs c'"

section \<open>The mesh\<close>

record 'b mesh =
  mesh_devices :: "nat \<Rightarrow> 'b device"
  mesh_flight :: "frame multiset"
  mesh_threads :: "(nat \<times> work) multiset"

inductive mesh_step :: "'b bloom_ops \<Rightarrow> crypto \<Rightarrow> answers \<Rightarrow> nat set \<Rightarrow> 'b mesh \<Rightarrow> 'b mesh \<Rightarrow> bool" for B C A L where
  arrive: "mesh_flight m = add_mset (d, bs) rest \<Longrightarrow>
    mesh_step B C A L m (m\<lparr>mesh_flight := rest, mesh_threads := add_mset (d, start_work clk bs) (mesh_threads m)\<rparr>)"
| lost: "mesh_flight m = add_mset f rest \<Longrightarrow> mesh_step B C A L m (m\<lparr>mesh_flight := rest\<rparr>)"
| thread: "mesh_threads m = add_mset (d, w) rest \<Longrightarrow> work_step B C A L (w, mesh_devices m d) fs (w', dev) \<Longrightarrow>
    mesh_step B C A L m (m\<lparr>mesh_devices := (mesh_devices m)(d := dev), mesh_flight := mesh_flight m + mset fs,
      mesh_threads := add_mset (d, w') rest\<rparr>)"

section \<open>What is in flight and what a thread knows\<close>

text \<open>A frame whose packet is well-formed, within the size bounds, with hops and copies left.\<close>

definition frame_ok :: "frame \<Rightarrow> bool" where
  "frame_ok f \<longleftrightarrow>
     (\<exists>m. parse_packet (snd f) = Inr m \<and> msg_wf m \<and> check_size (snd f) = None \<and> check_ttl m = None \<and> 0 < spray_l m)"

lemma onward_frame_ok:
  assumes "admitted clk bs m" "onward bs m = Some f"
  shows "frame_ok (peer, f)" "hops_left (peer, f) < hops_left (d, bs)"
proof -
  have m: "parse_packet bs = Inr m" "length bs \<le> 460" using assms(1) by (simp_all add: admitted_def)
  have o: "onward_copy bs m = Inr (Some f)" using onward_copy_onward [OF m(1)] assms(2) by simp
  note c = onward_copy_parse [OF m(1) o]
  show "frame_ok (peer, f)"
    using m(2) c parse_packet_InrD(1) [OF c(1)] parse_packet_wf [OF c(1)]
    by (auto simp: frame_ok_def check_size_None check_ttl_def)
  show "hops_left (peer, f) < hops_left (d, bs)" by (rule onward_hops_left [OF m(1) o])
qed

definition work_ok :: "crypto \<Rightarrow> decoders \<Rightarrow> answers \<Rightarrow> work \<Rightarrow> 'b device \<Rightarrow> bool" where
  "work_ok C D A w dev \<longleftrightarrow>
     (case w of
        Processing th \<Rightarrow> step_fine C D th (dev_pipeline dev) \<and> (\<forall>r. pt_pc th \<noteq> StReturned r)
      | Relaying ps f \<Rightarrow> set ps \<subseteq> set (dev_neighbors dev) \<and> frame_ok (0, f)
      | SendFailed peer e \<Rightarrow> peer \<in> set (dev_neighbors dev) \<and> (\<exists>L. A L peer (Inl e))
      | Ended r \<Rightarrow> r = Inr ())"

lemma frame_ok_peer: "frame_ok (i, f) \<Longrightarrow> frame_ok (j, f)"
  by (simp add: frame_ok_def)

lemma start_work_ok: "work_ok C D A (start_work clk bs) dev"
  by (simp add: work_ok_def start_work_def process_thread_of_def step_fine_def)

text \<open>What comes of an answer of the pipeline that a fine thread can get.\<close>

lemma after_process_cases:
  assumes "step_fine C D th p" "pt_pc th = StReturned r"
  obtains "after_process dev r = Ended (Inr ())"
  | f where "after_process dev r = Relaying (dev_neighbors dev) f" "frame_ok (0, f)"
      "\<And>i j. hops_left (i, f) < hops_left (j, pt_raw th)"
proof -
  consider "drops r" | m where "r = Inr (delivery m (onward (pt_raw th) m))" "admitted (pt_clk th) (pt_raw th) m"
    using assms by (auto simp: step_fine_def Let_def)
  then show ?thesis
  proof cases
    case 1
    then show ?thesis using that(1) by (auto simp: drops_def after_process_def drop_with_def)
  next
    case (2 m)
    have "parse_packet (pt_raw th) = Inr m" using 2(2) by (simp add: admitted_def)
    from relay_plan_onward [of "delivery m (onward (pt_raw th) m)", OF _ this, of dev] obtain logs line where
      pl: "relay_plan dev (delivery m (onward (pt_raw th) m)) = (logs, Inr (map_option (\<lambda>f. (line, f)) (onward (pt_raw th) m)))"
      by (auto simp: delivery_def)
    show ?thesis
    proof (cases "onward (pt_raw th) m")
      case None
      with pl 2(1) that(1) show ?thesis by (simp add: after_process_def)
    next
      case (Some f)
      with pl 2(1) that(2) [of f] onward_frame_ok [OF 2(2) Some] show ?thesis by (simp add: after_process_def)
    qed
  qed
qed

text \<open>A step keeps the device good and its links, sends good frames, and leaves to the other threads what they know.\<close>

lemma advance_others_ok:
  assumes "pipeline_inv B C D (dev_pipeline dev)" "process_advance B C th (dev_pipeline dev) = (th', p)" "work_ok C D A w dev"
  shows "work_ok C D A w (dev\<lparr>dev_pipeline := p\<rparr>)"
proof (cases w)
  case (Processing t)
  have "attest_passed C D p now m" if "attest_passed C D (dev_pipeline dev) now m" for now m
    using process_advance_inv [OF assms(1,2)] that by blast
  with assms(3) Processing have "step_fine C D t p"
    by (auto simp: work_ok_def intro: step_fine_mono [of C D t "dev_pipeline dev"])
  with assms(3) show ?thesis unfolding Processing by (simp add: work_ok_def)
qed (use assms(3) in \<open>simp_all add: work_ok_def\<close>)

lemma process_work_ok:
  assumes "step_fine C D th (dev_pipeline dev)"
  shows "work_ok C D A (process_work dev th) dev"
proof (cases "pt_pc th")
  case (StReturned r)
  have "work_ok C D A (after_process dev r) dev"
    by (rule after_process_cases [OF assms StReturned, of dev]) (simp_all only:, simp_all add: work_ok_def)
  then show ?thesis by (simp add: process_work_def StReturned)
qed (use assms in \<open>simp_all add: process_work_def work_ok_def\<close>)

lemma relay_plan_frame: "relay_plan (dev\<lparr>dev_pipeline := p\<rparr>) = relay_plan dev"
  by (intro ext) (simp add: relay_plan_def Let_def split: option.splits)

lemma after_process_frame: "after_process (dev\<lparr>dev_pipeline := p\<rparr>) r = after_process dev r"
  by (simp add: after_process_def relay_plan_frame split: sum.splits option.splits)

lemma process_work_frame: "process_work (dev\<lparr>dev_pipeline := p\<rparr>) th = process_work dev th"
  by (cases "pt_pc th") (simp_all add: process_work_def after_process_frame)

lemma work_step_ok:
  assumes "work_step B C A L (w, dev) fs (w', dev')" "pipeline_inv B C D (dev_pipeline dev)" "work_ok C D A w dev"
  shows "pipeline_inv B C D (dev_pipeline dev')" "work_ok C D A w' dev'" "list_all frame_ok fs"
    "dev_neighbors dev' = dev_neighbors dev" "work_ok C D A v dev \<Longrightarrow> work_ok C D A v dev'"
proof -
  have "pipeline_inv B C D (dev_pipeline dev') \<and> work_ok C D A w' dev' \<and> list_all frame_ok fs \<and>
      dev_neighbors dev' = dev_neighbors dev \<and> (work_ok C D A v dev \<longrightarrow> work_ok C D A v dev')"
    using assms(1)
  proof cases
    case (processes th th' p)
    have "step_fine C D th (dev_pipeline dev)" using assms(3) processes(1) by (simp add: work_ok_def)
    from process_advance_fine [OF assms(2) this processes(5)]
    have "work_ok C D A (process_work dev' th') dev'" unfolding processes(4) by (intro process_work_ok) simp
    then show ?thesis
      using processes process_advance_inv [OF assms(2) processes(5)] advance_others_ok [OF assms(2) processes(5)]
      by (simp add: process_work_frame)
  qed (use assms in \<open>auto simp: work_ok_def frame_ok_def\<close>)
  then show "pipeline_inv B C D (dev_pipeline dev')" "work_ok C D A w' dev'" "list_all frame_ok fs"
    "dev_neighbors dev' = dev_neighbors dev" "work_ok C D A v dev \<Longrightarrow> work_ok C D A v dev'" by blast+
qed

definition mesh_ok :: "'b bloom_ops \<Rightarrow> crypto \<Rightarrow> decoders \<Rightarrow> answers \<Rightarrow> 'b mesh \<Rightarrow> bool" where
  "mesh_ok B C D A m \<longleftrightarrow>
     (\<forall>i. pipeline_inv B C D (dev_pipeline (mesh_devices m i))) \<and> (\<forall>f \<in># mesh_flight m. frame_ok f) \<and>
     (\<forall>(d, w) \<in># mesh_threads m. work_ok C D A w (mesh_devices m d))"

text \<open>The effect of a step of some call on device \<open>d\<close>; the calls in \<open>ths\<close> are the others.\<close>

lemma device_step_ok:
  assumes "work_step B C A L (w, mesh_devices m d) fs (w', dev)" "work_ok C D A w (mesh_devices m d)"
    and "mesh_ok B C D A (m\<lparr>mesh_threads := ths\<rparr>)"
  shows "mesh_ok B C D A (m\<lparr>mesh_devices := (mesh_devices m)(d := dev), mesh_flight := mesh_flight m + mset fs, mesh_threads := ths\<rparr>)"
    "work_ok C D A w' dev"
proof -
  have inv: "pipeline_inv B C D (dev_pipeline (mesh_devices m d))" using assms(3) by (simp add: mesh_ok_def)
  note s = work_step_ok [OF assms(1) inv assms(2)]
  show "work_ok C D A w' dev" by (rule s(2))
  let ?m = "m\<lparr>mesh_devices := (mesh_devices m)(d := dev), mesh_flight := mesh_flight m + mset fs, mesh_threads := ths\<rparr>"
  show "mesh_ok B C D A ?m"
    unfolding mesh_ok_def
  proof (intro conjI allI ballI)
    show "pipeline_inv B C D (dev_pipeline (mesh_devices ?m i))" for i using assms(3) s(1) by (simp add: mesh_ok_def)
    show "frame_ok f" if "f \<in># mesh_flight ?m" for f using assms(3) s(3) that by (auto simp: mesh_ok_def list_all_iff)
    fix x assume x: "x \<in># mesh_threads ?m"
    then have "work_ok C D A (snd x) (mesh_devices m (fst x))" using assms(3) by (auto simp: mesh_ok_def)
    then show "case x of (d, w) \<Rightarrow> work_ok C D A w (mesh_devices ?m d)" using s(5) by (cases x) auto
  qed
qed

lemma mesh_ok_add_thread:
  "mesh_ok B C D A (m\<lparr>mesh_threads := add_mset (d, w) ths\<rparr>) \<longleftrightarrow>
     work_ok C D A w (mesh_devices m d) \<and> mesh_ok B C D A (m\<lparr>mesh_threads := ths\<rparr>)"
  by (auto simp: mesh_ok_def)

lemma mesh_step_ok:
  assumes "mesh_step B C A L m m'" "mesh_ok B C D A m"
  shows "mesh_ok B C D A m'"
  using assms(1)
proof cases
  case (arrive d bs rest clk)
  with assms(2) start_work_ok show ?thesis by (auto simp: mesh_ok_def)
next
  case (lost f rest)
  with assms(2) show ?thesis by (auto simp: mesh_ok_def)
next
  case (thread d w rest fs w' dev)
  have "mesh_ok B C D A (m\<lparr>mesh_threads := add_mset (d, w) rest\<rparr>)" using assms(2) thread(2) by (simp add: mesh_ok_def)
  then have ok: "work_ok C D A w (mesh_devices m d)" "mesh_ok B C D A (m\<lparr>mesh_threads := rest\<rparr>)"
    by (simp_all add: mesh_ok_add_thread)
  from device_step_ok [OF thread(3) ok] thread(1) show ?thesis
    using mesh_ok_add_thread [of B C D A d w' rest "m\<lparr>mesh_devices := (mesh_devices m)(d := dev), mesh_flight := mesh_flight m + mset fs\<rparr>"]
    by simp
qed

section \<open>Relaying ends\<close>

text \<open>
  A measure of what can still happen: a frame counts for its hops, a call in the pipeline for the hops of its
  packet and the steps to come, a call in the loop for the hops of the packet it sends.
\<close>

definition rank_order :: "((nat \<times> nat) \<times> (nat \<times> nat)) set" where
  "rank_order = less_than <*lex*> less_than"

lemma wf_rank_order: "wf rank_order"
  by (simp add: rank_order_def wf_lex_prod)

fun pc_rank :: "step_pc \<Rightarrow> nat" where
  "pc_rank StStart = 7"
| "pc_rank (StDedup _) = 6"
| "pc_rank (StRate _) = 5"
| "pc_rank (StSignature _) = 4"
| "pc_rank (StAttest _) = 3"
| "pc_rank (StDeliver _) = 2"
| "pc_rank (StReturned _) = 1"

definition frame_rank :: "frame \<Rightarrow> nat \<times> nat" where
  "frame_rank f = (2 * hops_left f, 8)"

definition work_rank :: "work \<Rightarrow> (nat \<times> nat) multiset" where
  "work_rank w =
     (case w of
        Processing th \<Rightarrow> {#(2 * hops_left (0, pt_raw th), pc_rank (pt_pc th))#}
      | Relaying ps f \<Rightarrow> {#(2 * hops_left (0, f) + 1, length ps)#}
      | _ \<Rightarrow> {#})"

definition mesh_rank :: "'b mesh \<Rightarrow> (nat \<times> nat) multiset" where
  "mesh_rank m = image_mset frame_rank (mesh_flight m) + (\<Sum>x\<in>#mesh_threads m. work_rank (snd x))"

lemma pc_rank_after_check: "pc_rank pc < n \<Longrightarrow> 1 < n \<Longrightarrow> pc_rank (after_check r pc) < n"
  by (simp add: after_check_def split: sum.splits)

lemma process_advance_rank:
  assumes "process_advance B C th p = (th', p')" "\<forall>r. pt_pc th \<noteq> StReturned r"
  shows "pc_rank (pt_pc th') < pc_rank (pt_pc th)"
proof (cases "pt_pc th")
  case StStart
  have "pc_rank (first_steps now bs) < 7" for now bs by (simp add: first_steps_def split: sum.splits)
  with assms(1) StStart show ?thesis by (auto simp: process_advance_def)
qed (use assms in \<open>auto simp: process_advance_def pc_rank_after_check split: prod.splits option.splits\<close>)

lemma work_step_rank:
  assumes "work_step B C A L (w, dev) fs (w', dev')" "pipeline_inv B C D (dev_pipeline dev)" "work_ok C D A w dev"
  shows "work_rank w \<noteq> {#} \<and> (\<forall>k \<in># work_rank w' + image_mset frame_rank (mset fs). \<exists>j \<in># work_rank w. (k, j) \<in> rank_order)"
  using assms(1)
proof cases
  case (processes th th' p)
  have fine: "step_fine C D th (dev_pipeline dev)" "\<forall>r. pt_pc th \<noteq> StReturned r"
    using assms(3) processes(1) by (simp_all add: work_ok_def)
  note frame = process_advance_frame(2) [OF processes(5)]
  note less = process_advance_rank [OF processes(5) fine(2)]
  show ?thesis
  proof (cases "pt_pc th'")
    case (StReturned r)
    have "after_process dev r = Ended (Inr ()) \<or>
      (\<exists>f. after_process dev r = Relaying (dev_neighbors dev) f \<and> hops_left (0, f) < hops_left (0, pt_raw th))"
      by (rule after_process_cases [OF process_advance_fine [OF assms(2) fine(1) processes(5)] StReturned, of dev])
        (auto simp: frame)
    then show ?thesis using processes(1-3) StReturned
      by (auto simp: work_rank_def process_work_def rank_order_def)
  qed (use processes(1-3) less frame in \<open>auto simp: work_rank_def process_work_def rank_order_def\<close>)
qed (auto simp: work_rank_def rank_order_def frame_rank_def hops_left_def)

lemma mesh_step_decreases:
  assumes "mesh_step B C A L m m'" "mesh_ok B C D A m"
  shows "(mesh_rank m', mesh_rank m) \<in> mult rank_order"
  using assms(1)
proof cases
  case (arrive d bs rest clk)
  have "(mesh_rank (m\<lparr>mesh_flight := rest\<rparr>) + work_rank (start_work clk bs),
      mesh_rank (m\<lparr>mesh_flight := rest\<rparr>) + {#frame_rank (d, bs)#}) \<in> mult rank_order"
    by (rule one_step_implies_mult)
      (auto simp: work_rank_def start_work_def process_thread_of_def rank_order_def frame_rank_def hops_left_def)
  then show ?thesis using arrive by (simp add: mesh_rank_def ac_simps)
next
  case (lost f rest)
  then show ?thesis by (simp add: mesh_rank_def subset_implies_mult)
next
  case (thread d w rest fs w' dev)
  have "pipeline_inv B C D (dev_pipeline (mesh_devices m d))" "work_ok C D A w (mesh_devices m d)"
    using assms(2) thread(2) by (auto simp: mesh_ok_def)
  from work_step_rank [OF thread(3) this]
  have "(mesh_rank (m\<lparr>mesh_threads := rest\<rparr>) + (work_rank w' + image_mset frame_rank (mset fs)),
      mesh_rank (m\<lparr>mesh_threads := rest\<rparr>) + work_rank w) \<in> mult rank_order"
    by (intro one_step_implies_mult) auto
  then show ?thesis using thread by (simp add: mesh_rank_def ac_simps)
qed

section \<open>A call that is not interrupted\<close>

inductive work_run ::
    "'b bloom_ops \<Rightarrow> crypto \<Rightarrow> answers \<Rightarrow> nat set \<Rightarrow> work \<times> 'b device \<Rightarrow> frame list \<Rightarrow> work \<times> 'b device \<Rightarrow> bool" for B C A L where
  stays: "work_run B C A L c [] c"
| goes: "work_step B C A L c fs c' \<Longrightarrow> work_run B C A L c' gs c'' \<Longrightarrow> work_run B C A L c (fs @ gs) c''"

lemma work_run_trans:
  "work_run B C A L c fs c' \<Longrightarrow> work_run B C A L c' gs c'' \<Longrightarrow> work_run B C A L c (fs @ gs) c''"
  by (induction rule: work_run.induct) (auto intro: goes)

lemma process_run:
  assumes "run_alone (process_advance B C) n (th, dev_pipeline dev) = (th', p)" "pt_pc th' = StReturned r"
    and "\<forall>r. pt_pc th \<noteq> StReturned r"
  shows "work_run B C A L (Processing th, dev) [] (after_process dev r, dev\<lparr>dev_pipeline := p\<rparr>)"
  using assms
proof (induction n arbitrary: th dev)
  case (Suc n)
  obtain t q where t: "process_advance B C th (dev_pipeline dev) = (t, q)" by fastforce
  let ?dev = "dev\<lparr>dev_pipeline := q\<rparr>"
  have step: "work_step B C A L (Processing th, dev) [] (process_work dev t, ?dev)" by (rule processes [OF t])
  have rest: "run_alone (process_advance B C) n (t, dev_pipeline ?dev) = (th', p)" using Suc.prems(1) t by simp
  show ?case
  proof (cases "\<exists>x. pt_pc t = StReturned x")
    case True
    then obtain x where x: "pt_pc t = StReturned x" by blast
    then have "t = at_step (pt_clk t) (pt_raw t) (StReturned x)" by simp
    with rest steps_returned [of B C n "pt_clk t" "pt_raw t" x q] have "t = th'" "q = p" by auto
    with step x Suc.prems(2) goes [OF step stays] show ?thesis by (simp add: process_work_def)
  next
    case False
    then have "process_work dev t = Processing t" by (auto simp: process_work_def split: step_pc.splits)
    with Suc.IH [OF rest Suc.prems(2)] False step goes [OF step] show ?thesis
      by (auto simp: after_process_frame)
  qed
qed simp

lemma relay_run:
  "list_all (\<lambda>peer. A L peer (Inr ())) ps \<Longrightarrow>
    work_run B C A L (Relaying ps f, dev) (map (\<lambda>peer. (peer, f)) ps) (Ended (Inr ()), dev)"
proof (induction ps)
  case Nil
  show ?case using goes [OF relayed stays] by simp
next
  case (Cons peer ps)
  then have "A L peer (Inr ())" "list_all (\<lambda>peer. A L peer (Inr ())) ps" by simp_all
  with goes [OF sends Cons.IH] show ?case by simp
qed

text \<open>With sends that succeed, a call that is not interrupted is \<open>handle_local\<close>.\<close>

lemma thread_alone_handles:
  assumes "handle_local B C (clk, bs) dev = (Inr (logs, fs), dev')" "list_all (\<lambda>peer. A L peer (Inr ())) (dev_neighbors dev)"
  shows "work_run B C A L (start_work clk bs, dev) fs (Ended (Inr ()), dev')"
proof -
  obtain r p where rp: "process B C (clk, bs) (dev_pipeline dev) = (r, p)" by fastforce
  have run: "work_run B C A L (start_work clk bs, dev) [] (after_process dev r, dev\<lparr>dev_pipeline := p\<rparr>)"
    unfolding start_work_def
    by (rule process_run [of B C 6 "process_thread_of clk bs" dev "at_step clk bs (StReturned r)"])
      (simp_all add: process_in_steps rp del: run_alone.simps, simp add: process_thread_of_def)
  obtain x where x: "r = Inr x" using assms(1) rp by (cases r) (auto simp: handle_local_eq)
  obtain log1 plan where pl: "relay_plan dev x = (log1, plan)" by fastforce
  have dev': "dev' = dev\<lparr>dev_pipeline := p\<rparr>" using assms(1) rp x by (simp add: handle_local_eq)
  show ?thesis
  proof (cases plan)
    case (Inr q)
    show ?thesis
    proof (cases q)
      case None
      with assms(1) rp x pl Inr run dev' show ?thesis by (simp add: handle_local_eq after_process_def)
    next
      case (Some a)
      obtain line f where a: "a = (line, f)" by fastforce
      have fs: "fs = map (\<lambda>peer. (peer, f)) (dev_neighbors dev)" using assms(1) rp x pl Inr Some a by (simp add: handle_local_eq)
      have "after_process dev r = Relaying (dev_neighbors dev) f" using x pl Inr Some a by (simp add: after_process_def)
      with work_run_trans [OF run] relay_run [where A = A and L = L and B = B and C = C and f = f and dev = dev', OF assms(2)] dev' fs show ?thesis by fastforce
    qed
  qed (use assms(1) rp x pl in \<open>simp add: handle_local_eq\<close>)
qed

text \<open>So the mesh of whole calls is part of the mesh of threads.\<close>

lemma work_run_in_mesh:
  assumes "work_run B C A L (w, mesh_devices m d) fs (w', dev)" "mesh_threads m = add_mset (d, w) rest"
  shows "(mesh_step B C A L)\<^sup>*\<^sup>* m
    (m\<lparr>mesh_devices := (mesh_devices m)(d := dev), mesh_flight := mesh_flight m + mset fs, mesh_threads := add_mset (d, w') rest\<rparr>)"
  using assms
proof (induction "(w, mesh_devices m d)" fs "(w', dev)" arbitrary: w m rule: work_run.induct)
  case stays
  then have "m\<lparr>mesh_devices := (mesh_devices m)(d := dev), mesh_flight := mesh_flight m + mset [],
      mesh_threads := add_mset (d, w') rest\<rparr> = m" by (intro mesh.equality) auto
  then show ?case by simp
next
  case (goes fs c' gs)
  obtain w1 dev1 where c': "c' = (w1, dev1)" by fastforce
  let ?m = "m\<lparr>mesh_devices := (mesh_devices m)(d := dev1), mesh_flight := mesh_flight m + mset fs, mesh_threads := add_mset (d, w1) rest\<rparr>"
  have "mesh_step B C A L m ?m" using goes.prems goes.hyps(1) unfolding c' by (rule mesh_step.thread)
  moreover have "(mesh_step B C A L)\<^sup>*\<^sup>* ?m (?m\<lparr>mesh_devices := (mesh_devices ?m)(d := dev), mesh_flight := mesh_flight ?m + mset gs,
      mesh_threads := add_mset (d, w') rest\<rparr>)"
    by (rule goes.hyps(3)) (simp_all add: c')
  ultimately show ?case by (simp add: converse_rtranclp_into_rtranclp add.assoc)
qed

lemma arrive_in_mesh:
  assumes "handle_local B C (clk, bs) (mesh_devices m d) = (Inr (logs, fs), dev)" "mesh_flight m = add_mset (d, bs) rest"
    and "list_all (\<lambda>peer. A L peer (Inr ())) (dev_neighbors (mesh_devices m d))"
  shows "(mesh_step B C A L)\<^sup>*\<^sup>* m (m\<lparr>mesh_devices := (mesh_devices m)(d := dev), mesh_flight := rest + mset fs,
    mesh_threads := add_mset (d, Ended (Inr ())) (mesh_threads m)\<rparr>)"
proof -
  let ?m = "m\<lparr>mesh_flight := rest, mesh_threads := add_mset (d, start_work clk bs) (mesh_threads m)\<rparr>"
  have "mesh_step B C A L m ?m" by (rule mesh_step.arrive [OF assms(2)])
  moreover have "work_run B C A L (start_work clk bs, mesh_devices ?m d) fs (Ended (Inr ()), dev)"
    using thread_alone_handles [where A = A and L = L, OF assms(1,3)] by simp
  from work_run_in_mesh [OF this] have "(mesh_step B C A L)\<^sup>*\<^sup>* ?m (m\<lparr>mesh_devices := (mesh_devices m)(d := dev), mesh_flight := rest + mset fs,
    mesh_threads := add_mset (d, Ended (Inr ())) (mesh_threads m)\<rparr>)" by simp
  ultimately show ?thesis by (rule converse_rtranclp_into_rtranclp)
qed

end
