(* ===== verification/Harness_Main.thy ===== *)
theory Harness_Main
  imports Command_Line Mesh_Threads
begin

text \<open>
  \<^emph>\<open>main\<close> of \<^emph>\<open>sim/harness.py\<close>: from the command line to the devices, the injection loop, the settle
  time and the end, where the devices are stopped one after the other. The main thread is a state machine over
  the mesh of \<open>Mesh_Threads\<close>: it handles the packets it injects itself, step by step like every other
  thread, and between any two of its steps the threads of the devices go on. \<open>S\<close> is \<^emph>\<open>time.sleep\<close>, which
  raises on a bad delay; \<open>A\<close> answers the sends; \<open>bind\<close> are the ports the system
  gives out, \<open>ids\<close> the identities the devices generate. The stop of one device is one step here; its accesses
  are in \<open>Stop_Threads\<close>.
\<close>

section \<open>Start-up\<close>

definition main_start ::
    "unicode \<Rightarrow> (pystr \<Rightarrow> 'f res) \<Rightarrow> 'f \<Rightarrow> 'f \<Rightarrow> (nat \<Rightarrow> pystr \<Rightarrow> int \<Rightarrow> int res) \<Rightarrow> pystr list
     \<Rightarrow> ('f harness_args \<times> sim_device list) res" where
  "main_start U to_float zero two bind argv =
     res_bind (parse_args U to_float zero two argv) (\<lambda>args.
     res_bind (build_devices bind (arg_devices args) (arg_topology args)) (\<lambda>ds. Inr (args, ds)))"

text \<open>
  The mesh of the devices as they are built: new pipelines, and the address of a neighbour leads to the
  device that listens on it.
\<close>

definition address_index :: "sim_device list \<Rightarrow> pystr \<Rightarrow> nat" where
  "address_index ds a = length (takeWhile (\<lambda>d. sd_address d \<noteq> a) ds)"

definition start_device :: "'b bloom_ops \<Rightarrow> device_identity \<Rightarrow> sim_device list \<Rightarrow> sim_device \<Rightarrow> 'b device" where
  "start_device B ident ds d =
     \<lparr> dev_zone = sd_zone d, dev_identity = ident, dev_pipeline = new_pipeline B None,
       dev_neighbors = map (address_index ds) (sd_neighbors d) \<rparr>"

text \<open>Numbers beyond the list stand for no device; nothing is ever sent to them.\<close>

definition start_net :: "'b bloom_ops \<Rightarrow> (nat \<Rightarrow> device_identity) \<Rightarrow> sim_device list \<Rightarrow> 'b net" where
  "start_net B ids ds =
     \<lparr> devices = (\<lambda>i. start_device B (ids i) ds (if i < length ds then ds ! i else new_sim_device i)), in_flight = {#} \<rparr>"

text \<open>The same mesh with its threads, of which none is under way.\<close>

definition start_mesh :: "'b bloom_ops \<Rightarrow> (nat \<Rightarrow> device_identity) \<Rightarrow> sim_device list \<Rightarrow> 'b mesh" where
  "start_mesh B ids ds =
     \<lparr> mesh_devices = devices (start_net B ids ds), mesh_flight = {#}, mesh_threads = {#} \<rparr>"

section \<open>The main thread\<close>

definition stop_device :: "sim_device \<Rightarrow> sim_device" where
  "stop_device d = d\<lparr>sd_transport := transport_stop (sd_transport d)\<rparr>"

definition stop_all :: "sim_device list \<Rightarrow> sim_device list" where
  "stop_all ds = map stop_device ds"

lemma stop_all_stopped: "list_all (\<lambda>d. \<not> running (sd_transport d) \<and> \<not> server (sd_transport d)) (stop_all ds)"
  by (simp add: stop_all_def stop_device_def list_all_iff transport_stop_def Let_def)

text \<open>The devices whose sockets listen.\<close>

definition listeners :: "sim_device list \<Rightarrow> nat set" where
  "listeners ds = {k. k < length ds \<and> server (sd_transport (ds ! k))}"

datatype 'f phase =
    Sleeping "'f injection list"            \<comment> \<open>before the first of these rounds, or in the settle time\<close>
  | Working nat work "'f injection list"    \<comment> \<open>in the injection at a device\<close>
  | Stopping nat                            \<comment> \<open>before the stop of this device\<close>
  | Finished
  | Crashed exn

type_synonym ('f, 'b) main_state = "'f phase \<times> 'b mesh \<times> sim_device list"

inductive main_step ::
    "'b bloom_ops \<Rightarrow> crypto \<Rightarrow> ('f \<Rightarrow> unit res) \<Rightarrow> answers \<Rightarrow> 'f \<Rightarrow> ('f, 'b) main_state \<Rightarrow> ('f, 'b) main_state \<Rightarrow> bool"
  for B C S A wait where
  meanwhile: "mesh_step B C A (listeners ds) m m' \<Longrightarrow> ph \<noteq> Finished \<Longrightarrow> (\<And>e. ph \<noteq> Crashed e) \<Longrightarrow>
    main_step B C S A wait (ph, m, ds) (ph, m', ds)"
| bad_delay: "S (spec_delay (inj_spec r)) = Inl e \<Longrightarrow>
    main_step B C S A wait (Sleeping (r # rs), m, ds) (Crashed e, m, ds)"
| bad_device: "S (spec_delay (inj_spec r)) = Inr () \<Longrightarrow> py_index (spec_device (inj_spec r)) (length ds) = Inl e \<Longrightarrow>
    main_step B C S A wait (Sleeping (r # rs), m, ds) (Crashed e, m, ds)"
| bad_packet: "S (spec_delay (inj_spec r)) = Inr () \<Longrightarrow> py_index (spec_device (inj_spec r)) (length ds) = Inr i \<Longrightarrow>
    inject_packet C (inj_now r) (spec_payload (inj_spec r)) (spec_ttl (inj_spec r)) (spec_spray_l (inj_spec r))
      (spec_zone_id (inj_spec r)) (inj_msg_id r) (mesh_devices m i) = Inl e \<Longrightarrow>
    main_step B C S A wait (Sleeping (r # rs), m, ds) (Crashed e, m, ds)"
| injects: "S (spec_delay (inj_spec r)) = Inr () \<Longrightarrow> py_index (spec_device (inj_spec r)) (length ds) = Inr i \<Longrightarrow>
    inject_packet C (inj_now r) (spec_payload (inj_spec r)) (spec_ttl (inj_spec r)) (spec_spray_l (inj_spec r))
      (spec_zone_id (inj_spec r)) (inj_msg_id r) (mesh_devices m i) = Inr bs \<Longrightarrow>
    main_step B C S A wait (Sleeping (r # rs), m, ds) (Working i (start_work (inj_clk r) bs) rs, m, ds)"
| works: "work_step B C A (listeners ds) (w, mesh_devices m i) fs (w', dev) \<Longrightarrow>
    main_step B C S A wait (Working i w rs, m, ds)
      (Working i w' rs, m\<lparr>mesh_devices := (mesh_devices m)(i := dev), mesh_flight := mesh_flight m + mset fs\<rparr>, ds)"
| injected: "main_step B C S A wait (Working i (Ended (Inr ())) rs, m, ds) (Sleeping rs, m, ds)"
| raises: "main_step B C S A wait (Working i (Ended (Inl e)) rs, m, ds) (Crashed e, m, ds)"
| send_raises: "main_step B C S A wait (Working i (SendFailed peer e) rs, m, ds) (Crashed e, m, ds)"
| bad_wait: "S wait = Inl e \<Longrightarrow> main_step B C S A wait (Sleeping [], m, ds) (Crashed e, m, ds)"
| settled: "S wait = Inr () \<Longrightarrow> main_step B C S A wait (Sleeping [], m, ds) (Stopping 0, m, ds)"
| stops: "k < length ds \<Longrightarrow>
    main_step B C S A wait (Stopping k, m, ds) (Stopping (Suc k), m, ds[k := stop_device (ds ! k)])"
| finishes: "length ds \<le> k \<Longrightarrow> main_step B C S A wait (Stopping k, m, ds) (Finished, m, ds)"

text \<open>A run of the program: the draws and readings of its injections, and where it stands.\<close>

definition harness_run ::
    "'b bloom_ops \<Rightarrow> crypto \<Rightarrow> ('f \<Rightarrow> unit res) \<Rightarrow> answers \<Rightarrow> (nat \<Rightarrow> device_identity) \<Rightarrow> 'f harness_args \<Rightarrow> sim_device list \<Rightarrow>
     'f injection list \<Rightarrow> ('f, 'b) main_state \<Rightarrow> bool" where
  "harness_run B C S A ids args ds rs c \<longleftrightarrow>
     map inj_spec rs = arg_injections args \<and>
     (main_step B C S A (arg_wait args))\<^sup>*\<^sup>* (Sleeping rs, start_mesh B ids ds, ds) c"


section \<open>Every moment is well typed\<close>


text \<open>The main thread as one more thread of the mesh.\<close>

fun with_main :: "'f phase \<Rightarrow> 'b mesh \<Rightarrow> 'b mesh" where
  "with_main (Working i w rs) m = m\<lparr>mesh_threads := add_mset (i, w) (mesh_threads m)\<rparr>"
| "with_main _ m = m"

lemma mesh_step_add:
  assumes "mesh_step B C A L m m'"
  shows "mesh_step B C A L (m\<lparr>mesh_threads := add_mset x (mesh_threads m)\<rparr>) (m'\<lparr>mesh_threads := add_mset x (mesh_threads m')\<rparr>)"
  using assms
proof cases
  case (arrive d bs rest clk)
  then show ?thesis
    using mesh_step.arrive [of "m\<lparr>mesh_threads := add_mset x (mesh_threads m)\<rparr>" d bs rest B C A L clk]
    by (simp add: add_mset_commute)
next
  case (lost f rest)
  have "m'\<lparr>mesh_threads := add_mset x (mesh_threads m')\<rparr> =
      (m\<lparr>mesh_threads := add_mset x (mesh_threads m)\<rparr>)\<lparr>mesh_flight := rest\<rparr>"
    using lost(1) by (intro mesh.equality) simp_all
  then show ?thesis
    using mesh_step.lost [of "m\<lparr>mesh_threads := add_mset x (mesh_threads m)\<rparr>" f rest B C A L] lost(2) by simp
next
  case (thread d w rest fs w' dev)
  then show ?thesis
    using mesh_step.thread [of "m\<lparr>mesh_threads := add_mset x (mesh_threads m)\<rparr>" d w "add_mset x rest" B C A L fs w' dev]
    by (simp add: add_mset_commute)
qed

lemma with_main_meanwhile:
  assumes "mesh_step B C A L m m'"
  shows "mesh_step B C A L (with_main ph m) (with_main ph m')"
  using assms mesh_step_add [OF assms] by (cases ph) simp_all

lemma with_main_works:
  assumes "work_step B C A L (w, mesh_devices m i) fs (w', dev)"
  shows "mesh_step B C A L (with_main (Working i w rs) m)
    (with_main (Working i w' rs) (m\<lparr>mesh_devices := (mesh_devices m)(i := dev), mesh_flight := mesh_flight m + mset fs\<rparr>))"
  using mesh_step.thread [of "with_main (Working i w rs) m" i w "mesh_threads m" B C A L fs w' dev] assms by simp


lemma mesh_ok_start_work:
  "mesh_ok B C D A m \<Longrightarrow> mesh_ok B C D A (m\<lparr>mesh_threads := add_mset (d, start_work clk bs) (mesh_threads m)\<rparr>)"
  by (auto simp: mesh_ok_def start_work_ok)

lemma mesh_ok_thread:
  "mesh_ok B C D A (m\<lparr>mesh_threads := add_mset (i, w) (mesh_threads m)\<rparr>) \<longleftrightarrow> work_ok C D A w (mesh_devices m i) \<and> mesh_ok B C D A m"
  using mesh_ok_add_thread [of B C D A i w "mesh_threads m" m] by simp








section \<open>Every run ends\<close>

fun phase_size :: "nat \<Rightarrow> 'f phase \<Rightarrow> nat" where
  "phase_size k (Sleeping rs) = 2 * length rs + k + 2"
| "phase_size k (Working i w rs) = 2 * length rs + k + 3"
| "phase_size k (Stopping j) = Suc (k - j)"
| "phase_size k _ = 0"

definition main_rank :: "('f, 'b) main_state \<Rightarrow> nat \<times> (nat \<times> nat) multiset" where
  "main_rank c = (case c of (ph, m, ds) \<Rightarrow> (phase_size (length ds) ph, mesh_rank (with_main ph m)))"

definition main_order :: "((nat \<times> (nat \<times> nat) multiset) \<times> nat \<times> (nat \<times> nat) multiset) set" where
  "main_order = less_than <*lex*> mult rank_order"

lemma wf_main_order: "wf main_order"
  by (simp add: main_order_def wf_lex_prod wf_mult wf_rank_order)

lemma main_step_decreases:
  assumes "main_step B C S A wait (ph, m, ds) c'" "mesh_ok B C D A (with_main ph m)"
  shows "(main_rank c', main_rank (ph, m, ds)) \<in> main_order"
  using assms(1)
proof cases
  case (meanwhile m')
  from mesh_step_decreases [OF with_main_meanwhile [OF meanwhile(2)] assms(2)] meanwhile(1) show ?thesis
    by (simp add: main_rank_def main_order_def)
next
  case (works w i fs w' dev rs)
  from mesh_step_decreases [OF with_main_works [OF works(3)]] assms(2) works(1,2) show ?thesis
    by (simp add: main_rank_def main_order_def)
next
  case (stops k)
  then have "length ds - Suc k < length ds - k" by simp
  with stops show ?thesis by (simp add: main_rank_def main_order_def)
qed (simp_all add: main_rank_def main_order_def)

section \<open>Good injections\<close>

text \<open>A spec that names a device and whose fields fit the header, with the identifier and time drawn for it.\<close>

definition injection_ok :: "nat \<Rightarrow> 'f injection \<Rightarrow> bool" where
  "injection_ok n_devices r \<longleftrightarrow>
     returns (py_index (spec_device (inj_spec r)) n_devices) \<and>
     packet_args_ok (inj_msg_id r) (replicate 16 2) (py_int (inj_now r)) (spec_ttl (inj_spec r))
       (spec_spray_l (inj_spec r)) (spec_zone_id (inj_spec r)) 1 (spec_payload (inj_spec r))"

lemma injection_ok_packet:
  assumes "ed25519_ok C" "injection_ok k r"
  shows "\<exists>bs. inject_packet C (inj_now r) (spec_payload (inj_spec r)) (spec_ttl (inj_spec r)) (spec_spray_l (inj_spec r))
    (spec_zone_id (inj_spec r)) (inj_msg_id r) dev = Inr bs"
  using build_packet_parse [OF assms(1)] assms(2) unfolding injection_ok_def inject_packet_def by blast

definition good_rounds :: "('f \<Rightarrow> unit res) \<Rightarrow> nat \<Rightarrow> 'f injection list \<Rightarrow> bool" where
  "good_rounds S k rs \<longleftrightarrow> list_all (\<lambda>r. injection_ok k r \<and> S (spec_delay (inj_spec r)) = Inr ()) rs"

lemma work_step_links: "work_step B C A L (w, dev) fs (w', dev') \<Longrightarrow> dev_neighbors dev' = dev_neighbors dev"
  by (auto elim: work_stepE)

lemma mesh_step_links:
  assumes "mesh_step B C A L m m'"
  shows "dev_neighbors (mesh_devices m' i) = dev_neighbors (mesh_devices m i)"
  using assms by cases (auto dest: work_step_links)

text \<open>What every moment of a run with good injections looks like.\<close>

definition harness_inv ::
    "'b bloom_ops \<Rightarrow> crypto \<Rightarrow> decoders \<Rightarrow> ('f \<Rightarrow> unit res) \<Rightarrow> answers \<Rightarrow> sim_device list \<Rightarrow> ('f, 'b) main_state \<Rightarrow> bool" where
  "harness_inv B C D S A ds0 c \<longleftrightarrow>
     (case c of (ph, m, ds) \<Rightarrow> mesh_ok B C D A (with_main ph m) \<and> length ds = length ds0 \<and>
        (\<forall>i. set (dev_neighbors (mesh_devices m i)) \<subseteq> listeners ds0) \<and>
        (case ph of
           Sleeping rs \<Rightarrow> ds = ds0 \<and> good_rounds S (length ds0) rs
         | Working i w rs \<Rightarrow> ds = ds0 \<and> good_rounds S (length ds0) rs \<and> (\<forall>peer e. w \<noteq> SendFailed peer e)
         | Stopping j \<Rightarrow> j \<le> length ds0 \<and> ds = map stop_device (take j ds0) @ drop j ds0
         | Finished \<Rightarrow> ds = stop_all ds0
         | Crashed e \<Rightarrow> False))"

lemma stop_next:
  assumes "j < length ds0"
  shows "(map stop_device (take j ds0) @ drop j ds0)[j := stop_device ((map stop_device (take j ds0) @ drop j ds0) ! j)] =
    map stop_device (take (Suc j) ds0) @ drop (Suc j) ds0"
proof -
  have d: "drop j ds0 = ds0 ! j # drop (Suc j) ds0" using assms by (simp add: Cons_nth_drop_Suc)
  have t: "take (Suc j) ds0 = take j ds0 @ [ds0 ! j]" using assms by (simp add: take_Suc_conv_app_nth)
  show ?thesis unfolding d t using assms by (simp add: list_update_append nth_append)
qed

text \<open>On the loopback interface a send to a socket that listens succeeds.\<close>

definition listeners_accept :: "answers \<Rightarrow> bool" where
  "listeners_accept A \<longleftrightarrow> (\<forall>L. \<forall>peer \<in> L. \<forall>r. A L peer r \<longleftrightarrow> r = Inr ())"

text \<open>The main thread's own sends go to devices that listen.\<close>

lemma main_sends_accepted:
  assumes "listeners_accept A"
    and "work_step B C A L (w, dev) fs (w', dev')" "work_ok C D A w dev" "set (dev_neighbors dev) \<subseteq> L"
    and "\<And>peer e. w \<noteq> SendFailed peer e"
  shows "w' \<noteq> SendFailed peer e"
  using assms(2)
proof cases
  case (processes th th' p)
  then show ?thesis
    by (auto simp: process_work_def after_process_def split: step_pc.splits sum.splits option.splits)
next
  case (refused p x ps f)
  then have "p \<in> L" using assms(3,4) by (auto simp: work_ok_def)
  with assms(1) refused(5) show ?thesis by (auto simp: listeners_accept_def)
qed auto

lemma main_step_inv:
  assumes "listeners_accept A" "ed25519_ok C" "S wait = Inr ()"
    and "main_step B C S A wait c c'" "harness_inv B C D S A ds0 c"
  shows "harness_inv B C D S A ds0 c'"
  using assms(4)
proof cases
  case (meanwhile ds m m' ph)
  have "mesh_ok B C D A (with_main ph m')"
    using assms(5) meanwhile(1) by (intro mesh_step_ok [OF with_main_meanwhile [OF meanwhile(3)]]) (simp add: harness_inv_def)
  with assms(5) meanwhile(1,2) mesh_step_links [OF meanwhile(3)] show ?thesis by (simp add: harness_inv_def)
next
  case (bad_packet r ds i m e rs)
  with assms(5) injection_ok_packet [OF assms(2), of "length ds0" r "mesh_devices m i"] show ?thesis
    by (auto simp: harness_inv_def good_rounds_def)
next
  case (injects r ds i m bs rs)
  then show ?thesis using assms(5)
    by (auto simp: harness_inv_def good_rounds_def start_work_def [symmetric] intro: mesh_ok_start_work)
      (simp add: start_work_def)
next
  case (works ds w m i fs w' dev rs)
  let ?m = "m\<lparr>mesh_devices := (mesh_devices m)(i := dev), mesh_flight := mesh_flight m + mset fs\<rparr>"
  have inv: "mesh_ok B C D A (with_main (Working i w rs) m)" "set (dev_neighbors (mesh_devices m j)) \<subseteq> listeners ds"
    "w \<noteq> SendFailed peer e" for j peer e
    using assms(5) works(1) by (simp_all add: harness_inv_def)
  have ok: "mesh_ok B C D A (with_main (Working i w' rs) ?m)" by (rule mesh_step_ok [OF with_main_works [OF works(3)] inv(1)])
  have "work_ok C D A w (mesh_devices m i)" using inv(1) by (simp add: mesh_ok_thread)
  note sent = main_sends_accepted [OF assms(1) works(3) this inv(2,3)]
  from assms(5) works(1,2) ok sent work_step_links [OF works(3)] show ?thesis by (simp add: harness_inv_def)
next
  case (injected i rs m ds)
  with assms(5) show ?thesis by (simp add: harness_inv_def mesh_ok_thread)
next
  case (raises i e rs m ds)
  with assms(5) show ?thesis by (simp add: harness_inv_def mesh_ok_thread work_ok_def)
next
  case (stops k ds m)
  with assms(5) stop_next [of k ds0] show ?thesis by (auto simp: harness_inv_def)
next
  case (finishes ds k m)
  with assms(5) show ?thesis by (auto simp: harness_inv_def stop_all_def)
qed (use assms(3,5) in \<open>auto simp: harness_inv_def good_rounds_def injection_ok_def\<close>)

lemma main_run_inv:
  assumes "listeners_accept A" "ed25519_ok C" "S wait = Inr ()"
    and "(main_step B C S A wait)\<^sup>*\<^sup>* c c'" "harness_inv B C D S A ds0 c"
  shows "harness_inv B C D S A ds0 c'"
  using assms(4,5)
proof (induction rule: rtranclp_induct)
  case (step y z)
  show ?case by (rule main_step_inv [OF assms(1,2,3) step(2)]) (use step in simp_all)
qed

text \<open>The main thread is never stuck.\<close>

lemma main_progress:
  assumes "listeners_accept A" "ed25519_ok C" "S wait = Inr ()"
    and "harness_inv B C D S A ds0 (ph, m, ds)" "ph \<noteq> Finished"
  shows "\<exists>c'. main_step B C S A wait (ph, m, ds) c'"
proof (cases ph)
  case (Sleeping rs)
  show ?thesis
  proof (cases rs)
    case Nil
    with Sleeping main_step.settled [where S = S and wait = wait, OF assms(3)] show ?thesis by blast
  next
    case (Cons r rs')
    with assms(4) Sleeping have r: "S (spec_delay (inj_spec r)) = Inr ()" "injection_ok (length ds) r"
      by (simp_all add: harness_inv_def good_rounds_def)
    then obtain i where i: "py_index (spec_device (inj_spec r)) (length ds) = Inr i" by (auto simp: injection_ok_def returns_iff)
    from injection_ok_packet [OF assms(2) r(2)] main_step.injects [where S = S, OF r(1) i] show ?thesis
      unfolding Sleeping Cons by blast
  qed
next
  case (Working i w rs)
  have inv: "work_ok C D A w (mesh_devices m i)" "set (dev_neighbors (mesh_devices m i)) \<subseteq> listeners ds"
    "w \<noteq> SendFailed peer e" for peer e
    using assms(4) Working by (simp_all add: harness_inv_def mesh_ok_thread)
  show ?thesis
  proof (cases w)
    case (Processing th)
    obtain th' p where "process_advance B C th (dev_pipeline (mesh_devices m i)) = (th', p)" by fastforce
    from main_step.works [where S = S and A = A, OF work_step.processes [OF this]] show ?thesis unfolding Working Processing by blast
  next
    case (Relaying ps f)
    show ?thesis
    proof (cases ps)
      case Nil
      from main_step.works [where S = S and A = A, OF work_step.relayed] show ?thesis unfolding Working Relaying Nil by blast
    next
      case (Cons peer ps')
      with inv(1,2) Relaying have "peer \<in> listeners ds" by (auto simp: work_ok_def)
      then have "A (listeners ds) peer (Inr ())" using assms(1) by (simp add: listeners_accept_def)
      from main_step.works [where S = S and A = A, OF work_step.sends [of A, OF this]] show ?thesis unfolding Working Relaying Cons by blast
    qed
  next
    case (Ended r)
    with inv(1) have "w = Ended (Inr ())" by (simp add: work_ok_def)
    then have "main_step B C S A wait (ph, m, ds) (Sleeping rs, m, ds)" unfolding Working by (simp only: main_step.injected)
    then show ?thesis by blast
  qed (use inv(3) in blast)
next
  case (Stopping k)
  show ?thesis
  proof (cases "k < length ds")
    case True
    from main_step.stops [where S = S, OF this] show ?thesis unfolding Stopping by blast
  next
    case False
    then have "length ds \<le> k" by simp
    from main_step.finishes [where S = S, OF this] show ?thesis unfolding Stopping by blast
  qed
qed (use assms(4,5) in \<open>simp_all add: harness_inv_def\<close>)

lemma main_can_finish:
  assumes "listeners_accept A" "ed25519_ok C" "S wait = Inr ()"
    and "harness_inv B C D S A ds0 c"
  shows "\<exists>m'. (main_step B C S A wait)\<^sup>*\<^sup>* c (Finished, m', stop_all ds0)"
  using wf_main_order assms(4)
proof (induction "main_rank c" arbitrary: c rule: wf_induct_rule)
  case less
  obtain ph m ds where c: "c = (ph, m, ds)" by (cases c)
  show ?case
  proof (cases "ph = Finished")
    case True
    with less.prems c show ?thesis by (auto simp: harness_inv_def)
  next
    case False
    obtain c' where step: "main_step B C S A wait c c'"
      using main_progress [where S = S and wait = wait, OF assms(1-3)] less.prems False unfolding c by blast
    have "(main_rank c', main_rank c) \<in> main_order"
      unfolding c by (rule main_step_decreases [OF step [unfolded c], of D]) (use less.prems c in \<open>simp add: harness_inv_def\<close>)
    from less.hyps [OF this main_step_inv [where S = S and wait = wait, OF assms(1-3) step less.prems]] step show ?thesis
      by (meson converse_rtranclp_into_rtranclp)
  qed
qed

lemma main_terminates:
  assumes "listeners_accept A" "ed25519_ok C" "S wait = Inr ()"
    and "harness_inv B C D S A ds0 (run 0)"
  shows "\<not> (\<forall>i. main_step B C S A wait (run i) (run (Suc i)))"
proof
  assume run: "\<forall>i. main_step B C S A wait (run i) (run (Suc i))"
  have inv: "harness_inv B C D S A ds0 (run i)" for i
    by (induction i) (use assms(4) main_step_inv [where S = S and wait = wait, OF assms(1-3)] run in blast)+
  have "(main_rank (run (Suc i)), main_rank (run i)) \<in> main_order" for i
  proof -
    obtain ph m ds where c: "run i = (ph, m, ds)" by (cases "run i")
    have "main_step B C S A wait (ph, m, ds) (run (Suc i))" using run c by metis
    from main_step_decreases [OF this, of D] inv [of i] c show ?thesis by (simp add: harness_inv_def)
  qed
  then have "\<exists>f. \<forall>i. (f (Suc i), f i) \<in> main_order" by (intro exI [of _ "\<lambda>i. main_rank (run i)"]) blast
  then show False using wf_main_order unfolding wf_iff_no_infinite_down_chain by blast
qed

section \<open>The mesh that was asked for\<close>

lemma new_sim_device_neighbors [simp]: "sd_neighbors (new_sim_device i) = []"
  by (simp add: new_sim_device_def)

lemma address_index_wired:
  assumes "sound_topology k adj" "inj_on ports {..<k}" "\<And>i. i < k \<Longrightarrow> \<bar>ports i\<bar> < 65536" "j < k"
  shows "address_index (wired ports adj k) (sd_address (wired ports adj k ! j)) = j"
proof -
  let ?ds = "wired ports adj k"
  have "sd_address (?ds ! i) \<noteq> sd_address (?ds ! j)" if "i < j" for i
  proof
    assume "sd_address (?ds ! i) = sd_address (?ds ! j)"
    then have "text_of_int (ports i) = text_of_int (ports j)" using that assms(4) by (simp add: wired_simps(2) [OF assms(1)])
    then have "ports i = ports j" using that assms(3,4) by (intro text_of_int_inj) simp_all
    with assms(2,4) that show False by (auto simp: inj_on_def)
  qed
  then have "takeWhile (\<lambda>d. sd_address d \<noteq> sd_address (?ds ! j)) ?ds = take j ?ds"
    by (intro takeWhile_eq_take_P_nth) simp_all
  then show ?thesis using assms(4) wired_simps(1) [OF assms(1,4)] by (simp add: address_index_def)
qed

lemma start_net_link:
  assumes "sound_topology k adj" "inj_on ports {..<k}" "\<And>i. i < k \<Longrightarrow> \<bar>ports i\<bar> < 65536"
  shows "link (start_net B ids (wired ports adj k)) = linked adj"
proof (intro ext)
  fix i j
  let ?ds = "wired ports adj k"
  have len: "length ?ds = k" by (simp add: wired_def)
  show "link (start_net B ids ?ds) i j = linked adj i j"
  proof (cases "i < k")
    case True
    obtain xs where xs: "adj i = Some xs" "set xs \<subseteq> {..<k}" using sound_row [OF assms(1) True] by blast
    have "map (address_index ?ds) (sd_neighbors (?ds ! i)) = xs"
      using xs address_index_wired [OF assms] by (auto simp: wired_simps(3) [OF assms(1) True] intro!: map_idI)
    then show ?thesis using True len xs(1) by (simp add: link_def start_net_def start_device_def linked_def)
  next
    case False
    then have "adj i = None" using assms(1) by (auto simp: sound_topology_def dom_def)
    with False len show ?thesis by (simp add: link_def start_net_def start_device_def linked_def)
  qed
qed

text \<open>The ports the system gives the devices: one of its own for each.\<close>

definition ports_ok :: "(nat \<Rightarrow> pystr \<Rightarrow> int \<Rightarrow> int res) \<Rightarrow> (nat \<Rightarrow> int) \<Rightarrow> nat \<Rightarrow> bool" where
  "ports_ok bind ports k \<longleftrightarrow>
     list_all (\<lambda>i. bind i (str ''127.0.0.1'') 0 = Inr (ports i) \<and> \<bar>ports i\<bar> < 65536) [0..<k] \<and> inj_on ports {..<k}"

lemma main_start_built:
  assumes "main_start U to_float zero two bind argv = Inr (args, ds)" "ports_ok bind ports (nat (arg_devices args))"
    and "float_errors to_float"
  shows "\<exists>build adj. TOPOLOGIES (arg_topology args) = Some build \<and> build (arg_devices args) = Inr adj \<and>
    ds = wired ports adj (nat (arg_devices args)) \<and> sound_topology (nat (arg_devices args)) adj"
proof -
  have a: "parse_args U to_float zero two argv = Inr args" "build_devices bind (arg_devices args) (arg_topology args) = Inr ds"
    using assms(1) by (auto simp: main_start_def)
  have "arg_topology args \<in> set topology_choices"
    using a(1) consume_topology by (fastforce simp: parse_args_def split: option.splits if_splits)
  then have "arg_topology args = str ''line'' \<or> arg_topology args = str ''star'' \<or> arg_topology args = str ''mesh''"
    by (auto simp: topology_choices_def)
  from topologies_known [OF this] obtain build adj where t: "TOPOLOGIES (arg_topology args) = Some build"
    "build (arg_devices args) = Inr adj" "sound_topology (nat (arg_devices args)) adj" by blast
  have "bind i (str ''127.0.0.1'') 0 = Inr (ports i)" if "i < nat (arg_devices args)" for i
    using assms(2) that by (simp add: ports_ok_def list_all_iff)
  from build_devices_wired [where bind = bind and ports = ports, OF t this] a(2) t show ?thesis by auto
qed

text \<open>
  C38: From the command line to the last device: in the mesh the harness starts, a good packet with its
  defaults, five hops and eight copies, handed to a device can reach exactly the devices at most three links
  away in the topology that was asked for.
\<close>

theorem harness_reach:
  assumes "bloom_ok B" "ed25519_errors C" "float_errors to_float"
    and "main_start U to_float zero two bind argv = Inr (args, ds)" "ports_ok bind ports (nat (arg_devices args))"
    and "parse_packet bs = Inr m" "sig_valid C m" "length bs \<le> 460" "ttl m = 5" "spray_l m = 8"
  shows "\<exists>build adj. TOPOLOGIES (arg_topology args) = Some build \<and> build (arg_devices args) = Inr adj \<and>
    ((\<exists>n' cs. (net_step B C)\<^sup>*\<^sup>* (sent_at src bs (start_net B ids ds)) n' \<and> (d, cs) \<in># in_flight n') \<longleftrightarrow>
     (\<exists>h \<le> 3. (linked adj ^^ h) src d))"
proof -
  from main_start_built [OF assms(4,5,3)] obtain build adj where t: "TOPOLOGIES (arg_topology args) = Some build"
    "build (arg_devices args) = Inr adj" and ds: "ds = wired ports adj (nat (arg_devices args))"
    and sound: "sound_topology (nat (arg_devices args)) adj" by blast
  have "inj_on ports {..<nat (arg_devices args)}" "\<And>i. i < nat (arg_devices args) \<Longrightarrow> \<bar>ports i\<bar> < 65536"
    using assms(5) by (simp_all add: ports_ok_def list_all_iff)
  from start_net_link [OF sound this] have l: "link (start_net B ids ds) = linked adj" by (simp add: ds)
  have "dev_pipeline (devices (start_net B ids ds) i) = new_pipeline B None" "in_flight (start_net B ids ds) = {#}" for i
    by (simp_all add: start_net_def start_device_def)
  note heard = heard_near [OF assms(1,2,6-8) this, of src d, unfolded l assms(9,10)]
  have "h = 0 \<or> int h < 5 \<and> (2 :: int) ^ h \<le> 8 \<longleftrightarrow> h \<le> 3" for h
  proof
    assume "h \<le> 3"
    then have "(2 :: int) ^ h \<le> 2 ^ 3" by (intro power_increasing) simp_all
    with \<open>h \<le> 3\<close> show "h = 0 \<or> int h < 5 \<and> (2 :: int) ^ h \<le> 8" by simp
  qed (use halvings_of_eight in auto)
  with heard t show ?thesis by (intro exI [of _ build] exI [of _ adj]) auto
qed

section \<open>The program as its user sees it\<close>

lemma wired_listen: "listeners (wired ports adj k) = {..<k}"
  by (auto simp: listeners_def wired_def started_def)

lemma start_mesh_inv:
  assumes "bloom_ok B" "ed25519_errors C" "sound_topology k adj" "inj_on ports {..<k}" "\<And>i. i < k \<Longrightarrow> \<bar>ports i\<bar> < 65536"
    and "good_rounds S k rs"
  shows "harness_inv B C D S A (wired ports adj k) (Sleeping rs, start_mesh B ids (wired ports adj k), wired ports adj k)"
proof -
  let ?ds = "wired ports adj k"
  have len: "length ?ds = k" by (simp add: wired_def)
  have "pipeline_inv B C D (new_pipeline B None)"
    by (intro new_pipeline_inv assms) (simp add: attested_inv_def)
  then have ok: "mesh_ok B C D A (start_mesh B ids ?ds)"
    by (simp add: mesh_ok_def start_mesh_def start_net_def start_device_def)
  have "j < k" if "linked adj i j" for i j
  proof -
    have "i < k" using that assms(3) by (auto simp: linked_def sound_topology_def dom_def split: option.splits)
    with sound_row [OF assms(3)] that show ?thesis by (fastforce simp: linked_def)
  qed
  then have "set (dev_neighbors (mesh_devices (start_mesh B ids ?ds) i)) \<subseteq> listeners ?ds" for i
    using start_net_link [OF assms(3-5), of B ids] by (auto simp: start_mesh_def wired_listen link_def fun_eq_iff)
  with ok len assms(6) show ?thesis by (simp add: harness_inv_def)
qed

text \<open>
  C39: The harness does its work: started from a command line with a port for each device, when every spec
  names a device and fits the header, no delay is refused, and a send to a device that listens
  succeeds (others may do anything), then however the threads interleave at the steps of the pipeline (its
  checks undivided) and at their sends, whatever frames are lost and while the devices are
  stopped one by one, the main thread never raises, it can always go on to the
  end, at the end every transport is stopped, and no run goes on for ever.
\<close>

theorem harness_completes:
  assumes "bloom_ok B" "ed25519_ok C" "ed25519_errors C" "float_errors to_float" "listeners_accept A"
    and "main_start U to_float zero two bind argv = Inr (args, ds)" "ports_ok bind ports (nat (arg_devices args))"
    and "list_all (\<lambda>r. injection_ok (length ds) r \<and> S (spec_delay (inj_spec r)) = Inr ()) rs" "S (arg_wait args) = Inr ()"
    and "harness_run B C S A ids args ds rs (ph, m, ds')"
  shows "(\<nexists>e. ph = Crashed e) \<and>
    (\<exists>m'. (main_step B C S A (arg_wait args))\<^sup>*\<^sup>* (ph, m, ds') (Finished, m', stop_all ds)) \<and>
    (ph = Finished \<longrightarrow> ds' = stop_all ds) \<and>
    list_all (\<lambda>d. \<not> running (sd_transport d) \<and> \<not> server (sd_transport d)) (stop_all ds) \<and>
    (\<nexists>run. run 0 = (ph, m, ds') \<and> (\<forall>i. main_step B C S A (arg_wait args) (run i) (run (Suc i))))"
proof -
  from main_start_built [OF assms(6,7,4)] obtain adj where
    ds: "ds = wired ports adj (nat (arg_devices args))" and sound: "sound_topology (nat (arg_devices args)) adj" by blast
  have ports: "inj_on ports {..<nat (arg_devices args)}" "\<And>i. i < nat (arg_devices args) \<Longrightarrow> \<bar>ports i\<bar> < 65536"
    using assms(7) by (simp_all add: ports_ok_def list_all_iff)
  have "good_rounds S (nat (arg_devices args)) rs" using assms(8) by (simp add: good_rounds_def ds wired_def)
  from start_mesh_inv [OF assms(1,3) sound ports this, of demo_decoders A ids]
  have "harness_inv B C demo_decoders S A ds (Sleeping rs, start_mesh B ids ds, ds)" by (simp add: ds)
  from main_run_inv [where S = S and wait = "arg_wait args", OF assms(5,2,9) _ this] assms(10)
  have inv: "harness_inv B C demo_decoders S A ds (ph, m, ds')" by (simp add: harness_run_def)
  have "\<nexists>run. run 0 = (ph, m, ds') \<and> (\<forall>i. main_step B C S A (arg_wait args) (run i) (run (Suc i)))"
    using main_terminates [where S = S and wait = "arg_wait args", OF assms(5,2,9)] inv by metis
  with main_can_finish [where S = S and wait = "arg_wait args", OF assms(5,2,9) inv] inv stop_all_stopped [of ds] show ?thesis
    by (auto simp: harness_inv_def)
qed

section \<open>A small run\<close>

definition demo_argv :: "pystr list" where
  "demo_argv = harness_argv 5 (str ''line'') [spec_text 0 [104, 105] 5 8 65535 [48]] [51]"

definition demo_spec :: "pystr inject_spec" where
  "demo_spec = \<lparr> spec_device = 0, spec_payload = [104, 105], spec_ttl = 5, spec_spray_l = 8, spec_zone_id = 65535, spec_delay = [48] \<rparr>"

definition demo_args :: "pystr harness_args" where
  "demo_args = \<lparr> arg_devices = 5, arg_topology = str ''line'', arg_injections = [demo_spec], arg_wait = [51] \<rparr>"

definition demo_bind :: "nat \<Rightarrow> pystr \<Rightarrow> int \<Rightarrow> int res" where
  "demo_bind k h p = Inr (5000 + int k)"

lemma demo_ports: "ports_ok demo_bind (\<lambda>k. 5000 + int k) (nat (arg_devices demo_args))"
  by (simp add: ports_ok_def demo_bind_def demo_args_def list_all_iff inj_on_def)

lemma demo_parse: "parse_args ascii_unicode (\<lambda>t. Inr t) [] [50] demo_argv = Inr demo_args"
proof -
  have "list_all2 (\<lambda>s sp. parse_inject_spec ascii_unicode (\<lambda>t. Inr t) [] s = Inr sp) [spec_text 0 [104, 105] 5 8 65535 [48]] [demo_spec]"
    using inject_spec_roundtrip [of "[104, 105]" "[48]" "[104, 105]" "\<lambda>t. Inr t" "[48]" 0 5 8 65535 ascii_unicode "[]"]
    by (simp add: utf8_encode_def utf8_char_def scalar_def demo_spec_def)
  moreover have "list_all undashed [[51], spec_text 0 [104, 105] 5 8 65535 [48]]"
    by (simp add: undashed_def spec_text_def str_def)
  ultimately show ?thesis
    using full_command_line [of 5 "str ''line''" "[spec_text 0 [104, 105] 5 8 65535 [48]]" "[51]" ascii_unicode
        "\<lambda>t. Inr t" "[]" "[demo_spec]" "[51]" "[50]"]
    by (simp add: topology_choices_def demo_argv_def demo_args_def)
qed

lemma demo_start: "\<exists>ds. main_start ascii_unicode (\<lambda>t. Inr t) [] [50] demo_bind demo_argv = Inr (demo_args, ds) \<and> length ds = 5"
proof -
  obtain build adj where t: "TOPOLOGIES (str ''line'') = Some build" "build 5 = Inr adj" "sound_topology (nat 5) adj"
    using topologies_known [of "str ''line''" 5] by auto
  have "build_devices demo_bind 5 (str ''line'') = Inr (wired (\<lambda>k. 5000 + int k) adj (nat 5))"
    by (rule build_devices_wired [OF t]) (simp add: demo_bind_def)
  then show ?thesis by (simp add: main_start_def demo_parse demo_args_def wired_def)
qed

theorem harness_reach_witness:
  "\<exists>ds n' cs. main_start ascii_unicode (\<lambda>t. Inr t) [] [50] demo_bind demo_argv = Inr (demo_args, ds) \<and>
    (net_step list_bloom toy_crypto)\<^sup>*\<^sup>* (sent_at 0 demo_packet (start_net list_bloom (\<lambda>i. demo_identity) ds)) n' \<and>
    (3, cs) \<in># in_flight n'"
proof -
  obtain ds where ds: "main_start ascii_unicode (\<lambda>t. Inr t) [] [50] demo_bind demo_argv = Inr (demo_args, ds)"
    using demo_start by blast
  have "sig_valid toy_crypto demo_message" using demo_clears by (simp add: clears_def)
  with harness_reach [OF list_bloom_ok toy_ed25519_errors _ ds demo_ports demo_packet_facts(2), where ids = "\<lambda>i. demo_identity"
      and src = 0 and d = 3]
  obtain build adj where t: "TOPOLOGIES (str ''line'') = Some build" "build 5 = Inr adj"
    and r: "(\<exists>n' cs. (net_step list_bloom toy_crypto)\<^sup>*\<^sup>* (sent_at 0 demo_packet (start_net list_bloom (\<lambda>i. demo_identity) ds)) n' \<and>
      (3, cs) \<in># in_flight n') \<longleftrightarrow> (\<exists>h \<le> 3. (linked adj ^^ h) 0 3)"
    by (auto simp: demo_packet_facts float_errors_def demo_args_def)
  have "line_build 5 = Inr (\<lambda>i. if i < 5 then Some (line_row 4 i) else None)"
    unfolding line_build_eq by (simp cong: if_cong)
  then have "adj = (\<lambda>i. if i < 5 then Some (line_row 4 i) else None)" using t by (auto simp: TOPOLOGIES_def)
  then have "linked adj 0 1" "linked adj 1 2" "linked adj 2 3" by (simp_all add: linked_def line_row_set)
  then have "(linked adj ^^ 3) 0 3" unfolding numeral_3_eq_3 by (auto simp: numeral_2_eq_2 relcompp_apply)
  with r ds show ?thesis by blast
qed

definition demo_run :: "pystr injection" where
  "demo_run = \<lparr> inj_spec = demo_spec, inj_msg_id = replicate 16 1, inj_now = 1000, inj_clk = clocks_at 1000 \<rparr>"

definition demo_answers :: answers where
  "demo_answers L peer r \<longleftrightarrow> (if peer \<in> L then r = Inr () else r = Inl OSError)"

theorem harness_completes_witness:
  "\<exists>ds m'. main_start ascii_unicode (\<lambda>t. Inr t) [] [50] demo_bind demo_argv = Inr (demo_args, ds) \<and>
    (main_step list_bloom toy_crypto (\<lambda>t. Inr ()) demo_answers (arg_wait demo_args))\<^sup>*\<^sup>*
      (Sleeping [demo_run], start_mesh list_bloom (\<lambda>i. demo_identity) ds, ds) (Finished, m', stop_all ds)"
proof -
  obtain ds where ds: "main_start ascii_unicode (\<lambda>t. Inr t) [] [50] demo_bind demo_argv = Inr (demo_args, ds)" "length ds = 5"
    using demo_start by blast
  have "injection_ok (length ds) demo_run"
    by (simp add: injection_ok_def ds(2) demo_run_def demo_spec_def py_index_def packet_args_ok_def header_args_ok_def)
  moreover have "harness_run list_bloom toy_crypto (\<lambda>t. Inr ()) demo_answers (\<lambda>i. demo_identity) demo_args ds [demo_run]
      (Sleeping [demo_run], start_mesh list_bloom (\<lambda>i. demo_identity) ds, ds)"
    by (simp add: harness_run_def demo_args_def demo_run_def)
  moreover have "listeners_accept demo_answers" by (simp add: listeners_accept_def demo_answers_def)
  moreover have "float_errors (\<lambda>t :: pystr. Inr t)" by (simp add: float_errors_def)
  ultimately show ?thesis
    using harness_completes [OF list_bloom_ok toy_ed25519_ok toy_ed25519_errors _ _ ds(1) demo_ports,
        where A = demo_answers and S = "\<lambda>t. Inr ()" and rs = "[demo_run]"] ds(1)
    by fastforce
qed

section \<open>An injection that is not interrupted\<close>







end
