(* ===== verification/Attack_Demo.thy ===== *)
theory Attack_Demo
  imports Harness_Main
begin

text \<open>
  \<^emph>\<open>sim/adversarial_demo.py\<close>: five attacks on the middle device of a three-node line, and the
  verdict the script reaches from the events the device logs. The device handles one packet
  after the other: the settle time of the script is taken to be enough for each. The frames it would send on are
  collected too; the attacker's own sends may raise.
\<close>

section \<open>The script\<close>

text \<open>\<^emph>\<open>sub in text\<close>, and \<^emph>\<open>text.lower()\<close> on ASCII.\<close>

fun contains :: "string \<Rightarrow> string \<Rightarrow> bool" where
  "contains sub [] = (sub = [])"
| "contains sub (c # cs) = (take (length sub) (c # cs) = sub \<or> contains sub cs)"

definition lower_char :: "char \<Rightarrow> char" where
  "lower_char c = (let n = of_char c :: nat in if 65 \<le> n \<and> n \<le> 90 then char_of (n + 32) else c)"

definition lower :: "string \<Rightarrow> string" where
  "lower = map lower_char"

text \<open>\<^emph>\<open>_build_mesh\<close>: a line of devices, all of zone 0.\<close>

definition build_mesh :: "(nat \<Rightarrow> pystr \<Rightarrow> int \<Rightarrow> int res) \<Rightarrow> int \<Rightarrow> sim_device list res" where
  "build_mesh bind n =
     res_bind (line_build n) (\<lambda>adj.
     res_bind (start_all bind 0 (map (\<lambda>i. (new_sim_device i)\<lparr>sd_zone := 0\<rparr>) [0..<nat n])) (\<lambda>ds.
     wire_all adj [0..<nat n] ds))"

lemma build_mesh_victim:
  assumes "bind 0 (str ''127.0.0.1'') 0 = Inr p0" "bind 1 (str ''127.0.0.1'') 0 = Inr p1" "bind 2 (str ''127.0.0.1'') 0 = Inr p2"
  shows "\<exists>ds. build_mesh bind 3 = Inr ds \<and> length ds = 3 \<and>
    sd_neighbors (ds ! 1) = [sd_address (ds ! 0), sd_address (ds ! 2)]"
  using assms
  by (simp add: build_mesh_def line_build_eq line_row_def upt_conv_Cons device_start_def new_sim_device_def
      transport_op_defs numeral_2_eq_2 numeral_3_eq_3 Let_def)

text \<open>
  The random draws and clock readings of a run: per packet built, and per packet sent the outcome of the send
  and the readings of the device that handles it.
\<close>

record demo_env =
  env_now :: "nat \<Rightarrow> time"
  env_id :: "nat \<Rightarrow> bytes"
  env_send :: "nat \<Rightarrow> unit res"
  env_clk :: "nat \<Rightarrow> clocks"

text \<open>\<^emph>\<open>_victim_packet\<close>; \<^emph>\<open>msg_id or os.urandom(16)\<close> draws for an absent or empty identifier.\<close>

definition victim_packet ::
    "crypto \<Rightarrow> device_identity \<Rightarrow> int option \<Rightarrow> bytes option \<Rightarrow> bytes \<Rightarrow> time \<Rightarrow> bytes \<Rightarrow> bytes res" where
  "victim_packet C attacker ts mid pl now drawn =
     build_packet C attacker
       (case mid of None \<Rightarrow> drawn | Some m \<Rightarrow> if m = [] then drawn else m) (replicate 16 0xEE)
       (case ts of None \<Rightarrow> py_int now | Some t \<Rightarrow> t) 5 1 0xFFFF 1 pl"

definition text_bytes :: "string \<Rightarrow> bytes" where
  "text_bytes s = map of_char s"

definition attack_payload :: bytes where
  "attack_payload = text_bytes ''attack payload''"

text \<open>The victim, the events captured so far (its index is 1) and what it has sent.\<close>

record 'b demo =
  dm_victim :: "'b device"
  dm_events :: "(nat \<times> log_line) list"
  dm_sent :: "frame list"

text \<open>The connection's thread handles the packet; if it raises, no event is captured.\<close>

definition victim_handles :: "'b bloom_ops \<Rightarrow> crypto \<Rightarrow> clocks \<Rightarrow> pystr \<Rightarrow> bytes \<Rightarrow> 'b demo \<Rightarrow> 'b demo" where
  "victim_handles B C clk attacker_addr bs d =
     (case device_on_receive B C clk attacker_addr bs (dm_victim d) of
        (Inl e, v) \<Rightarrow> d\<lparr>dm_victim := v\<rparr>
      | (Inr (logs, sends), v) \<Rightarrow>
          d\<lparr>dm_victim := v, dm_events := dm_events d @ map (Pair 1) logs, dm_sent := dm_sent d @ sends\<rparr>)"

text \<open>\<^emph>\<open>_send_raw\<close>; \<open>sent\<close> is the outcome of the attacker's send, which is not caught.\<close>

definition send_raw ::
    "'b bloom_ops \<Rightarrow> crypto \<Rightarrow> unit res \<Rightarrow> clocks \<Rightarrow> pystr \<Rightarrow> bytes \<Rightarrow> 'b demo \<Rightarrow> 'b demo res" where
  "send_raw B C sent clk attacker_addr bs d = res_bind sent (\<lambda>_. Inr (victim_handles B C clk attacker_addr bs d))"

text \<open>\<^emph>\<open>_last_outcome_for\<close>.\<close>

fun is_outcome :: "log_line \<Rightarrow> bool" where
  "is_outcome (Delivered _ _) = True"
| "is_outcome (Dropped _) = True"
| "is_outcome _ = False"

fun outcome_of :: "log_line \<Rightarrow> string \<times> reason" where
  "outcome_of (Delivered _ _) = (''delivered'', None)"
| "outcome_of (Dropped r) = (''dropped'', r)"
| "outcome_of _ = (''none'', None)"

definition last_outcome_for :: "(nat \<times> log_line) list \<Rightarrow> nat \<Rightarrow> string \<times> reason" where
  "last_outcome_for events i =
     (case find (\<lambda>(j, l). j = i \<and> is_outcome l) (rev events) of None \<Rightarrow> (''none'', None) | Some (_, l) \<Rightarrow> outcome_of l)"

text \<open>\<^emph>\<open>outcome == "dropped" and reason and word in reason.lower()\<close>.\<close>

definition dropped_for :: "string \<Rightarrow> 'b demo \<Rightarrow> bool" where
  "dropped_for word d =
     (case last_outcome_for (dm_events d) 1 of (out, r) \<Rightarrow>
        out = ''dropped'' \<and> truthy r \<and> (case r of Some t \<Rightarrow> contains word (lower t) | None \<Rightarrow> False))"

definition delivered_ok :: "'b demo \<Rightarrow> bool" where
  "delivered_ok d = (fst (last_outcome_for (dm_events d) 1) = ''delivered'')"

text \<open>\<^emph>\<open>forged[-64:] = b"\x99" * 64\<close>.\<close>

definition forge :: "bytes \<Rightarrow> bytes" where
  "forge bs = take (length bs - 64) bs @ replicate 64 0x99"

text \<open>
  The body of \<^emph>\<open>main\<close>: the packets in the order they are built and sent, and the six results: name, verdict
  and the text printed beside it. \<open>victim\<close> is the second device of \<open>build_mesh\<close>.
\<close>

definition detail_of :: "'b demo \<Rightarrow> string" where
  "detail_of d =
     (case last_outcome_for (dm_events d) 1 of (out, r) \<Rightarrow>
        out @ '': '' @ (case r of None \<Rightarrow> ''None'' | Some t \<Rightarrow> t))"

definition demo_main ::
    "'b bloom_ops \<Rightarrow> crypto \<Rightarrow> device_identity \<Rightarrow> pystr \<Rightarrow> demo_env \<Rightarrow> 'b device \<Rightarrow>
     ((string \<times> bool \<times> string) list \<times> 'b demo) res" where
  "demo_main B C attacker addr env victim =
     (let packet = (\<lambda>k ts mid pl. victim_packet C attacker ts mid pl (env_now env k) (env_id env k));
          send = (\<lambda>j. send_raw B C (env_send env j) (env_clk env j) addr);
          d0 = \<lparr> dm_victim = victim, dm_events = [], dm_sent = [] \<rparr> in
      res_bind (packet 0 None None (text_bytes ''control message'')) (\<lambda>control_raw.
      res_bind (send 0 control_raw d0) (\<lambda>d1.
      let r1 = (''control (honest message)'', delivered_ok d1, fst (last_outcome_for (dm_events d1) 1)) in
      res_bind (packet 1 None None attack_payload) (\<lambda>p1.
      res_bind (send 1 (forge p1) d1) (\<lambda>d2.
      let r2 = (''forged signature -> step 6'', dropped_for ''signature'' d2, detail_of d2) in
      res_bind (packet 2 None None (text_bytes ''captured then replayed'')) (\<lambda>replay_raw.
      res_bind (send 2 replay_raw d2) (\<lambda>d3.
      res_bind (send 3 replay_raw d3) (\<lambda>d4.
      let r3 = (''replayed message -> step 4 (dedup)'', dropped_for ''duplicate'' d4, detail_of d4) in
      res_bind (packet 3 (Some (py_int (env_now env 3) - 360)) None attack_payload) (\<lambda>stale_raw.
      res_bind (send 4 stale_raw d4) (\<lambda>d5.
      let r4 = (''stale timestamp -> step 3'', dropped_for ''old'' d5, detail_of d5) in
      res_bind (packet 4 (Some (py_int (env_now env 4) + 60)) None attack_payload) (\<lambda>future_raw.
      res_bind (send 5 future_raw d5) (\<lambda>d6.
      let r5 = (''future timestamp -> step 3'', dropped_for ''future'' d6, detail_of d6) in
      res_bind (packet 5 None (Some (env_id env 5)) (text_bytes ''sent exactly twice'')) (\<lambda>dup_raw.
      res_bind (send 6 dup_raw d6) (\<lambda>d7.
      res_bind (send 7 dup_raw d7) (\<lambda>d8.
      let r6 = (''duplicate message -> step 4 (dedup)'', dropped_for ''duplicate'' d8, detail_of d8) in
      Inr ([r1, r2, r3, r4, r5, r6], d8))))))))))))))))"

text \<open>
  The report, line by line, and the exit status: 1 if any check failed. \<open>ljust\<close> is the padding of
  \<^emph>\<open>{name:<38}\<close>.
\<close>

definition ljust :: "nat \<Rightarrow> string \<Rightarrow> string" where
  "ljust n s = s @ replicate (n - length s) (CHR '' '')"

definition demo_failed :: "(string \<times> bool \<times> string) list \<Rightarrow> nat" where
  "demo_failed results = length (filter (\<lambda>(_, ok, _). \<not> ok) results)"

definition demo_report :: "(string \<times> bool \<times> string) list \<Rightarrow> string list" where
  "demo_report results =
     [[], ''Socket-based adversarial demo results'', replicate 60 (CHR ''='')] @
     map (\<lambda>(name, ok, detail). ''['' @ (if ok then ''PASS'' else ''FAIL'') @ ''] '' @ ljust 38 name @ '' '' @ detail) results @
     [replicate 60 (CHR ''=''),
      show_nat (length results - demo_failed results) @ ''/'' @ show_nat (length results) @ '' checks passed'']"

definition demo_status :: "(string \<times> bool \<times> string) list \<Rightarrow> int" where
  "demo_status results = (if demo_failed results > 0 then 1 else 0)"

text \<open>
  \<^emph>\<open>main\<close> as a whole: the mesh, the attacker's transport, the attacks, and the end, where every transport is
  stopped. The result is what is printed, the exit status, what the victim has become, and the transports.
\<close>

definition attack_demo ::
    "'b bloom_ops \<Rightarrow> crypto \<Rightarrow> device_identity \<Rightarrow> device_identity \<Rightarrow> (nat \<Rightarrow> pystr \<Rightarrow> int \<Rightarrow> int res) \<Rightarrow>
     (pystr \<Rightarrow> int \<Rightarrow> int res) \<Rightarrow> demo_env \<Rightarrow>
     (string list \<times> int \<times> 'b demo \<times> unit socket_transport \<times> sim_device list) res" where
  "attack_demo B C attacker ident bind attacker_bind env =
     res_bind (build_mesh bind 3) (\<lambda>ds.
     case transport_start attacker_bind (new_transport (str ''127.0.0.1'') 0) of
       (Inl e, _) \<Rightarrow> Inl e
     | (Inr _, t) \<Rightarrow>
         let t1 = connect_peer (sd_address (ds ! 1)) t in
         res_bind (demo_main B C attacker (transport_address t1) env (start_device B ident ds (ds ! 1))) (\<lambda>(results, d).
         Inr (demo_report results, demo_status results, d, transport_stop t1, stop_all ds)))"

section \<open>Verdicts\<close>

lemma contains_append: "contains w s \<Longrightarrow> contains w (s @ t)"
proof (induction s)
  case Nil
  then show ?case by (cases t) simp_all
next
  case (Cons c s)
  then show ?case by (auto simp: take_Cons split: nat.splits)
qed

lemma lower_append: "lower (s @ t) = lower s @ lower t"
  by (simp add: lower_def)

lemma last_outcome_snoc:
  "last_outcome_for (evs @ [(1, Received a), (1, Delivered mid zid)]) 1 = (''delivered'', None)"
  "last_outcome_for (evs @ [(1, Received a), (1, Dropped r)]) 1 = (''dropped'', r)"
  by (simp_all add: last_outcome_for_def)

section \<open>A quiet victim\<close>

text \<open>
  What the script relies on between two packets: the filter knows the identifiers \<open>ids\<close> seen so far,
  nothing has been evicted, the attacker's ephemeral identifier is within its rate and not
  banned, and budgets are recorded for seen identifiers only. All readings lie in a span of \<open>span\<close>
  seconds from \<open>T\<close> on.
\<close>

definition span :: time where [simp]: "span = 20"

definition attacker_ephem :: bytes where
  "attacker_ephem = replicate 16 0xEE"

definition quiet_dedup :: "'b bloom_ops \<Rightarrow> time \<Rightarrow> bytes list \<Rightarrow> 'b dedup_cache \<Rightarrow> bool" where
  "quiet_dedup B T ids d \<longleftrightarrow>
     dedup_inv B d \<and> evictions_since_rebuild d = 0 \<and> length (lru d) \<le> length ids \<and>
     (\<forall>t \<in> snd ` set (lru d). T \<le> t) \<and> (\<forall>x \<in> set ids. bf_mem B x (bloom d))"

definition quiet_rate :: "nat \<Rightarrow> limiter \<Rightarrow> bool" where
  "quiet_rate k l \<longleftrightarrow>
     checks l \<le> k \<and> (\<forall>st. senders l attacker_ephem = Some st \<longrightarrow> length (window st) \<le> k \<and> banned_until st = 0)"

definition quiet :: "'b bloom_ops \<Rightarrow> time \<Rightarrow> bytes list \<Rightarrow> 'b relay_pipeline \<Rightarrow> bool" where
  "quiet B T ids p \<longleftrightarrow>
     quiet_dedup B T ids (dedup_cache p) \<and> quiet_rate (length ids) (rate_limiter p) \<and> attestation p = None \<and>
     dom (expected (spray_budget p)) \<subseteq> set ids"

lemma evict_loop_idle:
  assumes "length xs \<le> CAPACITY" "\<forall>t \<in> snd ` set xs. now - t \<le> TTL_SECONDS"
  shows "evict_loop now xs n = (xs, n)"
  using assms by (cases xs) auto

lemma quiet_dedup_new:
  assumes "bloom_ok B" "quiet_dedup B T ids d" "\<not> bf_mem B x (bloom d)" "length ids < 10" "T \<le> now" "now \<le> T + span"
  shows "\<exists>d'. dedup_check B (now, x) d = (Inr None, d') \<and> quiet_dedup B T (x # ids) d' \<and> bf_add B x (bloom d) = Inr (bloom d')"
proof -
  have q: "dedup_inv B d" "evictions_since_rebuild d = 0" "length (lru d) \<le> length ids"
    "\<forall>t \<in> snd ` set (lru d). T \<le> t" "\<And>y. y \<in> set ids \<Longrightarrow> bf_mem B y (bloom d)"
    using assms(2) by (auto simp: quiet_dedup_def)
  have idle: "evict_loop now (lru d @ [(x, now)]) 0 = (lru d @ [(x, now)], 0)"
    using q(3,4) assms(4-6) by (intro evict_loop_idle) force+
  have new: "\<not> bf_mem B x (bloom d)" "x \<notin> fst ` set (lru d)" using q(1) assms(3) by (auto simp: dedup_inv_def)
  have "bf_count B (bloom d) < bf_capacity B (bloom d)" using q(1) by (auto simp: dedup_inv_def)
  then obtain b where b: "bf_add B x (bloom d) = Inr b" using bloom_ok_total [OF assms(1)] by blast
  let ?d = "d\<lparr>bloom := b, lru := lru d @ [(x, now)], evictions_since_rebuild := 0\<rparr>"
  have c: "dedup_check B (now, x) d = (Inr None, ?d)"
    using new b idle q(2) by (simp add: dedup_check_def dedup_evict_def alist_update_new Let_def)
  have "dedup_inv B ?d" using dedup_check_new [OF assms(1) q(1) new(1), of now] c by auto
  moreover have "bf_mem B y b" if "y = x \<or> y \<in> set ids" for y
    using bloom_ok_add(1,2) [OF assms(1) b] q(5) that by blast
  ultimately have "quiet_dedup B T (x # ids) ?d"
    using q(3,4) assms(5) by (auto simp: quiet_dedup_def)
  with c b show ?thesis by (intro exI [of _ ?d]) simp
qed

lemma quiet_rate_passes:
  assumes "quiet_rate k l" "k < 10" "0 \<le> now"
  shows "\<exists>l'. rate_check (now, attacker_ephem) l = (Inr None, l') \<and> quiet_rate (Suc k) l'"
proof -
  let ?st = "case senders l attacker_ephem of None \<Rightarrow> new_sender | Some st \<Rightarrow> st"
  have st: "length (window ?st) \<le> k" "banned_until ?st = 0"
    using assms(1) by (auto simp: quiet_rate_def new_sender_def split: option.splits)
  let ?w = "dropWhile (\<lambda>t. 10 < now - t) (window ?st)"
  have w: "length ?w \<le> k" using st(1) length_dropWhile_le [of _ "window ?st"] le_trans by blast
  have step: "sender_step now ?st =
      (None, ?st\<lparr>last_seen := now, window := ?w @ [now], consecutive_violations := 0\<rparr>)"
    using w assms(2,3) st(2) by (simp add: sender_step_def Let_def)
  have "Suc (checks l) mod 1000 \<noteq> 0" using assms(1,2) by (simp add: quiet_rate_def)
  then have "rate_check (now, attacker_ephem) l = (Inr None, l\<lparr>senders := (senders l)(attacker_ephem \<mapsto>
      ?st\<lparr>last_seen := now, window := ?w @ [now], consecutive_violations := 0\<rparr>), checks := Suc (checks l)\<rparr>)"
    unfolding rate_check_def by (simp add: Let_def step)
  then show ?thesis using assms(1) w st(2) by (simp add: quiet_rate_def)
qed

text \<open>What becomes of a packet of the script at a quiet victim.\<close>

definition clk_in :: "time \<Rightarrow> clocks \<Rightarrow> bool" where
  "clk_in T clk \<longleftrightarrow> list_all (\<lambda>t. T \<le> t \<and> t \<le> T + span) (readings clk)"

lemma clk_inD:
  assumes "clk_in T clk"
  shows "T \<le> clk_timestamp clk" "clk_timestamp clk \<le> T + span" "T \<le> clk_dedup clk" "clk_dedup clk \<le> T + span"
    "T \<le> clk_rate clk"
  using assms by (simp_all add: clk_in_def readings_def)

definition seen_filter :: "'b relay_pipeline \<Rightarrow> 'b" where
  "seen_filter p = bloom (dedup_cache p)"

lemma quiet_new_packet:
  assumes "bloom_ok B" "ed25519_errors C" "quiet B T ids p" "length ids < 10" "0 \<le> T" "clk_in T clk"
    and "admitted clk bs m" "\<not> bf_mem B (msg_id m) (seen_filter p)" "ephem_id m = attacker_ephem" "spray_l m = 1"
  shows "\<exists>p'. quiet B T (msg_id m # ids) p' \<and> bf_add B (msg_id m) (seen_filter p) = Inr (seen_filter p') \<and> process B C (clk, bs) p =
    (Inr (if sig_valid C m then delivery m None
          else drop_with (Some ''signature invalid: Ed25519 verification failed'')), p')"
proof -
  have q: "quiet_dedup B T ids (dedup_cache p)" "quiet_rate (length ids) (rate_limiter p)" "attestation p = None"
    "dom (expected (spray_budget p)) \<subseteq> set ids" using assms(3) by (auto simp: quiet_def)
  note clk = clk_inD [OF assms(6)]
  obtain d where d: "dedup_check B (clk_dedup clk, msg_id m) (dedup_cache p) = (Inr None, d)"
    "quiet_dedup B T (msg_id m # ids) d" "bf_add B (msg_id m) (seen_filter p) = Inr (bloom d)"
    using quiet_dedup_new [OF assms(1) q(1) assms(8) [unfolded seen_filter_def] assms(4) clk(3,4)] by (auto simp: seen_filter_def)
  have "0 \<le> clk_rate clk" using clk(5) assms(5) by simp
  from quiet_rate_passes [OF q(2) assms(4) this] obtain l where
    l: "rate_check (clk_rate clk, ephem_id m) (rate_limiter p) = (Inr None, l)" "quiet_rate (Suc (length ids)) l"
    using assms(9) by auto
  let ?p = "p\<lparr>dedup_cache := d, rate_limiter := l\<rparr>"
  have s: "process B C (clk, bs) p =
      (if sig_valid C m then process_deliver bs m ?p
       else (Inr (drop_with (Some ''signature invalid: Ed25519 verification failed'')), ?p))"
    unfolding process_admitted [OF assms(7)]
    using d(1) l(1) q(3) by (simp add: process_stateful_def process_signature_def check_signature_total [OF assms(2)] process_attest_def)
  have "expected (spray_budget p) (msg_id m) = None" 
  proof -
    have "msg_id m \<notin> set ids" using q(1) assms(8) by (auto simp: quiet_dedup_def seen_filter_def)
    with q(4) show ?thesis by (auto simp: dom_def)
  qed
  moreover have "onward_copy bs m = Inr None"
    using assms(7,10) onward_copy_eq [of bs m] by (simp add: admitted_def)
  ultimately have "process_deliver bs m ?p = (Inr (delivery m None),
      ?p\<lparr>spray_budget := (spray_budget p)\<lparr>expected := (expected (spray_budget p))(msg_id m \<mapsto> 1)\<rparr>\<rparr>)"
    using assms(10) by (simp add: process_deliver_def spray_first_sight delivery_def)
  moreover have "quiet B T (msg_id m # ids) ?p"
    "quiet B T (msg_id m # ids) (?p\<lparr>spray_budget := (spray_budget p)\<lparr>expected := (expected (spray_budget p))(msg_id m \<mapsto> 1)\<rparr>\<rparr>)"
    using d(2) l(2) q(3,4) by (auto simp: quiet_def)
  ultimately show ?thesis using s d(3) by (auto simp: seen_filter_def)
qed

lemma quiet_known_packet:
  assumes "quiet B T ids p" "admitted clk bs m" "bf_mem B (msg_id m) (seen_filter p)"
  shows "process B C (clk, bs) p = (Inr (drop_with (Some duplicate_reason)), p)"
proof -
  have "dedup_check B (clk_dedup clk, msg_id m) (dedup_cache p) = (Inr (Some duplicate_reason), dedup_cache p)"
    using assms(3) by (intro dedup_check_dup) (simp add: seen_filter_def)
  then show ?thesis
    unfolding process_admitted [OF assms(2)] by (simp add: process_stateful_def duplicate_reason_def)
qed

lemma unfresh_packet:
  assumes "parse_packet bs = Inr m" "length bs \<le> 460" "0 < ttl m" "\<not> fresh (clk_timestamp clk) (timestamp m)"
  shows "process B C (clk, bs) p = (Inr (drop_with (check_timestamp (clk_timestamp clk) m)), p)"
  using assms parse_packet_InrD(1) [OF assms(1)] by (simp add: process_def)

section \<open>The packets\<close>

text \<open>A packet of the attacker as the victim reads it.\<close>

definition attack_message :: "crypto \<Rightarrow> device_identity \<Rightarrow> bytes \<Rightarrow> int \<Rightarrow> bytes \<Rightarrow> message \<Rightarrow> bool" where
  "attack_message C attacker mid ts bs m \<longleftrightarrow>
     parse_packet bs = Inr m \<and> length bs \<le> 460 \<and> msg_id m = mid \<and> timestamp m = ts \<and> ttl m = 5 \<and> spray_l m = 1 \<and>
     zone_id m = 0xFFFF \<and> ephem_id m = attacker_ephem \<and> sender_key m = public_key C attacker"

lemma victim_packet_parse:
  assumes "ed25519_ok C" "length mid' = 16" "0 \<le> ts'" "ts' < 2 ^ 32" "length pl \<le> 321"
    and "mid' = (case mid of None \<Rightarrow> drawn | Some m \<Rightarrow> if m = [] then drawn else m)"
    and "ts' = (case ts of None \<Rightarrow> py_int now | Some t \<Rightarrow> t)"
  shows "\<exists>bs m. victim_packet C attacker ts mid pl now drawn = Inr bs \<and> attack_message C attacker mid' ts' bs m \<and> sig_valid C m"
proof -
  have "packet_args_ok mid' (replicate 16 0xEE) ts' 5 1 0xFFFF 1 pl"
    using assms(2-5) by (simp add: packet_args_ok_def header_args_ok_def)
  from build_packet_parse [OF assms(1) this, of attacker] assms(5) show ?thesis
    unfolding victim_packet_def assms(6) [symmetric] assms(7) [symmetric]
    by (auto simp: attack_message_def attacker_ephem_def)
qed

lemma forge_parse:
  assumes "attack_message C attacker mid ts bs m"
  shows "attack_message C attacker mid ts (forge bs) (m\<lparr>raw := forge bs, signature := replicate 64 0x99\<rparr>)"
proof -
  have parse: "parse_packet bs = Inr m" using assms by (simp add: attack_message_def)
  note d = parse_packet_InrD [OF parse]
  let ?m = "m\<lparr>signature := replicate 64 0x99\<rparr>"
  have n: "0 \<le> payload_len m" "length bs - 64 = 75 + nat (payload_len m)" using d(1,3) by simp_all
  then have f: "forge bs = take 75 bs @ payload ?m @ signature ?m"
    using d(1,13) by (simp add: forge_def slice_def take_add)
  have "msg_wf ?m" using parse_packet_wf [OF parse] by (simp add: msg_wf_def)
  moreover have "struct_pack HEADER_FORMAT (header_values ?m) = Inr (take 75 bs)"
    using parse_packet_header [OF parse] by (simp add: header_values_def)
  ultimately have "parse_packet (forge bs) = Inr (?m\<lparr>raw := forge bs\<rparr>)" unfolding f by (rule parse_packet_build)
  moreover have "length (forge bs) = length bs" using d(1) by (simp add: forge_def)
  ultimately show ?thesis using assms by (simp add: attack_message_def)
qed

lemma forged_invalid:
  assumes "ed25519_ok C" "attack_message C attacker mid ts bs m" "signature m = replicate 64 0x99"
    and "\<And>x. ed_verify C (public_key C attacker) x (replicate 64 0x99) \<noteq> Inr ()"
  shows "\<not> sig_valid C m"
  using assms ed25519_okD(1,3) [OF assms(1)]
  by (auto simp: sig_valid_def attack_message_def public_key_def)

section \<open>The verdict of each send\<close>

definition victim_filter :: "'b demo \<Rightarrow> 'b" where
  "victim_filter d = seen_filter (dev_pipeline (dm_victim d))"

definition waiting :: "'b bloom_ops \<Rightarrow> time \<Rightarrow> bytes list \<Rightarrow> 'b demo \<Rightarrow> bool" where
  "waiting B T ids d \<longleftrightarrow> quiet B T ids (dev_pipeline (dm_victim d)) \<and> dm_sent d = []"

lemma waiting_new:
  assumes "bloom_ok B" "dev_pipeline (dm_victim d) = new_pipeline B None" "dm_sent d = []"
  shows "waiting B T [] d"
  using assms bloom_ok_new(3) [OF assms(1)] new_dedup_inv [OF assms(1)]
  by (simp add: waiting_def quiet_def quiet_dedup_def quiet_rate_def new_pipeline_def new_dedup_def new_bloom_def
      new_limiter_def new_tracker_def)

lemma send_delivered:
  assumes "process B C (clk, bs) (dev_pipeline (dm_victim d)) = (Inr (delivery m None), p)" "attack_message C attacker mid ts bs m"
    and "quiet B T ids p" "dm_sent d = []"
  shows "waiting B T ids (victim_handles B C clk addr bs d) \<and> delivered_ok (victim_handles B C clk addr bs d) \<and>
    victim_filter (victim_handles B C clk addr bs d) = seen_filter p"
proof -
  have "copies_forward (split_copies 1) = 0" by (simp add: split_copies_forward)
  then have "handle_local B C (clk, bs) (dm_victim d) =
      (Inr ([Delivered (take 4 mid) 0xFFFF], []), (dm_victim d)\<lparr>dev_pipeline := p\<rparr>)"
    using assms(1,2) by (simp add: handle_local_eq relay_plan_def delivery_def attack_message_def Let_def)
  then show ?thesis
    using assms(3,4) by (simp add: victim_handles_def device_on_receive_eq waiting_def delivered_ok_def victim_filter_def last_outcome_snoc [unfolded One_nat_def])
qed

lemma send_dropped:
  assumes "process B C (clk, bs) (dev_pipeline (dm_victim d)) = (Inr (drop_with (Some r)), p)"
    and "quiet B T ids p" "dm_sent d = []" "contains word (lower r)" "r \<noteq> []"
  shows "waiting B T ids (victim_handles B C clk addr bs d) \<and> dropped_for word (victim_handles B C clk addr bs d) \<and>
    (\<forall>v. \<not> contains v (lower r) \<longrightarrow> \<not> dropped_for v (victim_handles B C clk addr bs d)) \<and>
    victim_filter (victim_handles B C clk addr bs d) = seen_filter p"
proof -
  have "handle_local B C (clk, bs) (dm_victim d) =
      (Inr ([Dropped (Some r)], []), (dm_victim d)\<lparr>dev_pipeline := p\<rparr>)"
    using assms(1) by (simp add: handle_local_eq relay_plan_def drop_with_def)
  then show ?thesis
    using assms(2-5) by (simp add: victim_handles_def device_on_receive_eq waiting_def dropped_for_def victim_filter_def last_outcome_snoc [unfolded One_nat_def])
qed

lemma reasons_contain:
  "contains ''signature'' (lower ''signature invalid: Ed25519 verification failed'')"
  "contains ''duplicate'' (lower duplicate_reason)" "\<not> contains ''signature'' (lower duplicate_reason)"
  "contains ''old'' (lower (''timestamp too old: '' @ s))"
  "contains ''future'' (lower (''timestamp too far in future: '' @ s))"
proof -
  have "contains ''old'' (lower ''timestamp too old: '')" "contains ''future'' (lower ''timestamp too far in future: '')"
    by (simp_all add: lower_def lower_char_def)
  then show "contains ''old'' (lower (''timestamp too old: '' @ s))"
    "contains ''future'' (lower (''timestamp too far in future: '' @ s))"
    using contains_append unfolding lower_append by blast+
qed (simp_all add: lower_def lower_char_def duplicate_reason_def)

lemma py_int_span:
  assumes "0 \<le> T" "T \<le> t" "t \<le> T + span"
  shows "py_int T \<le> py_int t" "py_int t \<le> py_int T + 20"
proof -
  show "py_int T \<le> py_int t" using assms(2) by (rule py_int_mono)
  have "py_int (T + 20) = py_int T + 20" using assms(1) by (simp add: py_int_def)
  with py_int_mono [of t "T + 20"] assms(3) show "py_int t \<le> py_int T + 20" by simp
qed

text \<open>The conditions of a run: honest libraries, and readings within twenty seconds of each other.\<close>

definition demo_setting :: "'b bloom_ops \<Rightarrow> crypto \<Rightarrow> device_identity \<Rightarrow> time \<Rightarrow> bool" where
  "demo_setting B C attacker T \<longleftrightarrow>
     bloom_ok B \<and> ed25519_ok C \<and> ed25519_errors C \<and> 360 \<le> T \<and> T + 100 < 2 ^ 32 \<and>
     (\<forall>x. ed_verify C (public_key C attacker) x (replicate 64 0x99) \<noteq> Inr ())"

lemma attack_admitted:
  assumes "attack_message C attacker mid ts bs m" "fresh (clk_timestamp clk) ts"
  shows "admitted clk bs m"
  using assms by (simp add: attack_message_def admitted_def)

lemma span_fresh:
  assumes "demo_setting B C attacker T" "clk_in T clk" "T \<le> now" "now \<le> T + span"
  shows "fresh (clk_timestamp clk) (py_int now)" "0 \<le> py_int now - 360" "py_int now + 60 < 2 ^ 32"
    "py_int (clk_timestamp clk) - (py_int now - 360) > 300" "py_int (clk_timestamp clk) - (py_int now + 60) < - 30"
proof -
  have T: "0 \<le> T" "360 \<le> T" "T + 100 < 2 ^ 32" using assms(1) by (simp_all add: demo_setting_def)
  note n = py_int_span [OF T(1) assms(3,4)] py_int_span [OF T(1) clk_inD(1,2) [OF assms(2)]]
  have "py_int 360 \<le> py_int T" using T(2) by (rule py_int_mono)
  then have "360 \<le> py_int T" by (simp add: py_int_def)
  moreover have "of_int (py_int T) \<le> T" using T(1) by (simp add: py_int_def)
  then have "of_int (py_int T + 100) < (of_int (2 ^ 32) :: time)" using T(3) by simp
  then have "py_int T + 100 < 2 ^ 32" by (simp only: of_int_less_iff)
  ultimately show "fresh (clk_timestamp clk) (py_int now)" "0 \<le> py_int now - 360" "py_int now + 60 < 2 ^ 32"
    "py_int (clk_timestamp clk) - (py_int now - 360) > 300" "py_int (clk_timestamp clk) - (py_int now + 60) < - 30"
    using n by (simp_all add: fresh_def)
qed

text \<open>An identifier the filter does not know, and one it knows or takes for a known one.\<close>

lemma step_new:
  assumes "demo_setting B C attacker T" "waiting B T ids d" "length ids < 10" "clk_in T clk"
    and "attack_message C attacker mid ts bs m" "fresh (clk_timestamp clk) ts" "\<not> bf_mem B mid (victim_filter d)"
  shows "waiting B T (mid # ids) (victim_handles B C clk addr bs d)"
    "bf_add B mid (victim_filter d) = Inr (victim_filter (victim_handles B C clk addr bs d))"
    "sig_valid C m \<Longrightarrow> delivered_ok (victim_handles B C clk addr bs d)"
    "\<not> sig_valid C m \<Longrightarrow> dropped_for ''signature'' (victim_handles B C clk addr bs d)"
proof -
  have s: "bloom_ok B" "ed25519_errors C" "0 \<le> T" using assms(1) by (simp_all add: demo_setting_def)
  have w: "quiet B T ids (dev_pipeline (dm_victim d))" "dm_sent d = []" using assms(2) by (simp_all add: waiting_def)
  have m: "msg_id m = mid" "ephem_id m = attacker_ephem" "spray_l m = 1" using assms(5) by (simp_all add: attack_message_def)
  obtain p where p: "quiet B T (mid # ids) p" "bf_add B mid (victim_filter d) = Inr (seen_filter p)"
    "process B C (clk, bs) (dev_pipeline (dm_victim d)) =
    (Inr (if sig_valid C m then delivery m None
          else drop_with (Some ''signature invalid: Ed25519 verification failed'')), p)"
    using quiet_new_packet [OF s(1,2) w(1) assms(3) s(3) assms(4) attack_admitted [OF assms(5,6)] _ m(2,3)] m(1) assms(7)
    by (auto simp: victim_filter_def)
  have "waiting B T (mid # ids) (victim_handles B C clk addr bs d) \<and>
    victim_filter (victim_handles B C clk addr bs d) = seen_filter p \<and>
    (if sig_valid C m then delivered_ok (victim_handles B C clk addr bs d)
     else dropped_for ''signature'' (victim_handles B C clk addr bs d))"
  proof (cases "sig_valid C m")
    case True
    with p(3) have "process B C (clk, bs) (dev_pipeline (dm_victim d)) = (Inr (delivery m None), p)" by simp
    from send_delivered [OF this assms(5) p(1) w(2)] True show ?thesis by simp
  next
    case False
    with p(3) have "process B C (clk, bs) (dev_pipeline (dm_victim d)) =
      (Inr (drop_with (Some ''signature invalid: Ed25519 verification failed'')), p)" by simp
    from send_dropped [OF this p(1) w(2) reasons_contain(1)] False show ?thesis by simp
  qed
  with p(2) show "waiting B T (mid # ids) (victim_handles B C clk addr bs d)"
    "bf_add B mid (victim_filter d) = Inr (victim_filter (victim_handles B C clk addr bs d))"
    "sig_valid C m \<Longrightarrow> delivered_ok (victim_handles B C clk addr bs d)"
    "\<not> sig_valid C m \<Longrightarrow> dropped_for ''signature'' (victim_handles B C clk addr bs d)" by (auto split: if_splits)
qed

lemma step_duplicate:
  assumes "waiting B T ids d" "attack_message C attacker mid ts bs m" "fresh (clk_timestamp clk) ts" "bf_mem B mid (victim_filter d)"
  shows "waiting B T ids (victim_handles B C clk addr bs d) \<and> dropped_for ''duplicate'' (victim_handles B C clk addr bs d) \<and>
    \<not> dropped_for ''signature'' (victim_handles B C clk addr bs d) \<and>
    victim_filter (victim_handles B C clk addr bs d) = victim_filter d"
proof -
  have w: "quiet B T ids (dev_pipeline (dm_victim d))" "dm_sent d = []" using assms(1) by (simp_all add: waiting_def)
  have "bf_mem B (msg_id m) (seen_filter (dev_pipeline (dm_victim d)))"
    using assms(2,4) by (simp add: attack_message_def victim_filter_def)
  from send_dropped [OF quiet_known_packet [OF w(1) attack_admitted [OF assms(2,3)] this] w reasons_contain(2)]
  show ?thesis using reasons_contain(3) by (simp add: duplicate_reason_def victim_filter_def)
qed

text \<open>Sent twice, a packet is a duplicate the second time, whatever the filter took it for the first time.\<close>

lemma step_known:
  assumes "demo_setting B C attacker T" "waiting B T ids d" "length ids < 10" "clk_in T clk"
    and "attack_message C attacker mid ts bs m" "fresh (clk_timestamp clk) ts"
  shows "\<exists>ids'. length ids' \<le> Suc (length ids) \<and> waiting B T ids' (victim_handles B C clk addr bs d) \<and>
    bf_mem B mid (victim_filter (victim_handles B C clk addr bs d))"
proof (cases "bf_mem B mid (victim_filter d)")
  case True
  with step_duplicate [OF assms(2,5,6) True] show ?thesis by (intro exI [of _ ids]) simp
next
  case False
  have "bloom_ok B" using assms(1) by (simp add: demo_setting_def)
  from bloom_ok_add(1) [OF this step_new(2) [OF assms False]] step_new(1) [OF assms False] show ?thesis
    by (intro exI [of _ "mid # ids"]) simp
qed

lemma step_twice:
  assumes "demo_setting B C attacker T" "waiting B T ids d" "length ids < 10" "clk_in T clk"
    and "attack_message C attacker mid ts bs m" "fresh (clk_timestamp clk) ts" "fresh (clk_timestamp clk') ts"
  shows "\<exists>ids'. length ids' \<le> Suc (length ids) \<and>
    waiting B T ids' (victim_handles B C clk' addr bs (victim_handles B C clk addr bs d)) \<and>
    dropped_for ''duplicate'' (victim_handles B C clk' addr bs (victim_handles B C clk addr bs d))"
  using step_known [OF assms(1-6)] step_duplicate [OF _ assms(5,7)] by blast

lemma step_unfresh:
  assumes "waiting B T ids d" "attack_message C attacker mid ts bs m"
  shows "py_int (clk_timestamp clk) - ts > 300 \<Longrightarrow>
      waiting B T ids (victim_handles B C clk addr bs d) \<and> dropped_for ''old'' (victim_handles B C clk addr bs d)"
    "py_int (clk_timestamp clk) - ts < - 30 \<Longrightarrow>
      waiting B T ids (victim_handles B C clk addr bs d) \<and> dropped_for ''future'' (victim_handles B C clk addr bs d)"
proof -
  have w: "quiet B T ids (dev_pipeline (dm_victim d))" "dm_sent d = []" using assms(1) by (simp_all add: waiting_def)
  have m: "parse_packet bs = Inr m" "length bs \<le> 460" "0 < ttl m" "timestamp m = ts"
    using assms(2) by (simp_all add: attack_message_def)
  have p: "process B C (clk, bs) p = (Inr (drop_with (check_timestamp (clk_timestamp clk) m)), p)"
    if "\<not> fresh (clk_timestamp clk) ts" for p :: "'a relay_pipeline"
    using unfresh_packet [OF m(1-3)] that m(4) by simp
  {
    assume late: "py_int (clk_timestamp clk) - ts > 300"
    then obtain s where "check_timestamp (clk_timestamp clk) m = Some (''timestamp too old: '' @ s)"
      using m(4) by (simp add: check_timestamp_def Let_def)
    with p late send_dropped [OF _ w reasons_contain(4)]
    show "waiting B T ids (victim_handles B C clk addr bs d) \<and> dropped_for ''old'' (victim_handles B C clk addr bs d)"
      by (simp add: fresh_def)
  }
  {
    assume early: "py_int (clk_timestamp clk) - ts < - 30"
    then obtain s where "check_timestamp (clk_timestamp clk) m = Some (''timestamp too far in future: '' @ s)"
      using m(4) by (simp add: check_timestamp_def Let_def)
    with p early send_dropped [OF _ w reasons_contain(5)]
    show "waiting B T ids (victim_handles B C clk addr bs d) \<and> dropped_for ''future'' (victim_handles B C clk addr bs d)"
      by (simp add: fresh_def)
  }
qed

section \<open>The whole script\<close>

definition demo_env_ok :: "time \<Rightarrow> demo_env \<Rightarrow> bool" where
  "demo_env_ok T env \<longleftrightarrow>
     list_all (\<lambda>k. T \<le> env_now env k \<and> env_now env k \<le> T + span \<and> length (env_id env k) = 16) [0, 1, 2, 3, 4, 5] \<and>
     list_all (\<lambda>j. env_send env j = Inr () \<and> clk_in T (env_clk env j)) [0, 1, 2, 3, 4, 5, 6, 7]"


lemma packet_built:
  assumes "demo_setting B C attacker T" "T \<le> now" "now \<le> T + span" "length drawn = 16" "length pl \<le> 321"
    and "mid \<in> {None, Some drawn}"
  shows "\<exists>bs m. victim_packet C attacker None mid pl now drawn = Inr bs \<and>
      attack_message C attacker drawn (py_int now) bs m \<and> sig_valid C m"
    "\<exists>bs m. victim_packet C attacker (Some (py_int now - 360)) mid pl now drawn = Inr bs \<and>
      attack_message C attacker drawn (py_int now - 360) bs m"
    "\<exists>bs m. victim_packet C attacker (Some (py_int now + 60)) mid pl now drawn = Inr bs \<and>
      attack_message C attacker drawn (py_int now + 60) bs m"
proof -
  have C: "ed25519_ok C" using assms(1) by (simp add: demo_setting_def)
  have "clk_in T \<lparr> clk_timestamp = T, clk_dedup = T, clk_rate = T, clk_attest = T \<rparr>"
    by (simp add: clk_in_def readings_def)
  note r = span_fresh(2,3) [OF assms(1) this assms(2,3)]
  have mid: "drawn = (case mid of None \<Rightarrow> drawn | Some m \<Rightarrow> if m = [] then drawn else m)"
    using assms(6) by (auto split: option.splits)
  note parse = victim_packet_parse [OF C assms(4) _ _ assms(5) mid, where now = now]
  show "\<exists>bs m. victim_packet C attacker None mid pl now drawn = Inr bs \<and>
      attack_message C attacker drawn (py_int now) bs m \<and> sig_valid C m"
    by (rule parse) (use r in simp_all)
  show "\<exists>bs m. victim_packet C attacker (Some (py_int now - 360)) mid pl now drawn = Inr bs \<and>
      attack_message C attacker drawn (py_int now - 360) bs m"
    using parse [of "py_int now - 360" "Some (py_int now - 360)" attacker] r by auto
  show "\<exists>bs m. victim_packet C attacker (Some (py_int now + 60)) mid pl now drawn = Inr bs \<and>
      attack_message C attacker drawn (py_int now + 60) bs m"
    using parse [of "py_int now + 60" "Some (py_int now + 60)" attacker] r by auto
qed

text \<open>The eight sends, from packets as \<open>packet_built\<close> gives them.\<close>

lemma demo_sends:
  fixes B :: "'b bloom_ops" and C attacker env addr
  defines "send \<equiv> \<lambda>j. victim_handles B C (env_clk env j) addr" and "mk \<equiv> \<lambda>k. attack_message C attacker (env_id env k)"
    and "ts \<equiv> \<lambda>k. py_int (env_now env k)"
  assumes A: "demo_setting B C attacker T" and env: "demo_env_ok T env" and w0: "waiting B T [] d0"
    and new: "\<not> bf_mem B (env_id env 0) (victim_filter d0)"
    and a0: "mk 0 (ts 0) b0 m0" "sig_valid C m0" and a1: "mk 1 (ts 1) b1 m1"
    and a2: "mk 2 (ts 2) b2 m2" and a3: "mk 3 (ts 3 - 360) b3 m3" and a4: "mk 4 (ts 4 + 60) b4 m4"
    and a5: "mk 5 (ts 5) b5 m5"
    and d: "d1 = send 0 b0 d0" "d2 = send 1 (forge b1) d1" "d4 = send 3 b2 (send 2 b2 d2)" "d5 = send 4 b3 d4"
      "d6 = send 5 b4 d5" "d8 = send 7 b5 (send 6 b5 d6)"
  shows "delivered_ok d1" "bf_add B (env_id env 0) (victim_filter d0) = Inr (victim_filter d1)"
    "dropped_for ''signature'' d2 \<longleftrightarrow> \<not> bf_mem B (env_id env 1) (victim_filter d1)" "dropped_for ''duplicate'' d4"
    "dropped_for ''old'' d5" "dropped_for ''future'' d6" "dropped_for ''duplicate'' d8" "dm_sent d8 = []"
proof -
  let ?id = "env_id env"
  note a0 = a0 [unfolded mk_def] and a1 = a1 [unfolded mk_def] and a2 = a2 [unfolded mk_def]
    and a3 = a3 [unfolded mk_def] and a4 = a4 [unfolded mk_def] and a5 = a5 [unfolded mk_def]
  have clk: "clk_in T (env_clk env j)" if "j \<in> {0, 1, 2, 3, 4, 5, 6, 7}" for j
    using env that by (auto simp: demo_env_ok_def)
  have now: "T \<le> env_now env k" "env_now env k \<le> T + span" if "k \<in> {0, 1, 2, 3, 4, 5}" for k
    using env that by (auto simp: demo_env_ok_def)
  have fresh: "fresh (clk_timestamp (env_clk env j)) (ts k)"
    "py_int (clk_timestamp (env_clk env j)) - (ts k - 360) > 300" "py_int (clk_timestamp (env_clk env j)) - (ts k + 60) < - 30"
    if "j \<in> {0, 1, 2, 3, 4, 5, 6, 7}" "k \<in> {0, 1, 2, 3, 4, 5}" for j k
    using span_fresh [OF A clk [OF that(1)] now [OF that(2)]] by (simp_all add: ts_def)
  have w1: "waiting B T [?id 0] d1" and v1: "delivered_ok d1"
    and f1: "bf_add B (?id 0) (victim_filter d0) = Inr (victim_filter d1)"
    using step_new [OF A w0 _ clk a0(1) fresh(1) new] a0(2) by (simp_all add: d(1) send_def)
  let ?f = "m1\<lparr>raw := forge b1, signature := replicate 64 0x99\<rparr>"
  have f: "attack_message C attacker (?id 1) (ts 1) (forge b1) ?f" by (rule forge_parse [OF a1])
  have bad: "\<not> sig_valid C ?f" using A by (intro forged_invalid [OF _ f]) (simp_all add: demo_setting_def)
  have "\<exists>ids. length ids \<le> 2 \<and> waiting B T ids d2 \<and> (dropped_for ''signature'' d2 \<longleftrightarrow> \<not> bf_mem B (?id 1) (victim_filter d1))"
  proof (cases "bf_mem B (?id 1) (victim_filter d1)")
    case True
    from step_duplicate [OF w1 f fresh(1) True, of 1] show ?thesis by (intro exI [of _ "[?id 0]"]) (simp add: True [unfolded One_nat_def] d(2) send_def)
  next
    case False
    from step_new [OF A w1 _ clk f fresh(1) False, of 1] bad show ?thesis
      by (intro exI [of _ "[?id 1, ?id 0]"]) (simp add: False [unfolded One_nat_def] d(2) send_def)
  qed
  then obtain is2 where w2: "length is2 \<le> 2" "waiting B T is2 d2"
    and v2: "dropped_for ''signature'' d2 \<longleftrightarrow> \<not> bf_mem B (?id 1) (victim_filter d1)" by blast
  obtain is4 where "length is4 \<le> Suc (length is2)" and w4: "waiting B T is4 d4" "dropped_for ''duplicate'' d4"
    using step_twice [OF A w2(2) _ clk a2 fresh(1) fresh(1), of 2 3 addr] w2(1) by (auto simp: d(3) send_def)
  with w2(1) have few: "length is4 < 10" by simp
  have w5: "waiting B T is4 d5" "dropped_for ''old'' d5"
    using step_unfresh(1) [OF w4(1) a3] fresh(2) by (simp_all add: d(4) send_def)
  have w6: "waiting B T is4 d6" "dropped_for ''future'' d6"
    using step_unfresh(2) [OF w5(1) a4] fresh(3) by (simp_all add: d(5) send_def)
  obtain is8 where w8: "waiting B T is8 d8" "dropped_for ''duplicate'' d8"
    using step_twice [OF A w6(1) few clk a5 fresh(1) fresh(1), of 6 7 addr] by (auto simp: d(6) send_def)
  show "delivered_ok d1" "bf_add B (?id 0) (victim_filter d0) = Inr (victim_filter d1)"
    "dropped_for ''signature'' d2 \<longleftrightarrow> \<not> bf_mem B (?id 1) (victim_filter d1)" "dropped_for ''duplicate'' d4"
    "dropped_for ''old'' d5" "dropped_for ''future'' d6" "dropped_for ''duplicate'' d8" "dm_sent d8 = []"
    using v1 f1 v2 w4(2) w5(2) w6(2) w8 by (simp_all add: waiting_def)
qed

lemma demo_main_verdicts:
  assumes "demo_setting B C attacker T" "demo_env_ok T env" "dev_pipeline victim = new_pipeline B None"
  shows "\<exists>results d b. bf_add B (env_id env 0) (new_bloom B) = Inr b \<and> demo_main B C attacker addr env victim = Inr (results, d) \<and>
    map (\<lambda>(_, ok, _). ok) results = [True, \<not> bf_mem B (env_id env 1) b, True, True, True, True] \<and> dm_sent d = []"
proof -
  note A = assms(1)
  have now: "T \<le> env_now env k" "env_now env k \<le> T + span" "length (env_id env k) = 16" if "k \<in> {0, 1, 2, 3, 4, 5}" for k
    using assms(2) that by (auto simp: demo_env_ok_def)
  let ?id = "env_id env"
  have short: "length (text_bytes s) = length s" for s by (simp add: text_bytes_def)
  obtain b0 m0 where p0: "victim_packet C attacker None None (text_bytes ''control message'') (env_now env 0) (?id 0) = Inr b0"
    and a0: "attack_message C attacker (?id 0) (py_int (env_now env 0)) b0 m0" "sig_valid C m0"
    using packet_built(1) [OF A now [of 0], where pl = "text_bytes ''control message''" and mid = None] by (auto simp: short)
  obtain b1 m1 where p1: "victim_packet C attacker None None attack_payload (env_now env 1) (?id 1) = Inr b1"
    and a1: "attack_message C attacker (?id 1) (py_int (env_now env 1)) b1 m1"
    using packet_built(1) [OF A now [of 1], where pl = attack_payload and mid = None] by (auto simp: short attack_payload_def)
  obtain b2 m2 where p2: "victim_packet C attacker None None (text_bytes ''captured then replayed'') (env_now env 2) (?id 2) = Inr b2"
    and a2: "attack_message C attacker (?id 2) (py_int (env_now env 2)) b2 m2"
    using packet_built(1) [OF A now [of 2], where pl = "text_bytes ''captured then replayed''" and mid = None] by (auto simp: short)
  obtain b3 m3 where p3: "victim_packet C attacker (Some (py_int (env_now env 3) - 360)) None attack_payload (env_now env 3) (?id 3) = Inr b3"
    and a3: "attack_message C attacker (?id 3) (py_int (env_now env 3) - 360) b3 m3"
    using packet_built(2) [OF A now [of 3], where pl = attack_payload and mid = None] by (auto simp: short attack_payload_def)
  obtain b4 m4 where p4: "victim_packet C attacker (Some (py_int (env_now env 4) + 60)) None attack_payload (env_now env 4) (?id 4) = Inr b4"
    and a4: "attack_message C attacker (?id 4) (py_int (env_now env 4) + 60) b4 m4"
    using packet_built(3) [OF A now [of 4], where pl = attack_payload and mid = None] by (auto simp: short attack_payload_def)
  obtain b5 m5 where p5: "victim_packet C attacker None (Some (?id 5)) (text_bytes ''sent exactly twice'') (env_now env 5) (?id 5) = Inr b5"
    and a5: "attack_message C attacker (?id 5) (py_int (env_now env 5)) b5 m5"
    using packet_built(1) [OF A now [of 5], where pl = "text_bytes ''sent exactly twice''" and mid = "Some (?id 5)"] by (auto simp: short)
  let ?d0 = "\<lparr> dm_victim = victim, dm_events = [], dm_sent = [] \<rparr>"
  have w: "waiting B T [] ?d0" using A assms(3) by (simp add: waiting_new demo_setting_def)
  have f: "victim_filter ?d0 = new_bloom B"
    using assms(3) by (simp add: victim_filter_def seen_filter_def new_pipeline_def new_dedup_def)
  have "bloom_ok B" using A by (simp add: demo_setting_def)
  then have new: "\<not> bf_mem B (?id 0) (victim_filter ?d0)" unfolding f by (simp add: new_bloom_def bloom_ok_new(3))
  have sent: "env_send env j = Inr ()" if "j \<in> {0, 1, 2, 3, 4, 5, 6, 7}" for j
    using assms(2) that by (auto simp: demo_env_ok_def)
  note verdicts = demo_sends [OF A assms(2) w new a0 a1 a2 a3 a4 a5 refl refl refl refl refl refl, of addr]
  show ?thesis
    using verdicts(2) [unfolded f] verdicts(1,3-8) p0 p1 p2 p3 p4 p5 sent by (simp add: demo_main_def send_raw_def Let_def)
qed

lemma demo_failed_oks: "demo_failed results = length (filter Not (map (\<lambda>(_, ok, _). ok) results))"
  unfolding demo_failed_def by (induction results) auto

lemma digits: "show_nat 5 = ''5''" "show_nat 6 = ''6''"
  by code_simp+

lemma report_of:
  assumes "map (\<lambda>(_, ok, _). ok) results = [True, sound, True, True, True, True]"
  shows "demo_status results = (if sound then 0 else 1)" "length (demo_report results) = 11"
    "last (demo_report results) = (if sound then ''6/6 checks passed'' else ''5/6 checks passed'')"
proof -
  have "length results = 6" using arg_cong [OF assms, of length] by simp
  then show "demo_status results = (if sound then 0 else 1)" "length (demo_report results) = 11"
    "last (demo_report results) = (if sound then ''6/6 checks passed'' else ''5/6 checks passed'')"
    by (simp_all add: demo_status_def demo_report_def demo_failed_oks assms digits)
qed

text \<open>
  C40: How the demo ends: when the libraries are honest, the system gives each transport a port, the attacker's sends
  succeed, each packet is handled within the settle time and the readings
  fall within twenty seconds, the victim delivers the honest message and drops the replayed, the stale, the future
  and the duplicate one, each for the reason the script looks for; it drops the forged one for its signature
  exactly when the Bloom filter, which knows only the honest message's identifier, does not take the forged one's for it. So
  the script reports six checks of six passed and ends with status 0, or, on that false positive, reports five and ends with
  status 1; all transports are stopped, and the victim has relayed none of the attacker's packets.
\<close>

theorem demo_passes:
  assumes "demo_setting B C attacker T" "demo_env_ok T env" "attacker_bind (str ''127.0.0.1'') 0 = Inr p"
    and "bind 0 (str ''127.0.0.1'') 0 = Inr p0" "bind 1 (str ''127.0.0.1'') 0 = Inr p1" "bind 2 (str ''127.0.0.1'') 0 = Inr p2"
  shows "\<exists>b report status d t ds. bf_add B (env_id env 0) (new_bloom B) = Inr b \<and>
    attack_demo B C attacker ident bind attacker_bind env = Inr (report, status, d, t, ds) \<and> length report = 11 \<and>
    (if bf_mem B (env_id env 1) b then status = 1 \<and> last report = ''5/6 checks passed''
     else status = 0 \<and> last report = ''6/6 checks passed'') \<and>
    dm_sent d = [] \<and> \<not> running t \<and> list_all (\<lambda>d. \<not> running (sd_transport d) \<and> \<not> server (sd_transport d)) ds"
proof -
  obtain ds where ds: "build_mesh bind 3 = Inr ds" using build_mesh_victim [where bind = bind, OF assms(4-6)] by blast
  let ?v = "start_device B ident ds (ds ! 1)"
  have v: "dev_pipeline ?v = new_pipeline B None" by (simp add: start_device_def)
  obtain t :: "unit socket_transport" where t: "transport_start attacker_bind (new_transport (str ''127.0.0.1'') 0) = (Inr (), t)"
    using assms(3) by (simp add: transport_start_def new_transport_def)
  let ?t = "connect_peer (sd_address (ds ! 1)) t"
  obtain results d b where r: "bf_add B (env_id env 0) (new_bloom B) = Inr b"
    "demo_main B C attacker (transport_address ?t) env ?v = Inr (results, d)"
    "map (\<lambda>(_, ok, _). ok) results = [True, \<not> bf_mem B (env_id env 1) b, True, True, True, True]" "dm_sent d = []"
    using demo_main_verdicts [OF assms(1,2) v, of "transport_address ?t"] by (elim exE conjE) (rule that)
  have "attack_demo B C attacker ident bind attacker_bind env =
      Inr (demo_report results, demo_status results, d, transport_stop ?t, stop_all ds)"
    by (simp add: attack_demo_def ds t r(2) [unfolded One_nat_def] Let_def)
  moreover have "\<not> running (transport_stop ?t)" by (simp add: transport_stop_def Let_def)
  ultimately show ?thesis using r(1,4) report_of [OF r(3)] stop_all_stopped [of ds]
    by (intro exI [of _ b] exI [of _ "demo_report results"] exI [of _ "demo_status results"] exI [of _ d]
      exI [of _ "transport_stop ?t"] exI [of _ "stop_all ds"]) simp
qed

definition demo_draws :: demo_env where
  "demo_draws = \<lparr> env_now = (\<lambda>k. 1000), env_id = (\<lambda>k. replicate 16 (of_nat k)), env_send = (\<lambda>j. Inr ()),
     env_clk = (\<lambda>j. clocks_at 1001) \<rparr>"

theorem demo_passes_witness:
  "\<exists>report d t ds. attack_demo list_bloom toy_crypto demo_identity demo_identity demo_bind (\<lambda>h p. Inr 6000) demo_draws =
      Inr (report, 0, d, t, ds) \<and> last report = ''6/6 checks passed'' \<and> dm_sent d = []"
proof -
  have "replicate 64 0x99 \<noteq> toy_sign (replicate 32 7) x" for x
  proof -
    have "hd (replicate 64 0x99 :: bytes) \<noteq> hd (toy_sign (replicate 32 7) x)" by (simp add: toy_sign_def)
    then show ?thesis by metis
  qed
  then have "demo_setting list_bloom toy_crypto demo_identity 1000"
    by (simp add: demo_setting_def list_bloom_ok toy_ed25519_ok toy_ed25519_errors public_key_def
        demo_identity_def) (simp add: toy_crypto_def)
  moreover have "demo_env_ok 1000 demo_draws" by (simp add: demo_env_ok_def clk_in_def demo_draws_def)
  ultimately obtain b report status d t ds where r: "bf_add list_bloom (env_id demo_draws 0) (new_bloom list_bloom) = Inr b"
    "attack_demo list_bloom toy_crypto demo_identity demo_identity demo_bind (\<lambda>h p. Inr 6000) demo_draws = Inr (report, status, d, t, ds)"
    "if bf_mem list_bloom (env_id demo_draws 1) b then status = 1 \<and> last report = ''5/6 checks passed''
     else status = 0 \<and> last report = ''6/6 checks passed''" "dm_sent d = []"
    using demo_passes [of list_bloom toy_crypto demo_identity 1000 demo_draws "\<lambda>h p. Inr 6000" 6000 demo_bind 5000 5001 5002 demo_identity]
    by (fastforce simp: demo_bind_def)
  from r(1) have "\<not> bf_mem list_bloom (env_id demo_draws 1) b"
    by (auto simp: list_bloom_def new_bloom_def demo_draws_def split: if_splits)
  with r show ?thesis by auto
qed

end
