(* ===== verification/Attest_Threads.thy ===== *)
theory Attest_Threads
  imports Attestation Threads
begin

text \<open>
  The attestation cache under threads: \<^emph>\<open>AttestationCache.check\<close> runs on the threads of the connections while
  \<^emph>\<open>add_token\<close> is called by the application. A call is cut at its accesses to \<^emph>\<open>_expiry\<close>; the rest of it
  works on its own data and on fields that never change.
\<close>

datatype attest_call = CheckCall bytes | AddCall pystr

datatype attest_pc =
    AStart
  | ACompare bytes int              \<comment> \<open>if exp <= int(time.time())\<close>
  | ADelete bytes                   \<comment> \<open>del self._expiry[sender_key]\<close>
  | AStore bytes int                \<comment> \<open>self._expiry[sender_key] = exp\<close>
  | AChecked bytes "reason res"
  | AAdded "bytes res"

text \<open>A call at the clock it reads.\<close>

record attest_thread =
  at_now :: time
  at_call :: attest_call
  at_pc :: attest_pc

definition attest_thread_of :: "time \<Rightarrow> attest_call \<Rightarrow> attest_thread" where
  "attest_thread_of now c = \<lparr> at_now = now, at_call = c, at_pc = AStart \<rparr>"

definition attest_advance :: "crypto \<Rightarrow> decoders \<Rightarrow> attest_thread \<Rightarrow> attestation_cache \<Rightarrow> attest_thread \<times> attestation_cache" where
  "attest_advance C D th cache =
     (case at_pc th of
        AStart \<Rightarrow>
          (case at_call th of
             CheckCall k \<Rightarrow>
               (th\<lparr>at_pc := (case expiry cache k of
                    None \<Rightarrow> AChecked k (Inr (Some ''attestation failed: no valid ticket-bound identity token''))
                  | Some ex \<Rightarrow> ACompare k ex)\<rparr>, cache)
           | AddCall token \<Rightarrow>
               (th\<lparr>at_pc := (case add_token C D (at_now th, token) cache of
                    (Inl e, _) \<Rightarrow> AAdded (Inl e)
                  | (Inr k, cache') \<Rightarrow> AStore k (the (expiry cache' k)))\<rparr>, cache))
      | ACompare k ex \<Rightarrow> (th\<lparr>at_pc := if ex \<le> py_int (at_now th) then ADelete k else AChecked k (Inr None)\<rparr>, cache)
      | ADelete k \<Rightarrow>
          (if expiry cache k = None then (th\<lparr>at_pc := AChecked k (Inl KeyError)\<rparr>, cache)
           else (th\<lparr>at_pc := AChecked k (Inr (Some ''attestation failed: token expired''))\<rparr>,
                 cache\<lparr>expiry := (expiry cache)(k := None)\<rparr>))
      | AStore k ex \<Rightarrow> (th\<lparr>at_pc := AAdded (Inr k)\<rparr>, cache\<lparr>expiry := (expiry cache)(k \<mapsto> ex)\<rparr>)
      | AChecked k r \<Rightarrow> (th, cache)
      | AAdded r \<Rightarrow> (th, cache))"

section \<open>What a thread knows\<close>

text \<open>An expiry a thread holds is granted; a check that passed had one that has not run out.\<close>

definition attest_fine :: "crypto \<Rightarrow> decoders \<Rightarrow> attest_thread \<Rightarrow> attestation_cache \<Rightarrow> bool" where
  "attest_fine C D th cache \<longleftrightarrow>
     (case at_pc th of
        ACompare k ex \<Rightarrow> granted C D cache k ex
      | AStore k ex \<Rightarrow> granted C D cache k ex
      | AChecked k r \<Rightarrow> r = Inr None \<longrightarrow> (\<exists>ex. granted C D cache k ex \<and> py_int (at_now th) < ex)
      | _ \<Rightarrow> True)"

lemma attest_advance_frame:
  assumes "attest_advance C D th cache = (th', cache')"
  shows "verify_key cache' = verify_key cache" "event_id cache' = event_id cache" "at_now th' = at_now th"
  using assms by (auto simp: attest_advance_def split: attest_pc.splits attest_call.splits if_splits)

lemma granted_same:
  assumes "attest_advance C D th cache = (th', cache')"
  shows "granted C D cache' = granted C D cache"
  using attest_advance_frame [OF assms] by (intro granted_cong) simp_all

lemma add_token_granted:
  assumes "add_token C D req cache = (Inr k, cache')"
  shows "granted C D cache k (the (expiry cache' k)) \<and> expiry cache' = (expiry cache)(k \<mapsto> the (expiry cache' k))"
  using assms by (auto simp: add_token_def granted_def split: prod.splits sum.splits if_splits)

lemma attest_fine_cong:
  "granted C D cache' = granted C D cache \<Longrightarrow> attest_fine C D th cache' = attest_fine C D th cache"
  by (simp add: attest_fine_def split: attest_pc.split)

interpretation attest_threads: safe_threads "attest_advance C D" "attest_inv C D" "attest_fine C D" for C D
proof
  fix s l l' s' k
  assume good: "attest_inv C D s" and fine: "attest_fine C D l s" and step: "attest_advance C D l s = (l', s')"
  note same = granted_same [OF step]
  show "attest_fine C D k s \<Longrightarrow> attest_fine C D k s'" by (simp add: attest_fine_cong [OF same])
  have entry: "granted C D s x ex" if "expiry s x = Some ex" for x ex using good that by (simp add: attest_inv_def)
  have "attest_fine C D l' s \<and> (\<forall>x ex. expiry s' x = Some ex \<longrightarrow> granted C D s x ex)"
  proof (cases "at_pc l")
    case AStart
    show ?thesis
    proof (cases "at_call l")
      case (CheckCall k)
      with AStart step have "s' = s" "l' = l\<lparr>at_pc := (case expiry s k of
          None \<Rightarrow> AChecked k (Inr (Some ''attestation failed: no valid ticket-bound identity token''))
        | Some ex \<Rightarrow> ACompare k ex)\<rparr>" by (auto simp: attest_advance_def)
      then show ?thesis using entry by (cases "expiry s k") (simp_all add: attest_fine_def)
    next
      case (AddCall token)
      obtain r c where r: "add_token C D (at_now l, token) s = (r, c)" by fastforce
      with AStart AddCall step have "s' = s" "l' = l\<lparr>at_pc := (case r of Inl e \<Rightarrow> AAdded (Inl e)
        | Inr k \<Rightarrow> AStore k (the (expiry c k)))\<rparr>" by (auto simp: attest_advance_def split: sum.splits)
      then show ?thesis using entry add_token_granted r by (cases r) (auto simp: attest_fine_def)
    qed
  next
    case (ACompare k ex)
    then have g: "granted C D s k ex" using fine by (simp add: attest_fine_def)
    have l': "l' = l\<lparr>at_pc := if ex \<le> py_int (at_now l) then ADelete k else AChecked k (Inr None)\<rparr>" and s': "s' = s"
      using ACompare step by (simp_all add: attest_advance_def)
    have "attest_fine C D l' s"
    proof (cases "ex \<le> py_int (at_now l)")
      case False
      with g have "\<exists>x. granted C D s k x \<and> py_int (at_now l) < x" by (intro exI [of _ ex]) simp
      with False show ?thesis by (simp add: attest_fine_def l')
    qed (simp add: attest_fine_def l')
    with entry s' show ?thesis by blast
  next
    case (ADelete k)
    show ?thesis
    proof (cases "expiry s k = None")
      case True
      with ADelete step have "s' = s" "l' = l\<lparr>at_pc := AChecked k (Inl KeyError)\<rparr>" by (simp_all add: attest_advance_def)
      with entry show ?thesis by (simp add: attest_fine_def)
    next
      case False
      with ADelete step have "expiry s' = (expiry s)(k := None)"
        "l' = l\<lparr>at_pc := AChecked k (Inr (Some ''attestation failed: token expired''))\<rparr>"
        by (auto simp: attest_advance_def)
      with entry show ?thesis by (simp add: attest_fine_def)
    qed
  next
    case (AStore k ex)
    with step have "expiry s' = (expiry s)(k \<mapsto> ex)" "l' = l\<lparr>at_pc := AAdded (Inr k)\<rparr>"
      by (auto simp: attest_advance_def)
    moreover have "granted C D s k ex" using AStore fine by (simp add: attest_fine_def)
    ultimately show ?thesis using entry by (simp add: attest_fine_def)
  next
    case (AChecked k r)
    with step have "s' = s" "l' = l" by (simp_all add: attest_advance_def)
    with entry fine show ?thesis by blast
  next
    case (AAdded r)
    with step have "s' = s" "l' = l" by (simp_all add: attest_advance_def)
    with entry fine show ?thesis by blast
  qed
  moreover have "attest_fine C D l' s' = attest_fine C D l' s" by (rule attest_fine_cong [OF same])
  ultimately show "attest_inv C D s' \<and> attest_fine C D l' s'" by (simp add: attest_inv_def same)
qed

section \<open>What holds and what does not\<close>

text \<open>
  C25: Step 7 holds under threads: from a good cache, in every interleaving of any number of checks and
  additions, a check that lets a sender through does so on a token the organiser signed for that sender
  and this event, and that has not run out at the check's reading of the clock.
\<close>

theorem attest_threads_sound:
  assumes "attest_inv C D cache" "list_all (\<lambda>th. at_pc th = AStart) ths"
    and "(sched_step (attest_advance C D))\<^sup>*\<^sup>* (ths, cache) (ths', cache')"
    and "i < length ths'" "at_pc (ths' ! i) = AChecked k (Inr None)"
  shows "\<exists>token ex. read_token C D (verify_key cache') token = Inr (k, JStr (event_id cache'), ex) \<and>
    length k = 32 \<and> py_int (at_now (ths' ! i)) < ex"
proof -
  have "list_all (\<lambda>th. attest_fine C D th cache) ths"
    using assms(2) by (auto simp: list_all_iff attest_fine_def)
  from attest_threads.reached_fine [OF assms(3,1) this assms(4)] assms(5) show ?thesis
    by (auto simp: attest_fine_def granted_def)
qed

theorem attest_threads_sound_witness:
  "\<exists>ths cache token ex. (sched_step (attest_advance toy_crypto demo_decoders))\<^sup>*\<^sup>*
      ([attest_thread_of 2000 (CheckCall (replicate 32 10)), attest_thread_of 1000 (AddCall (demo_token demo_header))], demo_cache)
      (ths, cache) \<and>
    at_pc (ths ! 0) = AChecked (replicate 32 10) (Inr None) \<and>
    read_token toy_crypto demo_decoders (verify_key cache) token = Inr (replicate 32 10, JStr (event_id cache), ex) \<and> 2000 < ex"
proof -
  let ?ths = "[attest_thread_of 2000 (CheckCall (replicate 32 10)), attest_thread_of 1000 (AddCall (demo_token demo_header))]"
  let ?adv = "attest_advance toy_crypto demo_decoders"
  have inv: "attest_inv toy_crypto demo_decoders demo_cache" by (simp add: attest_inv_def demo_cache_def)
  obtain ths cache where c: "run_sched ?adv [1, 1, 0, 0] (?ths, demo_cache) = (ths, cache)" by fastforce
  with run_sched_steps [of "(?ths, demo_cache)" "[1, 1, 0, 0]" ?adv]
  have run: "(sched_step ?adv)\<^sup>*\<^sup>* (?ths, demo_cache) (ths, cache)" by simp
  have "length ths = 2 \<and> at_pc (ths ! 0) = AChecked (replicate 32 10) (Inr None) \<and> at_now (ths ! 0) = 2000"
    using c by (auto simp: attest_thread_of_def attest_advance_def demo_cache_add)
  with attest_threads_sound [OF inv _ run, of 0 "replicate 32 10"] run show ?thesis
    by (auto simp: attest_thread_of_def)
qed

text \<open>
  But a renewal can be lost: the entry of a sender has run out, a check has seen that and is about to
  delete it, and meanwhile a new token of the sender is added; the deletion then takes the new entry. Both calls
  return as if all were well, but the sender is refused from then on, although in either order of two
  undivided calls it passes.
\<close>

lemma race_loses_renewal:
  assumes "expiry cache k = Some old" "old \<le> py_int now" "add_token C D (now', token) cache = (Inr k, cache')"
    and "py_int now < the (expiry cache' k)" "py_int later < the (expiry cache' k)"
  shows "fst (attestation_check (later, k) (snd (add_token C D (now', token) (snd (attestation_check (now, k) cache))))) = Inr None \<and>
    fst (attestation_check (later, k) (snd (attestation_check (now, k) cache'))) = Inr None \<and>
    (\<exists>ths sh. (sched_step (attest_advance C D))\<^sup>*\<^sup>* ([attest_thread_of now (CheckCall k), attest_thread_of now' (AddCall token)], cache)
        (ths, sh) \<and>
      map at_pc ths = [AChecked k (Inr (Some ''attestation failed: token expired'')), AAdded (Inr k)] \<and>
      fst (attestation_check (later, k) sh) = Inr (Some ''attestation failed: no valid ticket-bound identity token''))"
proof -
  obtain ex where ex: "cache' = cache\<lparr>expiry := (expiry cache)(k \<mapsto> ex)\<rparr>"
    "read_token C D (verify_key cache) token = Inr (k, JStr (event_id cache), ex)" "py_int now' < ex" "length k = 32"
    using add_token_effect [where C = C and D = D and now = now' and token = token and cache = cache] assms(3) by auto
  have "fst (attestation_check (later, k) (snd (add_token C D (now', token) (snd (attestation_check (now, k) cache))))) = Inr None"
    using assms(1,2,5) ex by (simp add: attestation_check_def add_token_def)
  moreover have "fst (attestation_check (later, k) (snd (attestation_check (now, k) cache'))) = Inr None"
    using assms(4,5) ex(1) by (simp add: attestation_check_def)
  moreover have "\<exists>ths sh. (sched_step (attest_advance C D))\<^sup>*\<^sup>*
        ([attest_thread_of now (CheckCall k), attest_thread_of now' (AddCall token)], cache) (ths, sh) \<and>
      map at_pc ths = [AChecked k (Inr (Some ''attestation failed: token expired'')), AAdded (Inr k)] \<and>
      fst (attestation_check (later, k) sh) = Inr (Some ''attestation failed: no valid ticket-bound identity token'')"
  proof -
    let ?c = "([attest_thread_of now (CheckCall k), attest_thread_of now' (AddCall token)], cache)"
    obtain ths sh where c: "run_sched (attest_advance C D) [0, 0, 1, 1, 0] ?c = (ths, sh)" by fastforce
    have "map at_pc ths = [AChecked k (Inr (Some ''attestation failed: token expired'')), AAdded (Inr k)]" "expiry sh k = None"
      using c assms(1-3) ex(1) by (auto simp: attest_thread_of_def attest_advance_def)
    moreover have "(sched_step (attest_advance C D))\<^sup>*\<^sup>* ?c (ths, sh)"
      using run_sched_steps [of ?c "[0, 0, 1, 1, 0]" "attest_advance C D"] c by simp
    ultimately show ?thesis by (intro exI [of _ ths] exI [of _ sh]) (simp add: attestation_check_def)
  qed
  ultimately show ?thesis by blast
qed

lemma race_loses_renewal_witness:
  "\<exists>ths sh. (sched_step (attest_advance toy_crypto demo_decoders))\<^sup>*\<^sup>*
      ([attest_thread_of 900 (CheckCall (replicate 32 10)), attest_thread_of 1000 (AddCall (demo_token demo_header))],
       demo_cache\<lparr>expiry := [replicate 32 10 \<mapsto> 800]\<rparr>) (ths, sh) \<and>
    fst (attestation_check (1001, replicate 32 10) sh) = Inr (Some ''attestation failed: no valid ticket-bound identity token'')"
proof -
  let ?c = "demo_cache\<lparr>expiry := [replicate 32 10 \<mapsto> 800]\<rparr>"
  have "add_token toy_crypto demo_decoders (1000, demo_token demo_header) ?c =
      (Inr (replicate 32 10), ?c\<lparr>expiry := [replicate 32 10 \<mapsto> 5000]\<rparr>)"
    using demo_token_read by (simp add: add_token_def demo_cache_def)
  from race_loses_renewal [OF _ _ this, of 800 900 1001] show ?thesis by auto
qed

text \<open>Two checks of one expired entry: the second deletion raises \<^emph>\<open>KeyError\<close>, which no sequence of calls does.\<close>

lemma race_check_KeyError:
  assumes "expiry cache k = Some old" "old \<le> py_int now" "old \<le> py_int now'"
  shows "\<exists>ths sh. (sched_step (attest_advance C D))\<^sup>*\<^sup>*
      ([attest_thread_of now (CheckCall k), attest_thread_of now' (CheckCall k)], cache) (ths, sh) \<and>
    at_pc (ths ! 1) = AChecked k (Inl KeyError)"
proof -
  let ?c = "([attest_thread_of now (CheckCall k), attest_thread_of now' (CheckCall k)], cache)"
  obtain ths sh where c: "run_sched (attest_advance C D) [0, 0, 1, 1, 0, 1] ?c = (ths, sh)" by fastforce
  have "at_pc (ths ! 1) = AChecked k (Inl KeyError)"
    using c assms by (auto simp: attest_thread_of_def attest_advance_def)
  moreover have "(sched_step (attest_advance C D))\<^sup>*\<^sup>* ?c (ths, sh)"
    using run_sched_steps [of ?c "[0, 0, 1, 1, 0, 1]" "attest_advance C D"] c by simp
  ultimately show ?thesis by blast
qed

end
