(* ===== verification/Dedup_Threads.thy ===== *)
theory Dedup_Threads
  imports Dedup
begin

text \<open>
  \<^emph>\<open>DedupCache.check\<close> under the threads that call it. \<^emph>\<open>SocketTransport\<close> handles every connection
  on a thread of its own and all of them reach the one cache of the device's pipeline, which has no
  lock. Here a call is cut at its accesses to the shared objects: a program counter names the access
  that comes next, \<open>advance\<close> makes it, and \<open>tick\<close> lets any thread go on. A test or an update of the
  filter counts as one access. \<open>version\<close> is the counter by which an \<^emph>\<open>OrderedDict\<close> notices that it
  changed under an iterator.
\<close>

section \<open>One thread\<close>

record 'b shared_cache =
  shared :: "'b dedup_cache"
  version :: nat

datatype pc =
    AtTest                              \<comment> \<open>if msg_id in self._bloom\<close>
  | AtAdd                               \<comment> \<open>self._bloom.add(msg_id)\<close>
  | AtStore                             \<comment> \<open>self._lru[msg_id] = now\<close>
  | AtWhile                             \<comment> \<open>while self._lru\<close>
  | AtPeek                              \<comment> \<open>next(iter(self._lru.items()))\<close>
  | AtLen bytes time                    \<comment> \<open>len(self._lru) > CAPACITY or ...\<close>
  | AtDelete bytes                      \<comment> \<open>del self._lru[oldest_id]\<close>
  | AtLoad                              \<comment> \<open>the read of self._evictions_since_rebuild += 1\<close>
  | AtCount nat                         \<comment> \<open>and its write\<close>
  | AtThreshold                         \<comment> \<open>if self._evictions_since_rebuild >= ...\<close>
  | AtNew                               \<comment> \<open>self._bloom = self._new_bloom()\<close>
  | AtIter                              \<comment> \<open>for msg_id in self._lru: the iterator\<close>
  | AtNext "bytes list" nat             \<comment> \<open>its next key\<close>
  | AtRefill bytes "bytes list" nat     \<comment> \<open>self._bloom.add(msg_id)\<close>
  | AtReset                             \<comment> \<open>self._evictions_since_rebuild = 0\<close>
  | Returned "reason res"

definition on_cache :: "('b dedup_cache \<Rightarrow> 'b dedup_cache) \<Rightarrow> 'b shared_cache \<Rightarrow> 'b shared_cache" where
  "on_cache f sh = sh\<lparr>shared := f (shared sh)\<rparr>"

definition bump :: "'b shared_cache \<Rightarrow> 'b shared_cache" where
  "bump sh = sh\<lparr>version := version sh + 1\<rparr>"

fun advance :: "'b bloom_ops \<Rightarrow> bytes \<Rightarrow> time \<Rightarrow> pc \<Rightarrow> 'b shared_cache \<Rightarrow> pc \<times> 'b shared_cache" where
  "advance B mid now AtTest sh =
     (if bf_mem B mid (bloom (shared sh)) then (Returned (Inr (Some duplicate_reason)), sh) else (AtAdd, sh))"
| "advance B mid now AtAdd sh =
     (case bf_add B mid (bloom (shared sh)) of
        Inl e \<Rightarrow> (Returned (Inl e), sh)
      | Inr b \<Rightarrow> (AtStore, on_cache (bloom_update (\<lambda>_. b)) sh))"
| "advance B mid now AtStore sh =
     (AtWhile, (if mid \<in> fst ` set (lru (shared sh)) then id else bump)
                 (on_cache (lru_update (AList.update mid now)) sh))"
| "advance B mid now AtWhile sh = (if lru (shared sh) = [] then AtThreshold else AtPeek, sh)"
| "advance B mid now AtPeek sh =
     (case lru (shared sh) of
        [] \<Rightarrow> (Returned (Inl StopIteration), sh)
      | (oldest_id, seen_at) # _ \<Rightarrow> (AtLen oldest_id seen_at, sh))"
| "advance B mid now (AtLen oldest_id seen_at) sh =
     (if length (lru (shared sh)) > CAPACITY \<or> now - seen_at > TTL_SECONDS
      then AtDelete oldest_id else AtThreshold, sh)"
| "advance B mid now (AtDelete oldest_id) sh =
     (if oldest_id \<in> fst ` set (lru (shared sh))
      then (AtLoad, bump (on_cache (lru_update (AList.delete oldest_id)) sh))
      else (Returned (Inl KeyError), sh))"
| "advance B mid now AtLoad sh = (AtCount (evictions_since_rebuild (shared sh)), sh)"
| "advance B mid now (AtCount n) sh = (AtWhile, on_cache (evictions_since_rebuild_update (\<lambda>_. n + 1)) sh)"
| "advance B mid now AtThreshold sh =
     (if evictions_since_rebuild (shared sh) \<ge> REBUILD_EVICTION_THRESHOLD then AtNew else Returned (Inr None), sh)"
| "advance B mid now AtNew sh = (AtIter, on_cache (bloom_update (\<lambda>_. new_bloom B)) sh)"
| "advance B mid now AtIter sh = (AtNext (map fst (lru (shared sh))) (version sh), sh)"
| "advance B mid now (AtNext [] v) sh = (AtReset, sh)"
| "advance B mid now (AtNext (k # ks) v) sh =
     (if version sh \<noteq> v then Returned (Inl RuntimeError) else AtRefill k ks v, sh)"
| "advance B mid now (AtRefill k ks v) sh =
     (case bf_add B k (bloom (shared sh)) of
        Inl e \<Rightarrow> (Returned (Inl e), sh)
      | Inr b \<Rightarrow> (AtNext ks v, on_cache (bloom_update (\<lambda>_. b)) sh))"
| "advance B mid now AtReset sh =
     (Returned (Inr None), on_cache (evictions_since_rebuild_update (\<lambda>_. 0)) sh)"
| "advance B mid now (Returned r) sh = (Returned r, sh)"

section \<open>A thread on its own\<close>

text \<open>\<open>alone\<close>: the thread runs on without any other between its accesses.\<close>

definition solo :: "'b bloom_ops \<Rightarrow> bytes \<Rightarrow> time \<Rightarrow> pc \<times> 'b shared_cache \<Rightarrow> pc \<times> 'b shared_cache \<Rightarrow> bool" where
  "solo B mid now x y \<longleftrightarrow> (case x of (pc, sh) \<Rightarrow> y = advance B mid now pc sh)"

abbreviation alone :: "'b bloom_ops \<Rightarrow> bytes \<Rightarrow> time \<Rightarrow> pc \<times> 'b shared_cache \<Rightarrow> pc \<times> 'b shared_cache \<Rightarrow> bool" where
  "alone B mid now \<equiv> (solo B mid now)\<^sup>*\<^sup>*"

lemma shared_cacheE:
  obtains l b n v where "sh = \<lparr> shared = \<lparr> lru = l, bloom = b, evictions_since_rebuild = n \<rparr>, version = v \<rparr>"
  by (metis (full_types) dedup_cache.cases shared_cache.cases)

lemma alone_step: "alone B mid now (advance B mid now pc sh) z \<Longrightarrow> alone B mid now (pc, sh) z"
  by (rule converse_rtranclp_into_rtranclp) (simp_all add: solo_def)

text \<open>The eviction loop, from its test on.\<close>

lemma alone_peek:
  assumes "lru (shared sh) = (k, t) # rest" "alone B mid now (AtLen k t, sh) z"
  shows "alone B mid now (AtWhile, sh) z"
  by (rule alone_step, simp add: assms(1), rule alone_step, simp add: assms)

lemma alone_pop:
  assumes "lru (shared sh) = (k, t) # rest" "k \<notin> fst ` set rest"
    and "length (lru (shared sh)) > CAPACITY \<or> now - t > TTL_SECONDS"
    and "alone B mid now (AtWhile, \<lparr> shared = (shared sh)\<lparr>lru := rest, evictions_since_rebuild :=
      evictions_since_rebuild (shared sh) + 1\<rparr>, version = version sh + 1 \<rparr>) z"
  shows "alone B mid now (AtLen k t, sh) z"
proof -
  have "AList.delete k ((k, t) # rest) = rest" using assms(2) by (simp add: delete_id)
  moreover obtain l b n v where
    "sh = \<lparr> shared = \<lparr> lru = l, bloom = b, evictions_since_rebuild = n \<rparr>, version = v \<rparr>" by (rule shared_cacheE)
  ultimately have "alone B mid now (AtDelete k, sh) z"
    using assms(1,4) by (rule_tac alone_step, simp add: bump_def on_cache_def, rule_tac alone_step, simp,
        rule_tac alone_step, simp add: on_cache_def)
  then show ?thesis using assms(3) by (rule_tac alone_step) simp
qed

lemma alone_evict_loop:
  assumes "distinct (map fst xs)" "lru (shared sh) = xs" "evictions_since_rebuild (shared sh) = n"
  shows "\<exists>v. alone B mid now (AtWhile, sh)
    (AtThreshold, case evict_loop now xs n of (l, n') \<Rightarrow>
       \<lparr> shared = (shared sh)\<lparr>lru := l, evictions_since_rebuild := n'\<rparr>, version = v \<rparr>)"
  using assms
proof (induction now xs n arbitrary: sh rule: evict_loop.induct)
  case (1 now n)
  then have "sh = \<lparr> shared = (shared sh)\<lparr>lru := [], evictions_since_rebuild := n\<rparr>, version = version sh \<rparr>" by simp
  moreover have "alone B mid now (AtWhile, sh) (AtThreshold, sh)"
    by (rule alone_step) (simp add: 1)
  ultimately show ?case by (auto intro!: exI [of _ "version sh"])
next
  case (2 now k t rest n)
  let ?xs = "(k, t) # rest"
  show ?case
  proof (cases "length ?xs > CAPACITY \<or> now - t > TTL_SECONDS")
    case True
    let ?sh = "\<lparr> shared = (shared sh)\<lparr>lru := rest, evictions_since_rebuild := n + 1\<rparr>, version = version sh + 1 \<rparr>"
    from "2.IH" [OF True, of ?sh] "2.prems" obtain v where v:
      "alone B mid now (AtWhile, ?sh) (AtThreshold, case evict_loop now rest (n + 1) of (l, n') \<Rightarrow>
        \<lparr> shared = (shared sh)\<lparr>lru := l, evictions_since_rebuild := n'\<rparr>, version = v \<rparr>)" by auto
    have "alone B mid now (AtWhile, sh) (AtThreshold, case evict_loop now rest (n + 1) of (l, n') \<Rightarrow>
        \<lparr> shared = (shared sh)\<lparr>lru := l, evictions_since_rebuild := n'\<rparr>, version = v \<rparr>)"
      using "2.prems" True v by (intro alone_peek [of sh k t rest] alone_pop [of sh k t rest]) auto
    with True show ?thesis by (intro exI [of _ v]) simp
  next
    case False
    have "alone B mid now (AtWhile, sh) (AtThreshold, sh)"
      using "2.prems" False by (intro alone_peek [of sh k t rest] alone_step) auto
    moreover have "sh = \<lparr> shared = (shared sh)\<lparr>lru := ?xs, evictions_since_rebuild := n\<rparr>, version = version sh \<rparr>"
      using "2.prems" by simp
    ultimately show ?thesis using False by (auto intro!: exI [of _ "version sh"])
  qed
qed

lemma on_cache_bloom [simp]:
  "on_cache (bloom_update (\<lambda>_. a)) (on_cache (bloom_update (\<lambda>_. b)) sh) = on_cache (bloom_update (\<lambda>_. a)) sh"
  "on_cache (bloom_update (\<lambda>_. bloom (shared sh))) sh = sh"
  "shared (on_cache f sh) = f (shared sh)" "version (on_cache f sh) = version sh"
  by (simp_all add: on_cache_def)

lemma shared_cache_eta [simp]: "\<lparr> shared = shared sh, version = version sh \<rparr> = sh"
  by simp

text \<open>The rebuild, from the first key on: it ends as \<open>add_all\<close> does.\<close>

lemma alone_refill:
  assumes "version sh = v"
  shows "alone B mid now (AtNext ks v, sh)
    (case add_all B ks (bloom (shared sh)) of
       (Inl e, b) \<Rightarrow> (Returned (Inl e), on_cache (bloom_update (\<lambda>_. b)) sh)
     | (Inr _, b) \<Rightarrow> (AtReset, on_cache (bloom_update (\<lambda>_. b)) sh))"
  using assms
proof (induction ks arbitrary: sh)
  case Nil
  show ?case by (rule alone_step) simp
next
  case (Cons k ks)
  let ?z = "case add_all B (k # ks) (bloom (shared sh)) of
       (Inl e, b) \<Rightarrow> (Returned (Inl e), on_cache (bloom_update (\<lambda>_. b)) sh)
     | (Inr _, b) \<Rightarrow> (AtReset, on_cache (bloom_update (\<lambda>_. b)) sh)"
  have "alone B mid now (AtRefill k ks v, sh) ?z"
  proof (cases "bf_add B k (bloom (shared sh))")
    case (Inl e)
    show ?thesis by (rule alone_step) (simp add: Inl)
  next
    case (Inr b)
    from Cons.IH [of "on_cache (bloom_update (\<lambda>_. b)) sh"] Cons.prems Inr show ?thesis
      by (intro alone_step) (simp split: prod.splits sum.splits)
  qed
  with Cons.prems show ?case by (intro alone_step [where pc = "AtNext (k # ks) v"]) simp
qed

abbreviation accepted :: "unit res \<Rightarrow> reason res" where
  "accepted r \<equiv> res_bind r (\<lambda>_. Inr None)"

lemma alone_evict:
  assumes "distinct (map fst (lru (shared sh)))"
  shows "\<exists>v. alone B mid now (AtWhile, sh)
    (Returned (accepted (fst (dedup_evict B now (shared sh)))),
     \<lparr> shared = snd (dedup_evict B now (shared sh)), version = v \<rparr>)"
proof -
  obtain l n where ln: "evict_loop now (lru (shared sh)) (evictions_since_rebuild (shared sh)) = (l, n)" by fastforce
  obtain v where "alone B mid now (AtWhile, sh)
      (AtThreshold, \<lparr> shared = (shared sh)\<lparr>lru := l, evictions_since_rebuild := n\<rparr>, version = v \<rparr>)"
    using alone_evict_loop [OF assms refl refl, of B mid now] ln by auto
  moreover let ?sh = "\<lparr> shared = (shared sh)\<lparr>lru := l, evictions_since_rebuild := n\<rparr>, version = v \<rparr>"
  have "alone B mid now (AtThreshold, ?sh)
    (Returned (accepted (fst (dedup_evict B now (shared sh)))),
     \<lparr> shared = snd (dedup_evict B now (shared sh)), version = v \<rparr>)" (is "alone _ _ _ _ ?z")
  proof (cases "n \<ge> REBUILD_EVICTION_THRESHOLD")
    case False
    with ln show ?thesis by (intro alone_step) (simp add: dedup_evict_def)
  next
    case True
    let ?new = "on_cache (bloom_update (\<lambda>_. new_bloom B)) ?sh"
    obtain r b where r: "add_all B (map fst l) (new_bloom B) = (r, b)" by fastforce
    from alone_refill [of ?new v B mid now "map fst l"] r
    have refill: "alone B mid now (AtNext (map fst l) v, ?new)
      (case r of Inl e \<Rightarrow> (Returned (Inl e), on_cache (bloom_update (\<lambda>_. b)) ?sh)
       | Inr _ \<Rightarrow> (AtReset, on_cache (bloom_update (\<lambda>_. b)) ?sh))"
      by (cases r) (simp_all add: on_cache_def)
    have "alone B mid now (AtNext (map fst l) v, ?new) ?z"
    proof (cases r)
      case (Inl e)
      with refill r ln True show ?thesis by (simp add: dedup_evict_def Let_def on_cache_def)
    next
      case (Inr u)
      have "alone B mid now (AtReset, on_cache (bloom_update (\<lambda>_. b)) ?sh) ?z"
        using Inr r ln True by (intro alone_step) (simp add: dedup_evict_def Let_def on_cache_def)
      with refill Inr show ?thesis by (simp add: rtranclp_trans)
    qed
    moreover have "alone B mid now (AtNext (map fst l) v, ?new) z \<Longrightarrow> alone B mid now (AtThreshold, ?sh) z" for z
      using True by (rule_tac alone_step, simp, rule_tac alone_step, simp, rule_tac alone_step, simp add: on_cache_def)
    ultimately show ?thesis by blast
  qed
  ultimately show ?thesis by (meson rtranclp_trans)
qed

text \<open>From the update of the filter on.\<close>

definition recorded :: "'b \<Rightarrow> bytes \<Rightarrow> time \<Rightarrow> 'b dedup_cache \<Rightarrow> 'b dedup_cache" where
  "recorded b mid now s = s\<lparr>bloom := b, lru := AList.update mid now (lru s)\<rparr>"

lemma alone_store:
  assumes "bf_add B mid (bloom (shared sh)) = Inr b"
  shows "\<exists>v. alone B mid now (AtAdd, sh) (AtWhile, \<lparr> shared = recorded b mid now (shared sh), version = v \<rparr>)"
proof -
  let ?s = "recorded b mid now (shared sh)"
  define v where "v = (if mid \<in> fst ` set (lru (shared sh)) then version sh else version sh + 1)"
  have "(if mid \<in> fst ` set (lru (shared sh)) then id else bump) (on_cache (lru_update (AList.update mid now))
      (on_cache (bloom_update (\<lambda>_. b)) sh)) = \<lparr> shared = ?s, version = v \<rparr>"
    by (rule shared_cacheE [of sh]) (auto simp: v_def on_cache_def bump_def recorded_def)
  then have "alone B mid now (AtAdd, sh) (AtWhile, \<lparr> shared = ?s, version = v \<rparr>)"
    by (rule_tac alone_step, simp add: assms, rule_tac alone_step, simp)
  then show ?thesis by blast
qed

lemma recorded_distinct:
  "distinct (map fst (lru s)) \<Longrightarrow> distinct (map fst (lru (recorded b mid now s)))"
  by (simp add: recorded_def distinct_update)

lemma alone_from_add:
  assumes "distinct (map fst (lru (shared sh)))" "bf_add B mid (bloom (shared sh)) = Inr b"
  shows "\<exists>v. alone B mid now (AtAdd, sh)
    (Returned (accepted (fst (dedup_evict B now (recorded b mid now (shared sh))))),
     \<lparr> shared = snd (dedup_evict B now (recorded b mid now (shared sh))), version = v \<rparr>)"
proof -
  obtain v where v: "alone B mid now (AtAdd, sh) (AtWhile, \<lparr> shared = recorded b mid now (shared sh), version = v \<rparr>)"
    using alone_store [of B mid sh b now, OF assms(2)] by blast
  from alone_evict [of "\<lparr> shared = recorded b mid now (shared sh), version = v \<rparr>" B mid now]
  show ?thesis using recorded_distinct [OF assms(1)] rtranclp_trans [OF v] by fastforce
qed

lemma alone_check:
  assumes "distinct (map fst (lru (shared sh)))"
  shows "\<exists>v. alone B mid now (AtTest, sh)
    (Returned (fst (dedup_check B (now, mid) (shared sh))),
     \<lparr> shared = snd (dedup_check B (now, mid) (shared sh)), version = v \<rparr>)"
proof (cases "bf_mem B mid (bloom (shared sh)) \<or> (\<exists>e. bf_add B mid (bloom (shared sh)) = Inl e)")
  case True
  then have "alone B mid now (AtTest, sh)
    (Returned (fst (dedup_check B (now, mid) (shared sh))),
     \<lparr> shared = snd (dedup_check B (now, mid) (shared sh)), version = version sh \<rparr>)"
    by (cases "bf_mem B mid (bloom (shared sh))")
      (rule alone_step, simp add: dedup_check_def,
       rule alone_step, auto simp: dedup_check_def intro!: alone_step [where pc = AtAdd])
  then show ?thesis by blast
next
  case False
  then obtain b where b: "\<not> bf_mem B mid (bloom (shared sh))" "bf_add B mid (bloom (shared sh)) = Inr b"
    by (cases "bf_add B mid (bloom (shared sh))") auto
  have "dedup_check B (now, mid) (shared sh) =
      (accepted (fst (dedup_evict B now (recorded b mid now (shared sh)))),
       snd (dedup_evict B now (recorded b mid now (shared sh))))"
    by (auto simp: dedup_check_def b recorded_def split: prod.splits sum.splits)
  moreover obtain v where "alone B mid now (AtAdd, sh)
      (Returned (accepted (fst (dedup_evict B now (recorded b mid now (shared sh))))),
       \<lparr> shared = snd (dedup_evict B now (recorded b mid now (shared sh))), version = v \<rparr>)"
    using alone_from_add [of sh B mid b now, OF assms b(2)] by blast
  ultimately show ?thesis using b(1) by (intro exI [of _ v] alone_step) simp
qed

section \<open>Many threads\<close>

record thread =
  th_mid :: bytes
  th_now :: time
  th_pc :: pc

definition new_thread :: "bytes \<Rightarrow> time \<Rightarrow> thread" where
  "new_thread mid now = \<lparr> th_mid = mid, th_now = now, th_pc = AtTest \<rparr>"

type_synonym 'b threads = "thread list \<times> 'b shared_cache"

text \<open>\<open>tick B pc\<close>: some thread makes the access \<open>pc\<close>.\<close>

inductive tick :: "'b bloom_ops \<Rightarrow> pc \<Rightarrow> 'b threads \<Rightarrow> 'b threads \<Rightarrow> bool" for B where
  go: "i < length ts \<Longrightarrow> th_pc (ts ! i) = pc \<Longrightarrow>
    advance B (th_mid (ts ! i)) (th_now (ts ! i)) pc sh = (pc', sh') \<Longrightarrow>
    tick B pc (ts, sh) (ts[i := (ts ! i)\<lparr>th_pc := pc'\<rparr>], sh')"

definition interleave :: "'b bloom_ops \<Rightarrow> 'b threads \<Rightarrow> 'b threads \<Rightarrow> bool" where
  "interleave B c c' \<longleftrightarrow> (\<exists>pc. tick B pc c c')"

text \<open>Runs in which nobody replaces the filter.\<close>

definition calm :: "'b bloom_ops \<Rightarrow> 'b threads \<Rightarrow> 'b threads \<Rightarrow> bool" where
  "calm B c c' \<longleftrightarrow> (\<exists>pc. pc \<noteq> AtNew \<and> tick B pc c c')"

text \<open>A schedule names the thread that goes next.\<close>

fun run_schedule :: "'b bloom_ops \<Rightarrow> nat list \<Rightarrow> 'b threads \<Rightarrow> 'b threads" where
  "run_schedule B [] c = c"
| "run_schedule B (i # is') (ts, sh) =
     (case advance B (th_mid (ts ! i)) (th_now (ts ! i)) (th_pc (ts ! i)) sh of
        (pc', sh') \<Rightarrow> run_schedule B is' (ts[i := (ts ! i)\<lparr>th_pc := pc'\<rparr>], sh'))"

lemma interleave_go:
  assumes "i < length ts" "advance B (th_mid (ts ! i)) (th_now (ts ! i)) (th_pc (ts ! i)) sh = (pc', sh')"
  shows "interleave B (ts, sh) (ts[i := (ts ! i)\<lparr>th_pc := pc'\<rparr>], sh')"
  unfolding interleave_def using tick.go [OF assms(1) refl assms(2)] by blast

lemma run_schedule_interleave:
  assumes "list_all (\<lambda>i. i < length (fst c)) is'"
  shows "(interleave B)\<^sup>*\<^sup>* c (run_schedule B is' c)"
  using assms
proof (induction B is' c rule: run_schedule.induct)
  case (2 B i is' ts sh)
  obtain pc' sh' where a: "advance B (th_mid (ts ! i)) (th_now (ts ! i)) (th_pc (ts ! i)) sh = (pc', sh')" by fastforce
  have "interleave B (ts, sh) (ts[i := (ts ! i)\<lparr>th_pc := pc'\<rparr>], sh')"
    using 2 a by (intro interleave_go) simp_all
  with 2 a show ?case by (simp add: converse_rtranclp_into_rtranclp [where r = "interleave B"])
qed simp

lemma interleave_alone:
  assumes "alone B (th_mid (ts ! i)) (th_now (ts ! i)) (th_pc (ts ! i), sh) (pc', sh')" "i < length ts"
  shows "(interleave B)\<^sup>*\<^sup>* (ts, sh) (ts[i := (ts ! i)\<lparr>th_pc := pc'\<rparr>], sh')"
  using assms(1)
proof (induction "(pc', sh')" arbitrary: pc' sh' rule: rtranclp_induct)
  case base
  then show ?case by simp
next
  case (step y)
  obtain pc1 sh1 where y: "y = (pc1, sh1)" by fastforce
  have "interleave B (ts[i := (ts ! i)\<lparr>th_pc := pc1\<rparr>], sh1) (ts[i := (ts ! i)\<lparr>th_pc := pc'\<rparr>], sh')"
    using interleave_go [of i "ts[i := (ts ! i)\<lparr>th_pc := pc1\<rparr>]" B sh1 pc' sh'] step(2) assms(2)
    by (simp add: y solo_def)
  with step(3) [OF y] show ?case by simp
qed

text \<open>Whatever the order, the LRU has distinct keys, as an \<^emph>\<open>OrderedDict\<close> has.\<close>

lemma advance_distinct:
  assumes "distinct (map fst (lru (shared sh)))"
  shows "distinct (map fst (lru (shared (snd (advance B mid now pc sh)))))"
  using assms
  by (cases "(B, mid, now, pc, sh)" rule: advance.cases)
    (auto simp: bump_def on_cache_def distinct_update distinct_delete split: sum.splits list.splits)

lemma advance_mem:
  assumes "bloom_ok B" "bf_mem B m (bloom (shared sh))" "pc \<noteq> AtNew"
  shows "bf_mem B m (bloom (shared (snd (advance B mid now pc sh))))"
  using assms
  by (cases "(B, mid, now, pc, sh)" rule: advance.cases)
    (auto simp: bump_def on_cache_def bloom_ok_add split: sum.splits list.splits)

section \<open>What holds and what does not\<close>

text \<open>
  C15: A call that is not interrupted is the sequential one: from its first access on, a thread that
  runs alone returns, after finitely many accesses, what \<^emph>\<open>DedupCache.check\<close> returns, and leaves the
  cache as it does. With a lock around the call everything proved of the cache would hold of the
  threads.
\<close>

theorem thread_alone_refines:
  assumes "distinct (map fst (lru (shared sh)))"
  shows "\<exists>n v. ((\<lambda>(pc, sh). advance B mid now pc sh) ^^ n) (AtTest, sh) =
    (Returned (fst (dedup_check B (now, mid) (shared sh))),
     \<lparr> shared = snd (dedup_check B (now, mid) (shared sh)), version = v \<rparr>)"
proof -
  have eq: "solo B mid now x y \<longleftrightarrow> y = (\<lambda>(pc, sh). advance B mid now pc sh) x" for x y
    by (simp add: solo_def split: prod.splits)
  have "\<exists>n. y = ((\<lambda>(pc, sh). advance B mid now pc sh) ^^ n) x" if "alone B mid now x y" for x y
    using that
  proof (induction rule: rtranclp_induct)
    case base
    show ?case by (intro exI [of _ 0]) simp
  next
    case (step y z)
    then obtain n where "y = ((\<lambda>(pc, sh). advance B mid now pc sh) ^^ n) x" by blast
    with step(2) show ?case by (intro exI [of _ "Suc n"]) (simp add: eq)
  qed
  with alone_check [OF assms, of B mid now] show ?thesis by metis
qed

theorem thread_alone_refines_witness:
  "\<exists>n v. ((\<lambda>(pc, sh). advance list_bloom [1] 5 pc sh) ^^ n) (AtTest, \<lparr> shared = new_dedup list_bloom, version = 0 \<rparr>) =
    (Returned (Inr None), \<lparr> shared = snd (dedup_check list_bloom (5, [1]) (new_dedup list_bloom)), version = v \<rparr>)"
proof -
  have "fst (dedup_check list_bloom (5, [1]) (new_dedup list_bloom)) = Inr None"
    by (simp add: dedup_check_def new_dedup_def new_bloom_def list_bloom_def dedup_evict_def)
  with thread_alone_refines [of "\<lparr> shared = new_dedup list_bloom, version = 0 \<rparr>" list_bloom "[1]" 5]
  show ?thesis by (simp add: new_dedup_def)
qed

text \<open>
  Without a rebuild nothing is forgotten: once an identifier is in the filter, every thread that
  still has its first access to make refuses that identifier, in every interleaving of any number of
  threads in which the filter is not replaced.
\<close>

lemma threads_remember:
  assumes "bloom_ok B" "bf_mem B m (bloom (shared sh))" "(calm B)\<^sup>*\<^sup>* (ts, sh) (ts', sh')"
    and "i < length ts" "th_mid (ts ! i) = m" "th_pc (ts ! i) = AtTest"
  shows "th_pc (ts' ! i) = AtTest \<or> th_pc (ts' ! i) = Returned (Inr (Some duplicate_reason))"
proof -
  let ?I = "\<lambda>(ts', sh'). bf_mem B m (bloom (shared sh')) \<and> length ts' = length ts \<and> th_mid (ts' ! i) = m \<and>
    (th_pc (ts' ! i) = AtTest \<or> th_pc (ts' ! i) = Returned (Inr (Some duplicate_reason)))"
  have "?I c'" if "(calm B)\<^sup>*\<^sup>* (ts, sh) c'" for c'
    using that
  proof (induction rule: rtranclp_induct)
    case base
    then show ?case using assms by simp
  next
    case (step c c')
    from step(2) obtain pc where pc: "pc \<noteq> AtNew" "tick B pc c c'" by (auto simp: calm_def)
    from pc(2) show ?case
    proof cases
      case (go j ts1 sh1 pc' sh2)
      have "bf_mem B m (bloom (shared sh2))"
        using advance_mem [OF assms(1) _ pc(1)] step(3) go by (metis (no_types, lifting) case_prod_conv snd_conv)
      with step(3) go show ?thesis by (cases "j = i") auto
    qed
  qed
  from this [OF assms(3)] show ?thesis by simp
qed

lemma calm_go:
  assumes "i < length ts" "th_pc (ts ! i) \<noteq> AtNew"
    and "advance B (th_mid (ts ! i)) (th_now (ts ! i)) (th_pc (ts ! i)) sh = (pc', sh')"
  shows "calm B (ts, sh) (ts[i := (ts ! i)\<lparr>th_pc := pc'\<rparr>], sh')"
  unfolding calm_def using tick.go [OF assms(1) refl assms(3)] assms(2) by blast

lemma threads_remember_witness:
  "\<exists>ts sh'. (calm list_bloom)\<^sup>*\<^sup>* ([new_thread [2] 5, new_thread [1] 5],
      \<lparr> shared = (new_dedup list_bloom)\<lparr>bloom := (9, [[1]])\<rparr>, version = 0 \<rparr>) (ts, sh') \<and>
    th_pc (ts ! 0) = AtStore \<and> (th_pc (ts ! 1) = AtTest \<or> th_pc (ts ! 1) = Returned (Inr (Some duplicate_reason)))"
proof -
  let ?b = "\<lambda>b. \<lparr> shared = (new_dedup list_bloom)\<lparr>bloom := (9, b)\<rparr>, version = 0 \<rparr>"
  let ?ts = "\<lambda>p q. [(new_thread [2] 5)\<lparr>th_pc := p\<rparr>, (new_thread [1] 5)\<lparr>th_pc := q\<rparr>]"
  have "calm list_bloom (?ts AtTest AtTest, ?b [[1]]) (?ts AtAdd AtTest, ?b [[1]])"
    using calm_go [of 0 "?ts AtTest AtTest" list_bloom "?b [[1]]"] by (simp add: new_thread_def list_bloom_def)
  moreover have "calm list_bloom (?ts AtAdd AtTest, ?b [[1]]) (?ts AtStore AtTest, ?b [[2], [1]])"
    using calm_go [of 0 "?ts AtAdd AtTest" list_bloom "?b [[1]]"]
    by (simp add: new_thread_def list_bloom_def on_cache_def)
  moreover have "calm list_bloom (?ts AtStore AtTest, ?b [[2], [1]])
      (?ts AtStore (Returned (Inr (Some duplicate_reason))), ?b [[2], [1]])"
    using calm_go [of 1 "?ts AtStore AtTest" list_bloom "?b [[2], [1]]"] by (simp add: new_thread_def list_bloom_def)
  ultimately have run: "(calm list_bloom)\<^sup>*\<^sup>* (?ts AtTest AtTest, ?b [[1]])
      (?ts AtStore (Returned (Inr (Some duplicate_reason))), ?b [[2], [1]])"
    by (meson converse_rtranclp_into_rtranclp rtranclp.rtrancl_refl)
  have "bf_mem list_bloom [1] (bloom (shared (?b [[1]])))" by (simp add: list_bloom_def)
  from threads_remember [OF list_bloom_ok this run, of 1]
  have "th_pc (?ts AtStore (Returned (Inr (Some duplicate_reason))) ! 1) = AtTest \<or>
    th_pc (?ts AtStore (Returned (Inr (Some duplicate_reason))) ! 1) = Returned (Inr (Some duplicate_reason))"
    by (simp add: new_thread_def)
  moreover have "?ts AtTest AtTest = [new_thread [2] 5, new_thread [1] 5]" by (simp add: new_thread_def)
  ultimately show ?thesis
    using run by (intro exI [of _ "?ts AtStore (Returned (Inr (Some duplicate_reason)))"] exI [of _ "?b [[2], [1]]"]) simp
qed

lemma dedup_evict_returns:
  assumes "bloom_ok B"
  shows "fst (dedup_evict B now s) = Inr ()"
proof -
  obtain l n where ln: "evict_loop now (lru s) (evictions_since_rebuild s) = (l, n)" by fastforce
  then have "length l \<le> CAPACITY" using evict_loop_length [of now "lru s" "evictions_since_rebuild s"] by simp
  then have "bf_count B (new_bloom B) + length (map fst l) \<le> bf_capacity B (new_bloom B)"
    using assms by (simp add: new_bloom_def bloom_ok_new)
  from add_all_ok [OF assms this] show ?thesis using ln by (auto simp: dedup_evict_def Let_def)
qed

lemma alone_accepts:
  assumes "bloom_ok B" "distinct (map fst (lru (shared sh)))"
    and "bf_count B (bloom (shared sh)) < bf_capacity B (bloom (shared sh))"
  shows "\<exists>sh'. alone B mid now (AtAdd, sh) (Returned (Inr None), sh')"
proof -
  obtain b where "bf_add B mid (bloom (shared sh)) = Inr b" using bloom_ok_total [OF assms(1,3)] by blast
  from alone_from_add [OF assms(2) this, of now] dedup_evict_returns [OF assms(1)] show ?thesis by auto
qed

text \<open>
  C16: But the test and the update are apart: two threads that carry the same new identifier can both
  be told that it is new, although of two calls one after the other the second is refused. The
  duplicate is then processed twice.
\<close>

theorem race_accepts_duplicate:
  assumes "bloom_ok B" "dedup_inv B s" "\<not> bf_mem B mid (bloom s)"
  shows "\<exists>ts sh. (interleave B)\<^sup>*\<^sup>* ([new_thread mid now1, new_thread mid now2], \<lparr> shared = s, version = v \<rparr>) (ts, sh) \<and>
    map th_pc ts = [Returned (Inr None), Returned (Inr None)]"
proof -
  let ?sh = "\<lparr> shared = s, version = v \<rparr>"
  let ?t = "\<lambda>now pc. \<lparr> th_mid = mid, th_now = now, th_pc = pc \<rparr>"
  have tests: "(interleave B)\<^sup>*\<^sup>* ([new_thread mid now1, new_thread mid now2], ?sh) ([?t now1 AtAdd, ?t now2 AtAdd], ?sh)"
    using run_schedule_interleave [of "([new_thread mid now1, new_thread mid now2], ?sh)" "[0, 1]" B] assms(3)
    by (simp add: new_thread_def)
  have count: "bf_count B (bloom s) < bf_capacity B (bloom s)" using assms(2) by (auto simp: dedup_inv_def)
  obtain s1 where s1: "dedup_check B (now1, mid) s = (Inr None, s1)" "dedup_inv B s1"
    using dedup_check_new [OF assms] by blast
  obtain b where b: "bf_add B mid (bloom s) = Inr b" using bloom_ok_total [OF assms(1) count] by blast
  have d: "distinct (map fst (lru s))" using assms(2) by (simp add: dedup_inv_def)
  have e: "dedup_evict B now1 (recorded b mid now1 s) = (Inr (), s1)"
    using s1(1) assms(3) b dedup_evict_returns [OF assms(1), of now1 "recorded b mid now1 s"]
    by (auto simp: dedup_check_def recorded_def split: prod.splits sum.splits)
  obtain v1 where "alone B mid now1 (AtAdd, ?sh) (Returned (Inr None), \<lparr> shared = s1, version = v1 \<rparr>)"
    using alone_from_add [of ?sh B mid b now1] d b e by auto
  with interleave_alone [of B "[?t now1 AtAdd, ?t now2 AtAdd]" 0 ?sh]
  have first: "(interleave B)\<^sup>*\<^sup>* ([?t now1 AtAdd, ?t now2 AtAdd], ?sh)
      ([?t now1 (Returned (Inr None)), ?t now2 AtAdd], \<lparr> shared = s1, version = v1 \<rparr>)" by simp
  obtain sh2 where "alone B mid now2 (AtAdd, \<lparr> shared = s1, version = v1 \<rparr>) (Returned (Inr None), sh2)"
    using alone_accepts [OF assms(1), of "\<lparr> shared = s1, version = v1 \<rparr>"] s1(2)
    unfolding dedup_inv_def by fastforce
  with interleave_alone [of B "[?t now1 (Returned (Inr None)), ?t now2 AtAdd]" 1 "\<lparr> shared = s1, version = v1 \<rparr>"]
  have "(interleave B)\<^sup>*\<^sup>* ([?t now1 (Returned (Inr None)), ?t now2 AtAdd], \<lparr> shared = s1, version = v1 \<rparr>)
      ([?t now1 (Returned (Inr None)), ?t now2 (Returned (Inr None))], sh2)" by simp
  from rtranclp_trans [OF rtranclp_trans [OF tests first] this] show ?thesis by fastforce
qed

theorem race_accepts_duplicate_witness:
  "\<exists>ts sh. (interleave list_bloom)\<^sup>*\<^sup>*
      ([new_thread [7] 5, new_thread [7] 6], \<lparr> shared = new_dedup list_bloom, version = 0 \<rparr>) (ts, sh) \<and>
    map th_pc ts = [Returned (Inr None), Returned (Inr None)]"
proof (rule race_accepts_duplicate [OF list_bloom_ok new_dedup_inv [OF list_bloom_ok]])
  show "\<not> bf_mem list_bloom [7] (bloom (new_dedup list_bloom))"
    by (simp add: new_dedup_def new_bloom_def list_bloom_def)
qed

text \<open>
  While a thread rebuilds the filter the cache is open: the new filter is empty when it is put in
  place, so an identifier the cache holds, which every sequential call refuses, is accepted by a
  thread whose test falls between the replacement and the refill.
\<close>

lemma race_rebuild_forgets:
  assumes "bloom_ok B" "dedup_inv B s" "\<not> bf_mem B x (bloom s)" "mid \<in> fst ` set (lru s)"
    and "evict_loop now (lru s @ [(x, now)]) (evictions_since_rebuild s) = (l, n)"
    and "n \<ge> REBUILD_EVICTION_THRESHOLD"
  shows "fst (dedup_check B (now2, mid) s) = Inr (Some duplicate_reason) \<and>
    (\<exists>ts sh. (interleave B)\<^sup>*\<^sup>* ([new_thread x now, new_thread mid now2], \<lparr> shared = s, version = v \<rparr>) (ts, sh) \<and>
       th_pc (ts ! 1) = Returned (Inr None))"
proof -
  let ?sh = "\<lparr> shared = s, version = v \<rparr>"
  let ?t = "\<lambda>pc. \<lparr> th_mid = x, th_now = now, th_pc = pc \<rparr>"
  obtain b where b: "bf_add B x (bloom s) = Inr b"
    using bloom_ok_total [OF assms(1), of "bloom s" x] assms(2) unfolding dedup_inv_def by fastforce
  have d: "distinct (map fst (lru s))" "x \<notin> fst ` set (lru s)" using assms(2,3) by (auto simp: dedup_inv_def)
  obtain v1 where v1: "alone B x now (AtAdd, ?sh) (AtWhile, \<lparr> shared = recorded b x now s, version = v1 \<rparr>)"
    using alone_store [of B x ?sh b now] b by auto
  have r: "lru (recorded b x now s) = lru s @ [(x, now)]"
    using d(2) by (simp add: recorded_def alist_update_new)
  have rec: "lru (shared \<lparr> shared = recorded b x now s, version = v1 \<rparr>) = lru s @ [(x, now)]"
    "evictions_since_rebuild (shared \<lparr> shared = recorded b x now s, version = v1 \<rparr>) = evictions_since_rebuild s"
    by (simp add: r, simp add: recorded_def)
  obtain v2 where v2: "alone B x now (AtWhile, \<lparr> shared = recorded b x now s, version = v1 \<rparr>)
      (AtThreshold, \<lparr> shared = (recorded b x now s)\<lparr>lru := l, evictions_since_rebuild := n\<rparr>, version = v2 \<rparr>)"
    using alone_evict_loop [OF _ rec, of B x now] recorded_distinct [OF d(1), of b x now] assms(5) r by auto
  let ?new = "\<lparr> shared = (recorded b x now s)\<lparr>lru := l, evictions_since_rebuild := n, bloom := new_bloom B\<rparr>, version = v2 \<rparr>"
  have "alone B x now (AtThreshold, \<lparr> shared = (recorded b x now s)\<lparr>lru := l, evictions_since_rebuild := n\<rparr>, version = v2 \<rparr>)
      (AtIter, ?new)"
    using assms(6) by (rule_tac alone_step, simp, rule_tac alone_step, simp add: on_cache_def)
  with v1 v2 have "alone B x now (AtAdd, ?sh) (AtIter, ?new)" by (meson rtranclp_trans)
  then have "alone B x now (AtTest, ?sh) (AtIter, ?new)" by (rule_tac alone_step) (simp add: assms(3))
  with interleave_alone [of B "[?t AtTest, new_thread mid now2]" 0 ?sh AtIter ?new]
  have 1: "(interleave B)\<^sup>*\<^sup>* ([new_thread x now, new_thread mid now2], ?sh) ([?t AtIter, new_thread mid now2], ?new)"
    by (simp add: new_thread_def)
  have "distinct (map fst l)"
    using evict_loop_drop [of now "lru s @ [(x, now)]" "evictions_since_rebuild s"] assms(5) d
    by (auto simp: drop_map [symmetric] simp del: drop_append)
  moreover have "bf_count B (new_bloom B) < bf_capacity B (new_bloom B)"
    using assms(1) by (simp add: new_bloom_def bloom_ok_new)
  ultimately obtain sh' where "alone B mid now2 (AtAdd, ?new) (Returned (Inr None), sh')"
    using alone_accepts [OF assms(1), of ?new mid now2] by auto
  then have "alone B mid now2 (AtTest, ?new) (Returned (Inr None), sh')"
    using assms(1) by (rule_tac alone_step) (simp add: new_bloom_def bloom_ok_new)
  with interleave_alone [of B "[?t AtIter, new_thread mid now2]" 1 ?new]
  have "(interleave B)\<^sup>*\<^sup>* ([?t AtIter, new_thread mid now2], ?new)
      ([?t AtIter, (new_thread mid now2)\<lparr>th_pc := Returned (Inr None)\<rparr>], sh')" by (simp add: new_thread_def)
  from rtranclp_trans [OF 1 this] have "\<exists>ts sh. (interleave B)\<^sup>*\<^sup>* ([new_thread x now, new_thread mid now2], ?sh) (ts, sh) \<and>
       th_pc (ts ! 1) = Returned (Inr None)" by fastforce
  moreover have "bf_mem B mid (bloom s)" using assms(2,4) by (auto simp: dedup_inv_def)
  ultimately show ?thesis by (simp add: dedup_check_dup)
qed

lemma race_rebuild_forgets_witness:
  "\<exists>s. fst (dedup_check list_bloom (700, [8]) s) = Inr (Some duplicate_reason) \<and>
    (\<exists>ts sh. (interleave list_bloom)\<^sup>*\<^sup>* ([new_thread [9] 700, new_thread [8] 700], \<lparr> shared = s, version = 0 \<rparr>) (ts, sh) \<and>
       th_pc (ts ! 1) = Returned (Inr None))"
proof -
  let ?s = "\<lparr> lru = [([7], 0), ([8], 500)], bloom = (12000, [[8], [7]]), evictions_since_rebuild = 999 \<rparr>
    :: (nat \<times> bytes list) dedup_cache"
  have "dedup_inv list_bloom ?s" by (simp add: dedup_inv_def list_bloom_def)
  from race_rebuild_forgets [OF list_bloom_ok this, of "[9]" "[8]" 700 "[([8], 500), ([9], 700)]" 1000 700 0]
  show ?thesis by (intro exI [of _ ?s]) (simp add: list_bloom_def)
qed

text \<open>
  And the eviction loop of one thread can pull the oldest entry from under another: when that
  entry is due, two threads that both peek at it before either deletes it end with the second
  raising \<^emph>\<open>KeyError\<close> out of \<^emph>\<open>DedupCache.check\<close>, which no sequence of calls does.
\<close>

lemma race_raises_KeyError:
  assumes "bloom_ok B" "dedup_inv B s" "lru s = (oldest, t) # rest"
    and "now1 - t > TTL_SECONDS" "now2 - t > TTL_SECONDS"
    and "\<not> bf_mem B x (bloom s)" "\<not> bf_mem B y (bloom s)"
  shows "\<exists>ts sh. (interleave B)\<^sup>*\<^sup>* ([new_thread x now1, new_thread y now2], \<lparr> shared = s, version = v \<rparr>) (ts, sh) \<and>
    th_pc (ts ! 1) = Returned (Inl KeyError)"
proof -
  have count: "bf_count B (bloom s) + 1 < bf_capacity B (bloom s)" using assms(2) by (auto simp: dedup_inv_def)
  then obtain b where b: "bf_add B x (bloom s) = Inr b" using bloom_ok_total [OF assms(1), of "bloom s" x] by auto
  note bb = bloom_ok_add [OF assms(1) b]
  then obtain b' where b': "bf_add B y b = Inr b'" using bloom_ok_total [OF assms(1), of b y] count by auto
  obtain n where s: "s = \<lparr> lru = (oldest, t) # rest, bloom = bloom s, evictions_since_rebuild = n \<rparr>"
    using assms(3) by (cases s) simp
  have ne: "x \<noteq> oldest" "y \<noteq> oldest" "oldest \<notin> fst ` set rest" "x \<notin> fst ` set rest" "y \<notin> fst ` set rest"
    using assms(2,3,6,7) by (auto simp: dedup_inv_def)
  let ?c = "([new_thread x now1, new_thread y now2], \<lparr> shared = s, version = v \<rparr>)"
  have "th_pc (fst (run_schedule B [0, 1, 0, 1, 0, 1, 0, 1, 0, 1, 0, 1, 0, 1] ?c) ! 1) = Returned (Inl KeyError)"
    using assms(4-7) b b' ne
    by (subst s, cases "x = y") (simp_all add: new_thread_def on_cache_def bump_def dom_update alist_update_new)
  moreover have "(interleave B)\<^sup>*\<^sup>* ?c (run_schedule B [0, 1, 0, 1, 0, 1, 0, 1, 0, 1, 0, 1, 0, 1] ?c)"
    by (rule run_schedule_interleave) simp
  ultimately show ?thesis by (metis prod.collapse)
qed

lemma race_raises_KeyError_witness:
  "\<exists>ts sh. (interleave list_bloom)\<^sup>*\<^sup>*
      ([new_thread [1] 1000, new_thread [2] 1000],
       \<lparr> shared = snd (dedup_check list_bloom (0, [7]) (new_dedup list_bloom)), version = 0 \<rparr>) (ts, sh) \<and>
    th_pc (ts ! 1) = Returned (Inl KeyError)"
proof -
  let ?s = "\<lparr> lru = [([7], 0)], bloom = (12000, [[7]]), evictions_since_rebuild = 0 \<rparr> :: (nat \<times> bytes list) dedup_cache"
  have s: "snd (dedup_check list_bloom (0, [7]) (new_dedup list_bloom)) = ?s"
    by (simp add: dedup_check_def new_dedup_def new_bloom_def list_bloom_def dedup_evict_def)
  have "dedup_inv list_bloom ?s" by (simp add: dedup_inv_def list_bloom_def)
  from race_raises_KeyError [OF list_bloom_ok this, of "[7]" 0 "[]" 1000 1000 "[1]" "[2]"] show ?thesis
    unfolding s by (simp add: list_bloom_def)
qed

end
