(* ===== verification/Sealed.thy ===== *)
theory Sealed
  imports Crypto
begin

text \<open>
  \<^emph>\<open>crypto/sealed.py\<close>: the anonymous envelope to an X25519 key. The random ephemeral
  private key of a call is an argument of \<open>seal\<close>. In \<open>unseal\<close> only the decryption stands
  inside the \<^emph>\<open>try\<close>, as in the source.
\<close>

definition EPHEMERAL_PUB_SIZE :: nat where [simp]: "EPHEMERAL_PUB_SIZE = 32"
definition TAG_SIZE :: nat where [simp]: "TAG_SIZE = 16"
definition SEAL_NONCE :: bytes where "SEAL_NONCE = replicate 12 0"
definition SEAL_OVERHEAD :: nat where [simp]: "SEAL_OVERHEAD = EPHEMERAL_PUB_SIZE + TAG_SIZE"

definition generate_encryption_keypair :: "crypto \<Rightarrow> bytes \<Rightarrow> (bytes \<times> bytes) res" where
  "generate_encryption_keypair C random32 =
     res_bind (x_base C random32) (\<lambda>pub. Inr (random32, pub))"

definition derive_key :: "crypto \<Rightarrow> bytes \<Rightarrow> bytes \<Rightarrow> bytes \<Rightarrow> bytes" where
  "derive_key C shared ephemeral_pub recipient_pub =
     take 32 (blake3 C (shared @ ephemeral_pub @ recipient_pub))"

definition seal :: "crypto \<Rightarrow> bytes \<Rightarrow> bytes \<Rightarrow> bytes \<Rightarrow> bytes res" where
  "seal C ephemeral_priv plaintext recipient_pub =
     (if length recipient_pub \<noteq> 32 then Inl (ValueError ''recipient public key must be 32 bytes'')
      else
        res_bind (x_base C ephemeral_priv) (\<lambda>ephemeral_pub.
        res_bind (x_mult C ephemeral_priv recipient_pub) (\<lambda>shared.
        res_bind (aead_enc C plaintext [] SEAL_NONCE (derive_key C shared ephemeral_pub recipient_pub))
          (\<lambda>ciphertext. Inr (ephemeral_pub @ ciphertext)))))"

definition unseal :: "crypto \<Rightarrow> bytes \<Rightarrow> bytes \<Rightarrow> bytes res" where
  "unseal C sealed recipient_priv =
     (if length sealed < SEAL_OVERHEAD then Inl (ValueError ''sealed envelope too short'')
      else
        let ephemeral_pub = take EPHEMERAL_PUB_SIZE sealed;
            ciphertext = drop EPHEMERAL_PUB_SIZE sealed in
        res_bind (x_base C recipient_priv) (\<lambda>recipient_pub.
        res_bind (x_mult C recipient_priv ephemeral_pub) (\<lambda>shared.
          case aead_dec C ciphertext [] SEAL_NONCE (derive_key C shared ephemeral_pub recipient_pub) of
            Inr p \<Rightarrow> Inr p
          | Inl _ \<Rightarrow> Inl (ValueError ''sealed envelope failed to open''))))"

lemma seal_length:
  assumes "box_ok C" "seal C eph p pub = Inr s"
  shows "length s = length p + SEAL_OVERHEAD"
  using assms box_okD(1,3) [OF assms(1)] by (auto simp: seal_def Let_def split: if_splits)

text \<open>The private keys are 32 bytes, as \<open>generate_encryption_keypair\<close> and \<open>seal\<close> draw them.\<close>

lemma seal_unseal:
  assumes "box_ok C" "length eph = 32" "length priv = 32"
    and "x_base C priv = Inr pub" "seal C eph p pub = Inr s"
  shows "unseal C s priv = Inr p"
proof -
  note b = box_okD [OF assms(1)]
  obtain ep shared c where ep: "x_base C eph = Inr ep" and sh: "x_mult C eph pub = Inr shared"
    and c: "aead_enc C p [] SEAL_NONCE (derive_key C shared ep pub) = Inr c"
    and s: "s = ep @ c"
    using assms(5) by (auto simp: seal_def split: if_splits)
  have "x_mult C priv ep = Inr shared" using sh b(2) [OF assms(3,2,4) ep] by simp
  with s c b(1) [OF ep] b(3) [OF c] b(4) [OF c] assms(4) show ?thesis by (simp add: unseal_def)
qed

lemma seal_total:
  assumes "box_ok C" "box_total C" "length eph = 32" "length priv = 32" "x_base C priv = Inr pub"
  shows "\<exists>s. seal C eph p pub = Inr s"
proof -
  obtain ep where ep: "x_base C eph = Inr ep" using assms(2,3) unfolding box_total_def by blast
  obtain shared where sh: "x_mult C eph pub = Inr shared"
    using assms(2-5) unfolding box_total_def by blast
  have "length (derive_key C shared ep pub) = 32"
    using box_okD(5) [OF assms(1)] by (simp add: derive_key_def)
  then obtain c where "aead_enc C p [] SEAL_NONCE (derive_key C shared ep pub) = Inr c"
    using assms(2) by (fastforce simp: box_total_def SEAL_NONCE_def)
  with ep sh box_okD(1) [OF assms(1) assms(5)] show ?thesis by (simp add: seal_def)
qed

text \<open>
  The exceptions of \<open>unseal\<close>: a \<^emph>\<open>ValueError\<close>, or whatever the two curve operations raise.
\<close>

lemma unseal_errors:
  assumes "unseal C s priv = Inl e"
  shows "is_ValueError e \<or> x_base C priv = Inl e \<or> x_mult C priv (take 32 s) = Inl e"
  using assms
  by (cases "x_base C priv"; cases "x_mult C priv (take 32 s)")
     (auto simp: unseal_def Let_def split: if_splits sum.splits)

lemma unseal_exchange_error:
  assumes "48 \<le> length s" "x_base C priv = Inr pub" "x_mult C priv (take 32 s) = Inl e"
  shows "unseal C s priv = Inl e"
  using assms by (simp add: unseal_def)

section \<open>The envelope as its callers see it\<close>

text \<open>
  C27: Sealing round trip: what is sealed to a key opens under its private half, with exactly 48
  bytes of overhead, and sealing to an honest key never fails.
\<close>

theorem sealed_roundtrip:
  assumes "box_ok C" "box_total C" "length eph = 32" "length priv = 32" "x_base C priv = Inr pub"
  shows "\<exists>s. seal C eph p pub = Inr s \<and> length s = length p + SEAL_OVERHEAD \<and> unseal C s priv = Inr p"
proof -
  obtain s where s: "seal C eph p pub = Inr s" using seal_total [OF assms] by blast
  from s seal_length [OF assms(1) s] seal_unseal [OF assms(1,3-5) s] show ?thesis by blast
qed

theorem sealed_roundtrip_witness:
  "\<exists>s. seal toy_crypto (replicate 32 5) [1, 2, 3] (replicate 31 6 @ [1]) = Inr s \<and> length s = 51 \<and>
     unseal toy_crypto s (replicate 32 6) = Inr [1, 2, 3]"
  using sealed_roundtrip [OF toy_box_ok toy_box_total, of "replicate 32 5" "replicate 32 6" "replicate 31 6 @ [1]" "[1, 2, 3]"]
  by (simp add: toy_crypto_def pad_to_def)

text \<open>
  The failures of \<open>unseal\<close>: an envelope shorter than 48 bytes is a \<^emph>\<open>ValueError\<close>; otherwise the
  exception of the key exchange, if it fails, comes out as it is; otherwise a failed decryption is
  a \<^emph>\<open>ValueError\<close>, and a successful one the plaintext.
\<close>

lemma unseal_cases:
  "unseal C s priv =
     (if length s < 48 then Inl (ValueError ''sealed envelope too short'')
      else case res_bind (x_base C priv) (\<lambda>pub. res_bind (x_mult C priv (take 32 s)) (\<lambda>sh. Inr (sh, pub))) of
        Inl e \<Rightarrow> Inl e
      | Inr (sh, pub) \<Rightarrow>
          (case aead_dec C (drop 32 s) [] (replicate 12 0) (take 32 (blake3 C (sh @ take 32 s @ pub))) of
             Inr p \<Rightarrow> Inr p
           | Inl e \<Rightarrow> Inl (ValueError ''sealed envelope failed to open'')))"
  by (auto simp: unseal_def derive_key_def SEAL_NONCE_def res_bind_def split: sum.splits)

text \<open>
  The promise \<^emph>\<open>ValueError on any tampering\<close> has a gap: an envelope whose ephemeral key
  makes the exchange fail (a low-order point) raises the library's exception instead.
\<close>

lemma unseal_exchange_escapes:
  assumes "48 \<le> length s" "x_base C priv = Inr pub" "x_mult C priv (take 32 s) = Inl NaclRuntimeError"
  shows "unseal C s priv = Inl NaclRuntimeError \<and> \<not> is_ValueError NaclRuntimeError"
  using unseal_exchange_error [OF assms] by simp

lemma unseal_exchange_escapes_witness:
  "unseal toy_crypto (replicate 80 0) (replicate 32 6) = Inl NaclRuntimeError"
  using unseal_exchange_escapes [of "replicate 80 0" toy_crypto "replicate 32 6" "replicate 31 6 @ [1]"]
  by (simp add: toy_crypto_def pad_to_def)

end
