(* ===== verification/Mail.thy ===== *)
theory Mail
  imports Sealed Struct_Codec
begin

text \<open>
  The interface of the sealed payloads of \<^emph>\<open>friends/wire.py\<close> and \<^emph>\<open>location/wire.py\<close>: a
  recipient hint in the clear, then a body sealed to the recipient. A format is given by the
  encoder and decoder of its body; the locale turns their laws into the laws of the mail.
\<close>

definition HINT_SIZE :: nat where [simp]: "HINT_SIZE = 8"

lemma open_sealed:
  assumes C: "box_ok C" "length eph = 32" "length priv = 32" "x_base C priv = Inr pub"
    and h: "length hint = HINT_SIZE" and s: "seal C eph b pub = Inr s"
  shows "unseal C (drop HINT_SIZE (hint @ s)) priv = Inr b"
  using seal_unseal [OF C s] h by simp

locale sealed_mail =
  fixes send :: "crypto \<Rightarrow> bytes \<Rightarrow> 'a \<Rightarrow> bytes \<Rightarrow> bytes \<Rightarrow> bytes res"
    and recv :: "crypto \<Rightarrow> bytes \<Rightarrow> bytes \<Rightarrow> 'a res"
    and enc :: "'a \<Rightarrow> bytes res"
    and dec :: "bytes \<Rightarrow> 'a res"
    and ok :: "'a \<Rightarrow> bool"
    and most :: nat
  assumes send_eq: "send C eph x hint pub =
      res_bind (enc x) (\<lambda>b. res_bind (seal C eph b pub) (\<lambda>s. Inr (hint @ s)))"
    and recv_eq: "recv C bs priv = res_bind (unseal C (drop HINT_SIZE bs) priv) dec"
    and enc_ok: "ok x \<Longrightarrow> \<exists>b. enc x = Inr b \<and> dec b = Inr x \<and> length b \<le> most"
    and dec_ok: "dec b = Inr x \<Longrightarrow> ok x"
    and dec_error: "dec b = Inl e \<Longrightarrow> is_ValueError e"
begin

text \<open>Mail arrives as it was sent, carries the hint in front, and has a bounded size.\<close>

lemma arrives:
  assumes "box_ok C" "length eph = 32" "length priv = 32" "x_base C priv = Inr pub"
    and "length hint = HINT_SIZE" "ok x" "send C eph x hint pub = Inr bs"
  shows "recv C bs priv = Inr x \<and> take HINT_SIZE bs = hint \<and> length bs \<le> HINT_SIZE + SEAL_OVERHEAD + most"
proof -
  obtain b where b: "enc x = Inr b" "dec b = Inr x" "length b \<le> most" using enc_ok assms(6) by blast
  then obtain s where s: "seal C eph b pub = Inr s" "bs = hint @ s"
    using assms(7) by (auto simp: send_eq)
  have "unseal C (drop HINT_SIZE bs) priv = Inr b"
    unfolding s(2) by (rule open_sealed [OF assms(1-5) s(1)])
  then show ?thesis
    using b s seal_length [OF assms(1) s(1)] assms(5) by (simp add: recv_eq)
qed

lemma sent:
  assumes "box_ok C" "box_total C" "length eph = 32" "length priv = 32" "x_base C priv = Inr pub" "ok x"
  shows "\<exists>bs. send C eph x hint pub = Inr bs"
proof -
  obtain b where "enc x = Inr b" using enc_ok assms(6) by blast
  moreover from seal_total [OF assms(1-5)] obtain s where "seal C eph b pub = Inr s" by blast
  ultimately show ?thesis by (auto simp: send_eq)
qed

text \<open>What is received is well formed; a refusal is a value error or one of the curve's.\<close>

lemma received_ok: "recv C bs priv = Inr x \<Longrightarrow> ok x"
  using dec_ok by (auto simp: recv_eq)

lemma recv_error:
  "recv C bs priv = Inl e \<Longrightarrow>
     is_ValueError e \<or> x_base C priv = Inl e \<or> x_mult C priv (slice HINT_SIZE (HINT_SIZE + 32) bs) = Inl e"
  using unseal_errors dec_error by (fastforce simp: recv_eq res_bind_eq_Inl slice_def)

end

end
