(* ===== verification/Token.thy ===== *)
theory Token
  imports Struct_Codec Crypto
begin

unbundle bit_operations_syntax

text \<open>
  \<^emph>\<open>capability/token.py\<close>: the 98-byte capability token. The record has the source's fields
  with the prefix \<open>tok_\<close>; \<open>token_raw\<close> and \<open>token_body\<close> are the properties \<^emph>\<open>raw\<close> and
  \<^emph>\<open>body\<close>. The clock, the random nonce and \<^emph>\<open>now\<close> are arguments.
\<close>

definition TOKEN_VERSION :: int where [simp]: "TOKEN_VERSION = 1"
definition SCOPE_LOCATION :: int where [simp]: "SCOPE_LOCATION = 1"
definition BODY_FORMAT :: string where "BODY_FORMAT = ''>B8s8sIIB8s''"
definition BODY_SIZE :: nat where [simp]: "BODY_SIZE = 34"
definition TOKEN_SIZE :: nat where [simp]: "TOKEN_SIZE = BODY_SIZE + 64"
definition DEFAULT_EXPIRY_S :: int where "DEFAULT_EXPIRY_S = 24 * 3600"

definition pubkey_id :: "crypto \<Rightarrow> bytes \<Rightarrow> bytes res" where
  "pubkey_id C pub =
     (if length pub \<noteq> 32 then Inl (ValueError ''ed25519 public key must be 32 bytes'')
      else Inr (take 8 (blake3 C pub)))"

record capability_token =
  tok_version :: int
  tok_issuer :: bytes
  tok_grantee :: bytes
  tok_issued_at :: int
  tok_expires_at :: int
  tok_scope :: int
  tok_nonce :: bytes
  tok_signature :: bytes

definition token_values :: "capability_token \<Rightarrow> fval list" where
  "token_values t =
     [VI (tok_version t), VB (tok_issuer t), VB (tok_grantee t), VI (tok_issued_at t),
      VI (tok_expires_at t), VI (tok_scope t), VB (tok_nonce t)]"

definition token_body :: "capability_token \<Rightarrow> bytes res" where
  "token_body t = struct_pack BODY_FORMAT (token_values t)"

definition token_raw :: "capability_token \<Rightarrow> bytes res" where
  "token_raw t = res_bind (token_body t) (\<lambda>b. Inr (b @ tok_signature t))"

definition parse_token :: "bytes \<Rightarrow> capability_token res" where
  "parse_token bs =
     (if length bs \<noteq> TOKEN_SIZE
      then Inl (ValueError (''capability token must be '' @ show_nat TOKEN_SIZE @ '' bytes, got '' @ show_nat (length bs)))
      else res_bind (struct_unpack BODY_FORMAT (take BODY_SIZE bs)) (\<lambda>fields.
        case fields of
          [VI v, VB iss, VB gr, VI ia, VI ea, VI sc, VB nc] \<Rightarrow>
            Inr \<lparr> tok_version = v, tok_issuer = iss, tok_grantee = gr, tok_issued_at = ia,
                  tok_expires_at = ea, tok_scope = sc, tok_nonce = nc,
                  tok_signature = drop BODY_SIZE bs \<rparr>
        | _ \<Rightarrow> Inl (ValueError ''unpack'')))"

definition issue_token ::
    "crypto \<Rightarrow> bytes \<Rightarrow> bytes \<Rightarrow> int \<Rightarrow> int option \<Rightarrow> int \<Rightarrow> bytes option \<Rightarrow> time \<Rightarrow> bytes \<Rightarrow> bytes res" where
  "issue_token C issuer_seed grantee_pub scope issued_at_arg expiry_s nonce_arg now random8 =
     (let issued_at = (case issued_at_arg of None \<Rightarrow> py_int now | Some t \<Rightarrow> t);
          nonce = (case nonce_arg of None \<Rightarrow> random8 | Some n \<Rightarrow> n) in
      res_bind (pubkey_id C (ed_pub C issuer_seed)) (\<lambda>iss.
      res_bind (pubkey_id C grantee_pub) (\<lambda>gr.
      let token = \<lparr> tok_version = TOKEN_VERSION, tok_issuer = iss, tok_grantee = gr,
                    tok_issued_at = issued_at, tok_expires_at = issued_at + expiry_s,
                    tok_scope = scope, tok_nonce = nonce, tok_signature = [] \<rparr> in
      res_bind (token_body token) (\<lambda>body. Inr (body @ ed_sign C issuer_seed body)))))"

text \<open>
  \<^emph>\<open>verify\<close>: the structural error of \<^emph>\<open>parse\<close> and a bad signature give \<^emph>\<open>False\<close>; a key of
  the wrong length raises out of \<^emph>\<open>pubkey_id\<close>.
\<close>

definition verify_token :: "crypto \<Rightarrow> bytes \<Rightarrow> bytes \<Rightarrow> bytes \<Rightarrow> int \<Rightarrow> int \<Rightarrow> bool res" where
  "verify_token C bs target_pub grantee_pub now scope =
     (case parse_token bs of
        Inl e \<Rightarrow> if is_ValueError e then Inr False else Inl e
      | Inr token \<Rightarrow>
          if tok_version token \<noteq> TOKEN_VERSION then Inr False
          else res_bind (pubkey_id C target_pub) (\<lambda>tid.
          if tok_issuer token \<noteq> tid then Inr False
          else res_bind (pubkey_id C grantee_pub) (\<lambda>gid.
          if tok_grantee token \<noteq> gid then Inr False
          else if tok_scope token AND scope = 0 then Inr False
          else if \<not> (tok_issued_at token \<le> now \<and> now < tok_expires_at token) then Inr False
          else case res_bind (ed_key C target_pub) (\<lambda>k.
                 res_bind (token_body token) (\<lambda>body. ed_verify C k body (tok_signature token))) of
              Inr _ \<Rightarrow> Inr True
            | Inl e \<Rightarrow> if e = BadSignatureError then Inr False else Inl e)))"

definition revocation_key :: "capability_token \<Rightarrow> bytes \<times> bytes \<times> int \<times> bytes" where
  "revocation_key t = (tok_issuer t, tok_grantee t, tok_issued_at t, tok_nonce t)"

section \<open>Layout\<close>

definition body_items :: "fmt list" where
  "body_items = [FUInt 1, FStr 8, FStr 8, FUInt 4, FUInt 4, FUInt 1, FStr 8]"

lemma parse_BODY_FORMAT [simp]: "parse_fmt BODY_FORMAT = Inr body_items"
  by (simp add: BODY_FORMAT_def body_items_def fmt_eval)

lemma body_items_size [simp]: "items_size body_items = 34"
  by (simp add: body_items_def)

lemma body_items_wf [simp]: "list_all wf_fmt body_items"
  by (simp add: body_items_def)

definition token_ok :: "capability_token \<Rightarrow> bool" where
  "token_ok t \<longleftrightarrow> fits body_items (token_values t) \<and> length (tok_signature t) = 64"

lemma parse_token_98:
  assumes "length bs = 98"
  shows "\<exists>t. parse_token bs = Inr t \<and> token_values t = unpack_items body_items (take 34 bs) \<and>
     tok_signature t = drop 34 bs"
  using assms
  by (auto simp: parse_token_def struct_unpack_def unpack_exact_def body_items_def token_values_def)

lemma parse_token_InrD:
  assumes "parse_token bs = Inr t"
  shows "length bs = 98" "token_values t = unpack_items body_items (take 34 bs)" "tok_signature t = drop 34 bs"
    "token_body t = Inr (take 34 bs)" "token_ok t"
proof -
  show l: "length bs = 98" using assms by (auto simp: parse_token_def split: if_splits)
  show v: "token_values t = unpack_items body_items (take 34 bs)" and s: "tok_signature t = drop 34 bs"
    using parse_token_98 [OF l] assms by auto
  have "length (take 34 bs) = items_size body_items" using l by simp
  from unpack_items_fits [OF this body_items_wf] v s l
  show "token_body t = Inr (take 34 bs)" "token_ok t"
    by (simp_all add: token_body_def struct_pack_def token_ok_def)
qed

lemma token_values_inject:
  "token_values s = token_values t \<Longrightarrow> tok_signature s = tok_signature t \<Longrightarrow> s = t"
  by (cases s; cases t) (simp add: token_values_def)

lemma token_raw_parse:
  assumes "token_ok t"
  shows "\<exists>bs. token_raw t = Inr bs \<and> length bs = 98 \<and> parse_token bs = Inr t"
proof -
  obtain b where b: "pack_items body_items (token_values t) = Inr b" "unpack_items body_items b = token_values t"
    using assms pack_items_fits by (auto simp: token_ok_def)
  have l: "length b = 34" using pack_items_length [OF b(1)] by simp
  with assms have l98: "length (b @ tok_signature t) = 98" by (simp add: token_ok_def)
  obtain t' where "parse_token (b @ tok_signature t) = Inr t'" "token_values t' = token_values t"
    "tok_signature t' = tok_signature t"
    using parse_token_98 [OF l98] b(2) l by auto
  moreover from this have "t' = t" by (intro token_values_inject)
  ultimately show ?thesis using b l l98 by (auto simp: token_raw_def token_body_def struct_pack_def)
qed

interpretation token_layout: fixed_layout token_raw parse_token token_ok 98
proof
  fix t assume "token_ok t"
  then show "\<exists>bs. token_raw t = Inr bs \<and> length bs = 98 \<and> parse_token bs = Inr t"
    by (rule token_raw_parse)
next
  fix bs t assume p: "parse_token bs = Inr t"
  have "token_raw t = Inr (take 34 bs @ drop 34 bs)"
    using parse_token_InrD(3,4) [OF p] by (simp add: token_raw_def)
  with parse_token_InrD(1,5) [OF p] show "length bs = 98 \<and> token_ok t \<and> token_raw t = Inr bs" by simp
qed

section \<open>Issuing and verifying\<close>

text \<open>The conditions of a valid grant, in one place.\<close>

definition grant :: "crypto \<Rightarrow> capability_token \<Rightarrow> bytes \<Rightarrow> bytes \<Rightarrow> int \<Rightarrow> int \<Rightarrow> bool" where
  "grant C t target_pub grantee_pub now scope \<longleftrightarrow>
     tok_version t = TOKEN_VERSION \<and>
     tok_issuer t = take 8 (blake3 C target_pub) \<and> tok_grantee t = take 8 (blake3 C grantee_pub) \<and>
     tok_scope t AND scope \<noteq> 0 \<and> tok_issued_at t \<le> now \<and> now < tok_expires_at t"

lemma parse_token_error: "parse_token bs = Inl e \<Longrightarrow> is_ValueError e"
  by (cases "length bs = 98") (use parse_token_98 [of bs] in \<open>auto simp: parse_token_def\<close>)

text \<open>With keys of the right length \<open>verify\<close> never raises, and is true exactly of grants.\<close>

lemma verify_token_iff:
  assumes C: "ed25519_errors C" and l: "length target_pub = 32" "length grantee_pub = 32"
  shows "\<exists>b. verify_token C bs target_pub grantee_pub now scope = Inr b \<and>
    (b \<longleftrightarrow> (\<exists>t. parse_token bs = Inr t \<and> grant C t target_pub grantee_pub now scope \<and>
            ed_verify C target_pub (take 34 bs) (drop 34 bs) = Inr ()))"
proof (cases "parse_token bs")
  case (Inl e)
  then show ?thesis using parse_token_error [OF Inl] by (auto simp: verify_token_def)
next
  case (Inr t)
  note d = parse_token_InrD [OF Inr]
  have k: "ed_key C target_pub = Inr target_pub" using C l(1) by (simp add: ed25519_errors_def)
  have sig: "e = BadSignatureError" if "ed_verify C target_pub (take 34 bs) (drop 34 bs) = Inl e" for e
  proof -
    have "length (drop 34 bs) = 64" using d(1) by simp
    with that C l(1) show ?thesis unfolding ed25519_errors_def by blast
  qed
  show ?thesis
    using Inr l k d(3,4) sig
    by (cases "ed_verify C target_pub (take 34 bs) (drop 34 bs)")
       (auto simp: verify_token_def pubkey_id_def grant_def)
qed

definition issue_args_ok :: "bytes \<Rightarrow> int \<Rightarrow> int \<Rightarrow> int \<Rightarrow> bytes \<Rightarrow> bool" where
  "issue_args_ok grantee_pub scope issued_at expiry_s nonce \<longleftrightarrow>
     length grantee_pub = 32 \<and> length nonce = 8 \<and> 0 \<le> scope \<and> scope < 2 ^ 8 \<and>
     0 \<le> issued_at \<and> issued_at < 2 ^ 32 \<and> 0 \<le> issued_at + expiry_s \<and> issued_at + expiry_s < 2 ^ 32"

lemma issue_token_ok:
  assumes C: "ed25519_ok C" "hash_ok C" and ok: "issue_args_ok grantee_pub scope ia ex nonce"
  shows "\<exists>bs t. issue_token C seed grantee_pub scope (Some ia) ex (Some nonce) now r = Inr bs \<and>
     parse_token bs = Inr t \<and> length bs = 98 \<and>
     ed_verify C (ed_pub C seed) (take 34 bs) (drop 34 bs) = Inr () \<and>
     tok_version t = TOKEN_VERSION \<and> tok_issuer t = take 8 (blake3 C (ed_pub C seed)) \<and>
     tok_grantee t = take 8 (blake3 C grantee_pub) \<and> tok_issued_at t = ia \<and> tok_expires_at t = ia + ex \<and>
     tok_scope t = scope \<and> tok_nonce t = nonce"
proof -
  note c = ed25519_okD [OF C(1)]
  have h: "length (blake3 C x) = 32" for x using C(2) by (simp add: hash_ok_def)
  define t0 where "t0 = \<lparr> tok_version = TOKEN_VERSION, tok_issuer = take 8 (blake3 C (ed_pub C seed)),
    tok_grantee = take 8 (blake3 C grantee_pub), tok_issued_at = ia, tok_expires_at = ia + ex,
    tok_scope = scope, tok_nonce = nonce, tok_signature = [] \<rparr>"
  have "fits body_items (token_values t0)"
    using ok h by (simp add: t0_def body_items_def token_values_def issue_args_ok_def)
  then obtain b where b: "pack_items body_items (token_values t0) = Inr b"
    using pack_items_fits by blast
  define t1 where "t1 = t0\<lparr>tok_signature := ed_sign C seed b\<rparr>"
  have v1: "token_values t1 = token_values t0" by (simp add: t1_def token_values_def)
  have "token_ok t1"
    using \<open>fits body_items (token_values t0)\<close> c(2) unfolding token_ok_def v1 by (simp add: t1_def)
  from token_raw_parse [OF this] have p: "parse_token (b @ ed_sign C seed b) = Inr t1"
    using b v1 by (auto simp: token_raw_def token_body_def struct_pack_def t1_def)
  have i: "issue_token C seed grantee_pub scope (Some ia) ex (Some nonce) now r = Inr (b @ ed_sign C seed b)"
    using b [unfolded t0_def] ok c(1)
    by (auto simp: issue_token_def pubkey_id_def issue_args_ok_def token_body_def struct_pack_def Let_def)
  have l: "length b = 34" using pack_items_length [OF b] by simp
  show ?thesis
    using i p l c(2,4) by (auto simp: t1_def t0_def)
qed

section \<open>The token as its users see it\<close>

text \<open>
  The token layout is exact: 98 bytes parse to a token if and only if they are its packed
  body and signature.
\<close>

lemma token_layout_exact: "parse_token bs = Inr t \<longleftrightarrow> token_ok t \<and> token_raw t = Inr bs"
  using token_layout.dec_ok token_layout.enc_ok by fastforce

text \<open>
  C28: \<open>verify\<close> is exact and total on 32-byte keys: it returns true if and only if the bytes are a
  token with the right version, issuer, grantee, scope and lifetime whose body the target signed.
\<close>

theorem verify_token_exact:
  assumes "ed25519_errors C" "length target_pub = 32" "length grantee_pub = 32"
  shows "verify_token C bs target_pub grantee_pub now scope =
    Inr (\<exists>t. parse_token bs = Inr t \<and> grant C t target_pub grantee_pub now scope \<and>
           ed_verify C target_pub (take 34 bs) (drop 34 bs) = Inr ())"
  using verify_token_iff [OF assms, of bs now scope] by auto

theorem verify_token_exact_witness:
  "verify_token toy_crypto [] (replicate 32 1) (replicate 32 2) 100 1 =
    Inr (\<exists>t. parse_token [] = Inr t \<and> grant toy_crypto t (replicate 32 1) (replicate 32 2) 100 1 \<and>
           ed_verify toy_crypto (replicate 32 1) (take 34 []) (drop 34 []) = Inr ())"
  using verify_token_exact [OF toy_ed25519_errors, of "replicate 32 1" "replicate 32 2" "[]" 100 1] by simp

text \<open>
  An issued token is accepted for the grantee it names, for a scope it covers and while it
  lasts, and for no other moment: \<open>verify\<close> of it at any time is just that condition.
\<close>

lemma issued_token_verifies:
  assumes "ed25519_ok C" "ed25519_errors C" "hash_ok C"
    and "issue_args_ok grantee_pub scope ia ex nonce"
  shows "\<exists>bs. issue_token C seed grantee_pub scope (Some ia) ex (Some nonce) clk r = Inr bs \<and> length bs = 98 \<and>
     verify_token C bs (ed_pub C seed) grantee_pub now want =
       Inr (scope AND want \<noteq> 0 \<and> ia \<le> now \<and> now < ia + ex)"
proof -
  obtain bs t where b: "issue_token C seed grantee_pub scope (Some ia) ex (Some nonce) clk r = Inr bs"
    "parse_token bs = Inr t" "length bs = 98"
    "ed_verify C (ed_pub C seed) (take 34 bs) (drop 34 bs) = Inr ()"
    "tok_version t = TOKEN_VERSION" "tok_issuer t = take 8 (blake3 C (ed_pub C seed))"
    "tok_grantee t = take 8 (blake3 C grantee_pub)" "tok_issued_at t = ia" "tok_expires_at t = ia + ex"
    "tok_scope t = scope"
    using issue_token_ok [OF assms(1,3,4)] by blast
  have l: "length (ed_pub C seed) = 32" "length grantee_pub = 32"
    using ed25519_okD(1) [OF assms(1)] assms(4) by (simp_all add: issue_args_ok_def)
  from verify_token_iff [OF assms(2) l, of bs now want] b
  show ?thesis by (auto simp: grant_def)
qed

lemma issued_token_verifies_witness:
  "\<exists>bs. issue_token toy_crypto (replicate 32 1) (replicate 32 2) 1 (Some 100) 3600 (Some (replicate 8 0)) 0 [] = Inr bs \<and>
     verify_token toy_crypto bs (ed_pub toy_crypto (replicate 32 1)) (replicate 32 2) 200 1 = Inr True"
  using issued_token_verifies [OF toy_ed25519_ok toy_ed25519_errors toy_hash_ok, of "replicate 32 2" 1 100 3600
      "replicate 8 0" "replicate 32 1" 0 "[]" 200 1]
  by (auto simp: issue_args_ok_def)

end
