(* ===== verification/Friend_Wire.thy ===== *)
theory Friend_Wire
  imports Mail Utf8 Token
begin

text \<open>
  \<^emph>\<open>friends/wire.py\<close>: the payloads of FRIEND_REQUEST, FRIEND_ACCEPT, FRIEND_DECLINE and
  DIRECT_MESSAGE. The random ephemeral key of \<^emph>\<open>seal\<close> is an argument of the encoders. Error
  texts print the source's en dash as a hyphen.
\<close>

definition MAX_USERNAME_BYTES :: nat where [simp]: "MAX_USERNAME_BYTES = 32"
definition MAX_DM_TEXT_BYTES :: nat where [simp]: "MAX_DM_TEXT_BYTES = 265"

record friend_request_payload =
  fr_username :: pystr
  fr_curve25519_pub :: bytes
  fr_ed25519_pub :: bytes

record friend_accept_payload =
  fa_username :: pystr
  fa_curve25519_pub :: bytes
  fa_ed25519_pub :: bytes
  fa_capability_token :: "bytes option"

definition pack_identity :: "pystr \<Rightarrow> bytes \<Rightarrow> bytes \<Rightarrow> bytes res" where
  "pack_identity username curve_pub ed_pub' =
     res_bind (utf8_encode username) (\<lambda>name.
       if \<not> (1 \<le> length name \<and> length name \<le> MAX_USERNAME_BYTES)
       then Inl (ValueError (''username must be 1-'' @ show_nat MAX_USERNAME_BYTES @ '' UTF-8 bytes''))
       else if length curve_pub \<noteq> 32 \<or> length ed_pub' \<noteq> 32
       then Inl (ValueError ''public keys must be 32 bytes'')
       else res_bind (struct_pack ''>B'' [VI (int (length name))])
              (\<lambda>l. Inr (l @ name @ curve_pub @ ed_pub')))"

definition unpack_identity :: "bytes \<Rightarrow> (pystr \<times> bytes \<times> bytes \<times> bytes) res" where
  "unpack_identity bs =
     (if length bs < 1 then Inl (ValueError ''identity block truncated'')
      else
        let name_len = unat (bs ! 0) in
        if \<not> (1 \<le> name_len \<and> name_len \<le> MAX_USERNAME_BYTES) \<or> length bs < 1 + name_len + 64
        then Inl (ValueError ''identity block malformed'')
        else res_bind (utf8_decode (slice 1 (1 + name_len) bs)) (\<lambda>name.
               Inr (name, slice (1 + name_len) (1 + name_len + 32) bs,
                    slice (1 + name_len + 32) (1 + name_len + 64) bs, drop (1 + name_len + 64) bs)))"

definition encode_friend_request ::
    "crypto \<Rightarrow> bytes \<Rightarrow> friend_request_payload \<Rightarrow> bytes \<Rightarrow> bytes \<Rightarrow> bytes res" where
  "encode_friend_request C eph p recipient_hint recipient_pub =
     res_bind (pack_identity (fr_username p) (fr_curve25519_pub p) (fr_ed25519_pub p)) (\<lambda>body.
     res_bind (seal C eph body recipient_pub) (\<lambda>s. Inr (recipient_hint @ s)))"

definition read_friend_request :: "bytes \<Rightarrow> friend_request_payload res" where
  "read_friend_request body =
     res_bind (unpack_identity body) (\<lambda>(username, curve_pub, ed_pub', rest).
       if rest \<noteq> [] then Inl (ValueError ''trailing bytes in FRIEND_REQUEST payload'')
       else Inr \<lparr> fr_username = username, fr_curve25519_pub = curve_pub, fr_ed25519_pub = ed_pub' \<rparr>)"

definition decode_friend_request :: "crypto \<Rightarrow> bytes \<Rightarrow> bytes \<Rightarrow> friend_request_payload res" where
  "decode_friend_request C bs recipient_priv =
     res_bind (unseal C (drop HINT_SIZE bs) recipient_priv) read_friend_request"

definition accept_body :: "friend_accept_payload \<Rightarrow> bytes res" where
  "accept_body p =
     res_bind (pack_identity (fa_username p) (fa_curve25519_pub p) (fa_ed25519_pub p)) (\<lambda>body.
       case fa_capability_token p of
         None \<Rightarrow> res_bind (struct_pack ''>B'' [VI 0]) (\<lambda>z. Inr (body @ z))
       | Some t \<Rightarrow>
           if length t \<noteq> TOKEN_SIZE then Inl (ValueError ''capability token has wrong size'')
           else res_bind (struct_pack ''>B'' [VI 1]) (\<lambda>z. Inr (body @ z @ t)))"

definition encode_friend_accept ::
    "crypto \<Rightarrow> bytes \<Rightarrow> friend_accept_payload \<Rightarrow> bytes \<Rightarrow> bytes \<Rightarrow> bytes res" where
  "encode_friend_accept C eph p recipient_hint recipient_pub =
     res_bind (accept_body p) (\<lambda>body.
     res_bind (seal C eph body recipient_pub) (\<lambda>s. Inr (recipient_hint @ s)))"

definition read_friend_accept :: "bytes \<Rightarrow> friend_accept_payload res" where
  "read_friend_accept body =
     res_bind (unpack_identity body) (\<lambda>(username, curve_pub, ed_pub', rest).
       if length rest < 1 then Inl (ValueError ''FRIEND_ACCEPT payload truncated'')
       else
         let has_token = rest ! 0; rest' = drop 1 rest;
             payload_with = (\<lambda>t. \<lparr> fa_username = username, fa_curve25519_pub = curve_pub,
                                 fa_ed25519_pub = ed_pub', fa_capability_token = t \<rparr>) in
         if has_token \<noteq> 0 then
           (if length rest' \<noteq> TOKEN_SIZE then Inl (ValueError ''FRIEND_ACCEPT token block malformed'')
            else Inr (payload_with (Some rest')))
         else if rest' \<noteq> [] then Inl (ValueError ''trailing bytes in FRIEND_ACCEPT payload'')
         else Inr (payload_with None))"

definition decode_friend_accept :: "crypto \<Rightarrow> bytes \<Rightarrow> bytes \<Rightarrow> friend_accept_payload res" where
  "decode_friend_accept C bs recipient_priv =
     res_bind (unseal C (drop HINT_SIZE bs) recipient_priv) read_friend_accept"

definition encode_friend_decline :: "bytes \<Rightarrow> bytes \<Rightarrow> bytes res" where
  "encode_friend_decline request_msg_id recipient_hint =
     (if length request_msg_id \<noteq> 16 then Inl (ValueError ''msg_id must be 16 bytes'')
      else Inr (recipient_hint @ request_msg_id))"

definition decode_friend_decline :: "bytes \<Rightarrow> bytes res" where
  "decode_friend_decline bs =
     (if length bs \<noteq> HINT_SIZE + 16 then Inl (ValueError ''FRIEND_DECLINE payload malformed'')
      else Inr (drop HINT_SIZE bs))"

definition dm_body :: "pystr \<Rightarrow> bytes res" where
  "dm_body txt =
     res_bind (utf8_encode txt) (\<lambda>body.
       if \<not> (1 \<le> length body \<and> length body \<le> MAX_DM_TEXT_BYTES)
       then Inl (ValueError (''DM text must be 1-'' @ show_nat MAX_DM_TEXT_BYTES @ '' UTF-8 bytes''))
       else Inr body)"

definition encode_direct_message :: "crypto \<Rightarrow> bytes \<Rightarrow> pystr \<Rightarrow> bytes \<Rightarrow> bytes \<Rightarrow> bytes res" where
  "encode_direct_message C eph txt recipient_hint recipient_pub =
     res_bind (dm_body txt) (\<lambda>body.
     res_bind (seal C eph body recipient_pub) (\<lambda>s. Inr (recipient_hint @ s)))"

definition read_direct_message :: "bytes \<Rightarrow> pystr res" where
  "read_direct_message body =
     (if \<not> (1 \<le> length body \<and> length body \<le> MAX_DM_TEXT_BYTES)
      then Inl (ValueError ''DIRECT_MESSAGE payload malformed'')
      else utf8_decode body)"

definition decode_direct_message :: "crypto \<Rightarrow> bytes \<Rightarrow> bytes \<Rightarrow> pystr res" where
  "decode_direct_message C bs recipient_priv =
     res_bind (unseal C (drop HINT_SIZE bs) recipient_priv) read_direct_message"

definition recipient_hint_of :: "bytes \<Rightarrow> bytes res" where
  "recipient_hint_of bs =
     (if length bs < HINT_SIZE then Inl (ValueError ''payload shorter than recipient hint'')
      else Inr (take HINT_SIZE bs))"

section \<open>Identity blocks\<close>

definition identity_ok :: "pystr \<Rightarrow> bytes \<Rightarrow> bytes \<Rightarrow> bool" where
  "identity_ok username curve_pub ed_pub' \<longleftrightarrow>
     (\<exists>n. utf8_encode username = Inr n \<and> 1 \<le> length n \<and> length n \<le> MAX_USERNAME_BYTES) \<and>
     length curve_pub = 32 \<and> length ed_pub' = 32"

lemma parse_fmt_1B [simp]: "parse_fmt ''>B'' = Inr [FUInt 1]"
  by (simp add: fmt_eval)

lemma be_bytes_1: "be_bytes 1 v = [word_of_int v]"
  by simp

lemma pack_identity_ok:
  assumes "identity_ok u c k"
  shows "\<exists>b. pack_identity u c k = Inr b \<and> length b \<le> 97 \<and> (\<forall>rest. unpack_identity (b @ rest) = Inr (u, c, k, rest))"
proof -
  obtain n where n: "utf8_encode u = Inr n" "1 \<le> length n" "length n \<le> 32"
    and k: "length c = 32" "length k = 32" using assms by (auto simp: identity_ok_def)
  have l: "unat (word_of_int (int (length n)) :: byte) = length n"
    using n by (simp add: unsigned_of_nat take_bit_eq_mod)
  have "unpack_identity ((word_of_int (int (length n)) # n @ c @ k) @ rest) = Inr (u, c, k, rest)" for rest
    using n k l utf8_decode_encode [OF n(1)] by (simp add: unpack_identity_def slice_def Let_def drop_Cons')
  then show ?thesis using n k
    by (auto simp: pack_identity_def struct_pack_def)
qed

lemma unpack_identity_ok:
  assumes "unpack_identity bs = Inr (u, c, k, rest)"
  shows "identity_ok u c k \<and> (\<exists>b. pack_identity u c k = Inr b \<and> bs = b @ rest)"
proof -
  obtain x ys where bs: "bs = x # ys" using assms by (cases bs) (auto simp: unpack_identity_def)
  define n where "n = unat x"
  have g: "1 \<le> n" "n \<le> 32" "n + 64 \<le> length ys" and u: "utf8_decode (take n ys) = Inr u"
    and c: "c = take 32 (drop n ys)" and k: "k = take 32 (drop (n + 32) ys)" and r: "rest = drop (n + 64) ys"
    using assms by (auto simp: unpack_identity_def bs Let_def slice_def n_def drop_Cons' add.commute split: if_splits)
  have e: "utf8_encode u = Inr (take n ys)" by (rule utf8_encode_decode [OF u])
  have x: "word_of_int (int n) = x" by (simp add: n_def)
  have "ys = take n ys @ c @ k @ rest"
    unfolding c k r
    using append_take_drop_id [of 32 "drop n ys"] append_take_drop_id [of 32 "drop (n + 32) ys"]
    by (simp add: add.commute)
  then show ?thesis
    using g e x by (auto simp: identity_ok_def pack_identity_def struct_pack_def bs c k)
qed

lemma unpack_identity_error: "unpack_identity bs = Inl e \<Longrightarrow> is_ValueError e"
  by (auto simp: unpack_identity_def Let_def res_bind_eq_Inl split: if_splits dest: utf8_decode_error)

section \<open>The formats\<close>

definition request_ok :: "friend_request_payload \<Rightarrow> bool" where
  "request_ok p \<longleftrightarrow> identity_ok (fr_username p) (fr_curve25519_pub p) (fr_ed25519_pub p)"

definition accept_ok :: "friend_accept_payload \<Rightarrow> bool" where
  "accept_ok p \<longleftrightarrow> identity_ok (fa_username p) (fa_curve25519_pub p) (fa_ed25519_pub p) \<and>
     (\<forall>t. fa_capability_token p = Some t \<longrightarrow> length t = TOKEN_SIZE)"

definition dm_ok :: "pystr \<Rightarrow> bool" where
  "dm_ok txt \<longleftrightarrow> (\<exists>b. utf8_encode txt = Inr b \<and> 1 \<le> length b \<and> length b \<le> MAX_DM_TEXT_BYTES)"

interpretation request_mail: sealed_mail encode_friend_request decode_friend_request
  "\<lambda>p. pack_identity (fr_username p) (fr_curve25519_pub p) (fr_ed25519_pub p)"
  read_friend_request request_ok 97
proof
  fix x assume "request_ok x"
  then obtain b where b: "pack_identity (fr_username x) (fr_curve25519_pub x) (fr_ed25519_pub x) = Inr b"
    "length b \<le> 97" "\<forall>rest. unpack_identity (b @ rest) =
       Inr (fr_username x, fr_curve25519_pub x, fr_ed25519_pub x, rest)"
    using pack_identity_ok unfolding request_ok_def by blast
  from b(3) [rule_format, of "[]"] b(1,2)
  show "\<exists>b. pack_identity (fr_username x) (fr_curve25519_pub x) (fr_ed25519_pub x) = Inr b \<and>
      read_friend_request b = Inr x \<and> length b \<le> 97"
    by (auto simp: read_friend_request_def)
next
  fix b x assume "read_friend_request b = Inr x"
  then show "request_ok x"
    using unpack_identity_ok by (fastforce simp: read_friend_request_def request_ok_def split: if_splits)
next
  fix b e assume "read_friend_request b = Inl e"
  then show "is_ValueError e"
    by (auto simp: read_friend_request_def res_bind_eq_Inl split: if_splits dest: unpack_identity_error)
qed (simp_all add: encode_friend_request_def decode_friend_request_def)

lemma accept_body_ok:
  assumes "accept_ok x"
  shows "\<exists>b. accept_body x = Inr b \<and> read_friend_accept b = Inr x \<and> length b \<le> 196"
proof -
  obtain b where b: "pack_identity (fa_username x) (fa_curve25519_pub x) (fa_ed25519_pub x) = Inr b"
    "length b \<le> 97" "\<And>rest. unpack_identity (b @ rest) =
       Inr (fa_username x, fa_curve25519_pub x, fa_ed25519_pub x, rest)"
    using pack_identity_ok assms unfolding accept_ok_def by blast
  show ?thesis
  proof (cases "fa_capability_token x")
    case None
    then have "accept_body x = Inr (b @ [0])"
      using b(1) by (simp add: accept_body_def struct_pack_def)
    then show ?thesis using b(2) None by (simp add: read_friend_accept_def b(3))
  next
    case (Some t)
    then have t: "length t = 98" using assms by (simp add: accept_ok_def)
    then have "accept_body x = Inr (b @ 1 # t)"
      using b(1) Some by (simp add: accept_body_def struct_pack_def)
    then show ?thesis using b(2) Some t by (simp add: read_friend_accept_def b(3))
  qed
qed

interpretation accept_mail: sealed_mail encode_friend_accept decode_friend_accept
  accept_body read_friend_accept accept_ok 196
proof
  fix x assume "accept_ok x"
  then show "\<exists>b. accept_body x = Inr b \<and> read_friend_accept b = Inr x \<and> length b \<le> 196"
    by (rule accept_body_ok)
next
  fix b x assume "read_friend_accept b = Inr x"
  then show "accept_ok x"
    using unpack_identity_ok
    by (fastforce simp: read_friend_accept_def accept_ok_def Let_def split: if_splits)
next
  fix b e assume "read_friend_accept b = Inl e"
  then show "is_ValueError e"
    by (auto simp: read_friend_accept_def res_bind_eq_Inl Let_def split: if_splits dest: unpack_identity_error)
qed (simp_all add: encode_friend_accept_def decode_friend_accept_def)

interpretation dm_mail: sealed_mail encode_direct_message decode_direct_message
  dm_body read_direct_message dm_ok MAX_DM_TEXT_BYTES
proof
  fix x assume "dm_ok x"
  then show "\<exists>b. dm_body x = Inr b \<and> read_direct_message b = Inr x \<and> length b \<le> MAX_DM_TEXT_BYTES"
    using utf8_decode_encode by (auto simp: dm_body_def read_direct_message_def dm_ok_def)
next
  fix b x assume "read_direct_message b = Inr x"
  then show "dm_ok x"
    using utf8_encode_decode by (auto simp: read_direct_message_def dm_ok_def split: if_splits)
next
  fix b e assume "read_direct_message b = Inl e"
  then show "is_ValueError e"
    by (auto simp: read_direct_message_def split: if_splits dest: utf8_decode_error)
qed (simp_all add: encode_direct_message_def decode_direct_message_def)

text \<open>A decline is a fixed-size layout behind its hint.\<close>

interpretation decline_layout: fixed_layout
  "\<lambda>(mid, hint). if length hint = HINT_SIZE then encode_friend_decline mid hint else Inl StructError"
  "\<lambda>bs. res_bind (decode_friend_decline bs) (\<lambda>mid. Inr (mid, take HINT_SIZE bs))"
  "\<lambda>(mid, hint). length mid = 16 \<and> length hint = HINT_SIZE" 24
  by unfold_locales
     (auto simp: encode_friend_decline_def decode_friend_decline_def intro!: exI [of _ "_ @ _"] split: if_splits)

text \<open>Every format: what stands in front is the hint.\<close>

lemma recipient_hint_of_take: "length hint = HINT_SIZE \<Longrightarrow> recipient_hint_of (hint @ s) = Inr hint"
  by (simp add: recipient_hint_of_def)

text \<open>The flag byte of an accepted FRIEND_ACCEPT is not determined by its value.\<close>

lemma accept_flag_malleable:
  assumes "pack_identity u c k = Inr b" "length t = TOKEN_SIZE" "identity_ok u c k" "f \<noteq> 0" "g \<noteq> 0"
  shows "read_friend_accept (b @ f # t) = read_friend_accept (b @ g # t)"
  using pack_identity_ok [OF assms(3)] assms by (auto simp: read_friend_accept_def)

section \<open>Sizes on the wire\<close>

lemma pack_identity_length: "pack_identity u c k = Inr b \<Longrightarrow> length b \<le> 97"
  by (auto simp: pack_identity_def struct_pack_def split: if_splits)

lemma accept_body_length: "accept_body p = Inr b \<Longrightarrow> length b \<le> 196"
  by (auto simp: accept_body_def struct_pack_def split: option.splits if_splits dest!: pack_identity_length)

lemma dm_body_length: "dm_body txt = Inr b \<Longrightarrow> length b \<le> MAX_DM_TEXT_BYTES"
  by (auto simp: dm_body_def split: if_splits)

lemma friend_mail_length:
  assumes "box_ok C"
  shows "encode_friend_request C eph p hint pub = Inr bs \<Longrightarrow> length bs \<le> length hint + 145"
    "encode_friend_accept C eph q hint pub = Inr bs \<Longrightarrow> length bs \<le> length hint + 244"
    "encode_direct_message C eph t hint pub = Inr bs \<Longrightarrow> length bs \<le> length hint + 313"
  by (auto simp: encode_friend_request_def encode_friend_accept_def encode_direct_message_def
      dest!: seal_length [OF assms] pack_identity_length accept_body_length dm_body_length)

section \<open>The mail as its users see it\<close>

text \<open>
  A friend request sealed to a recipient's key reaches the recipient as it was sent, shows the hint it
  was addressed with to everyone, and takes at most 153 bytes.
\<close>

lemma friend_request_roundtrip:
  assumes "box_ok C" "box_total C" "length eph = 32" "length priv = 32" "x_base C priv = Inr pub"
    and "length hint = HINT_SIZE" "request_ok p"
  shows "\<exists>bs. encode_friend_request C eph p hint pub = Inr bs \<and> decode_friend_request C bs priv = Inr p \<and>
     recipient_hint_of bs = Inr hint \<and> length bs \<le> 153"
proof -
  obtain bs where bs: "encode_friend_request C eph p hint pub = Inr bs"
    using request_mail.sent [OF assms(1-5,7)] by blast
  from request_mail.arrives [OF assms(1,3-7) bs] bs assms(6) show ?thesis
    by (cases "length bs < 8") (auto simp: recipient_hint_of_def)
qed

lemma friend_request_roundtrip_witness:
  "\<exists>bs. encode_friend_request toy_crypto (replicate 32 5) \<lparr>fr_username = [97, 233], fr_curve25519_pub = replicate 32 1, fr_ed25519_pub = replicate 32 2\<rparr> [1, 2, 3, 4, 5, 6, 7, 8]
       (replicate 31 6 @ [1]) = Inr bs \<and>
     decode_friend_request toy_crypto bs (replicate 32 6) = Inr \<lparr>fr_username = [97, 233], fr_curve25519_pub = replicate 32 1, fr_ed25519_pub = replicate 32 2\<rparr> \<and> length bs \<le> 153"
proof -
  have k: "x_base toy_crypto (replicate 32 6) = Inr (replicate 31 6 @ [1])"
    by (simp add: toy_crypto_def pad_to_def)
  have "request_ok \<lparr>fr_username = [97, 233], fr_curve25519_pub = replicate 32 1, fr_ed25519_pub = replicate 32 2\<rparr>"
    by (simp add: request_ok_def identity_ok_def utf8_encode_def scalar_def utf8_char_def)
  from friend_request_roundtrip [OF toy_box_ok toy_box_total _ _ k _ this, of "replicate 32 5" "[1, 2, 3, 4, 5, 6, 7, 8]"]
  show ?thesis by auto
qed

text \<open>
  A friend acceptance, with or without its capability token, sealed to a recipient's key reaches the recipient as it was sent, shows the hint it
  was addressed with to everyone, and takes at most 252 bytes.
\<close>

lemma friend_accept_roundtrip:
  assumes "box_ok C" "box_total C" "length eph = 32" "length priv = 32" "x_base C priv = Inr pub"
    and "length hint = HINT_SIZE" "accept_ok p"
  shows "\<exists>bs. encode_friend_accept C eph p hint pub = Inr bs \<and> decode_friend_accept C bs priv = Inr p \<and>
     recipient_hint_of bs = Inr hint \<and> length bs \<le> 252"
proof -
  obtain bs where bs: "encode_friend_accept C eph p hint pub = Inr bs"
    using accept_mail.sent [OF assms(1-5,7)] by blast
  from accept_mail.arrives [OF assms(1,3-7) bs] bs assms(6) show ?thesis
    by (cases "length bs < 8") (auto simp: recipient_hint_of_def)
qed

lemma friend_accept_roundtrip_witness:
  "\<exists>bs. encode_friend_accept toy_crypto (replicate 32 5) \<lparr>fa_username = [97, 233], fa_curve25519_pub = replicate 32 1, fa_ed25519_pub = replicate 32 2, fa_capability_token = Some (replicate 98 3)\<rparr> [1, 2, 3, 4, 5, 6, 7, 8]
       (replicate 31 6 @ [1]) = Inr bs \<and>
     decode_friend_accept toy_crypto bs (replicate 32 6) = Inr \<lparr>fa_username = [97, 233], fa_curve25519_pub = replicate 32 1, fa_ed25519_pub = replicate 32 2, fa_capability_token = Some (replicate 98 3)\<rparr> \<and> length bs \<le> 252"
proof -
  have k: "x_base toy_crypto (replicate 32 6) = Inr (replicate 31 6 @ [1])"
    by (simp add: toy_crypto_def pad_to_def)
  have "accept_ok \<lparr>fa_username = [97, 233], fa_curve25519_pub = replicate 32 1, fa_ed25519_pub = replicate 32 2, fa_capability_token = Some (replicate 98 3)\<rparr>"
    by (simp add: accept_ok_def identity_ok_def utf8_encode_def scalar_def utf8_char_def)
  from friend_accept_roundtrip [OF toy_box_ok toy_box_total _ _ k _ this, of "replicate 32 5" "[1, 2, 3, 4, 5, 6, 7, 8]"]
  show ?thesis by auto
qed

text \<open>
  A direct message sealed to a recipient's key reaches the recipient as it was sent, shows the hint it
  was addressed with to everyone, and takes at most 321 bytes.
\<close>

lemma direct_message_roundtrip:
  assumes "box_ok C" "box_total C" "length eph = 32" "length priv = 32" "x_base C priv = Inr pub"
    and "length hint = HINT_SIZE" "dm_ok p"
  shows "\<exists>bs. encode_direct_message C eph p hint pub = Inr bs \<and> decode_direct_message C bs priv = Inr p \<and>
     recipient_hint_of bs = Inr hint \<and> length bs \<le> 321"
proof -
  obtain bs where bs: "encode_direct_message C eph p hint pub = Inr bs"
    using dm_mail.sent [OF assms(1-5,7)] by blast
  from dm_mail.arrives [OF assms(1,3-7) bs] bs assms(6) show ?thesis
    by (cases "length bs < 8") (auto simp: recipient_hint_of_def)
qed

lemma direct_message_roundtrip_witness:
  "\<exists>bs. encode_direct_message toy_crypto (replicate 32 5) [104, 8364] [1, 2, 3, 4, 5, 6, 7, 8]
       (replicate 31 6 @ [1]) = Inr bs \<and>
     decode_direct_message toy_crypto bs (replicate 32 6) = Inr [104, 8364] \<and> length bs \<le> 321"
proof -
  have k: "x_base toy_crypto (replicate 32 6) = Inr (replicate 31 6 @ [1])"
    by (simp add: toy_crypto_def pad_to_def)
  have "dm_ok [104, 8364]"
    by (simp add: dm_ok_def utf8_encode_def scalar_def utf8_char_def)
  from direct_message_roundtrip [OF toy_box_ok toy_box_total _ _ k _ this, of "replicate 32 5" "[1, 2, 3, 4, 5, 6, 7, 8]"]
  show ?thesis by auto
qed


end
