(* ===== verification/Location_Wire.thy ===== *)
theory Location_Wire
  imports Mail Token
begin

text \<open>
  \<^emph>\<open>location/wire.py\<close>: the payloads of LOCATION (the beacon), LOCATION_QUERY,
  LOCATION_RESPONSE and LOCATION_REVOKE. Field names carry a prefix.
\<close>

definition BEACON_FORMAT :: string where "BEACON_FORMAT = ''>iiH''"
definition BEACON_PAYLOAD_SIZE :: nat where [simp]: "BEACON_PAYLOAD_SIZE = 10"
definition RESPONSE_FORMAT :: string where "RESPONSE_FORMAT = ''>8siiHIH''"
definition RESPONSE_SIZE :: nat where [simp]: "RESPONSE_SIZE = 24"
definition REVOKE_FORMAT :: string where "REVOKE_FORMAT = ''>8s8sI8s''"
definition REVOKE_PAYLOAD_SIZE :: nat where [simp]: "REVOKE_PAYLOAD_SIZE = 28"

record location_response_payload =
  lr_target_pubkey_id :: bytes
  lr_lat_microdeg :: int
  lr_lon_microdeg :: int
  lr_accuracy_m :: int
  lr_beacon_age_s :: int
  lr_zone_id :: int

record location_revoke_payload =
  lv_issuer_pubkey_id :: bytes
  lv_grantee_pubkey_id :: bytes
  lv_issued_at :: int
  lv_nonce :: bytes

definition revoke_payload_key :: "location_revoke_payload \<Rightarrow> bytes \<times> bytes \<times> int \<times> bytes" where
  "revoke_payload_key p = (lv_issuer_pubkey_id p, lv_grantee_pubkey_id p, lv_issued_at p, lv_nonce p)"

definition encode_location_query :: "bytes \<Rightarrow> bytes res" where
  "encode_location_query capability_token =
     (if length capability_token \<noteq> TOKEN_SIZE then Inl (ValueError ''capability token has wrong size'')
      else Inr capability_token)"

definition decode_location_query :: "bytes \<Rightarrow> bytes res" where
  "decode_location_query bs =
     (if length bs \<noteq> TOKEN_SIZE then Inl (ValueError ''LOCATION_QUERY payload malformed'') else Inr bs)"

definition response_values :: "location_response_payload \<Rightarrow> fval list" where
  "response_values p =
     [VB (lr_target_pubkey_id p), VI (lr_lat_microdeg p), VI (lr_lon_microdeg p), VI (lr_accuracy_m p),
      VI (lr_beacon_age_s p), VI (lr_zone_id p)]"

definition encode_location_response ::
    "crypto \<Rightarrow> bytes \<Rightarrow> location_response_payload \<Rightarrow> bytes \<Rightarrow> bytes \<Rightarrow> bytes res" where
  "encode_location_response C eph p requester_hint requester_pub =
     res_bind (struct_pack RESPONSE_FORMAT (response_values p)) (\<lambda>body.
     res_bind (seal C eph body requester_pub) (\<lambda>s. Inr (requester_hint @ s)))"

definition read_location_response :: "bytes \<Rightarrow> location_response_payload res" where
  "read_location_response body =
     (if length body \<noteq> RESPONSE_SIZE then Inl (ValueError ''LOCATION_RESPONSE payload malformed'')
      else res_bind (struct_unpack RESPONSE_FORMAT body) (\<lambda>fields.
        case fields of
          [VB target_id, VI lat, VI lon, VI acc, VI age_s, VI zid] \<Rightarrow>
            Inr \<lparr> lr_target_pubkey_id = target_id, lr_lat_microdeg = lat, lr_lon_microdeg = lon,
                  lr_accuracy_m = acc, lr_beacon_age_s = age_s, lr_zone_id = zid \<rparr>
        | _ \<Rightarrow> Inl (ValueError ''unpack'')))"

definition decode_location_response :: "crypto \<Rightarrow> bytes \<Rightarrow> bytes \<Rightarrow> location_response_payload res" where
  "decode_location_response C bs requester_priv =
     res_bind (unseal C (drop HINT_SIZE bs) requester_priv) read_location_response"

definition revoke_values :: "location_revoke_payload \<Rightarrow> fval list" where
  "revoke_values p =
     [VB (lv_issuer_pubkey_id p), VB (lv_grantee_pubkey_id p), VI (lv_issued_at p), VB (lv_nonce p)]"

definition encode_location_revoke :: "location_revoke_payload \<Rightarrow> bytes res" where
  "encode_location_revoke p = struct_pack REVOKE_FORMAT (revoke_values p)"

definition decode_location_revoke :: "bytes \<Rightarrow> location_revoke_payload res" where
  "decode_location_revoke bs =
     (if length bs \<noteq> REVOKE_PAYLOAD_SIZE then Inl (ValueError ''LOCATION_REVOKE payload malformed'')
      else res_bind (struct_unpack REVOKE_FORMAT bs) (\<lambda>fields.
        case fields of
          [VB issuer_id, VB grantee_id, VI ia, VB nc] \<Rightarrow>
            Inr \<lparr> lv_issuer_pubkey_id = issuer_id, lv_grantee_pubkey_id = grantee_id, lv_issued_at = ia,
                  lv_nonce = nc \<rparr>
        | _ \<Rightarrow> Inl (ValueError ''unpack'')))"

definition encode_location_beacon :: "int \<Rightarrow> int \<Rightarrow> int \<Rightarrow> bytes res" where
  "encode_location_beacon lat lon acc = struct_pack BEACON_FORMAT [VI lat, VI lon, VI acc]"

definition decode_location_beacon :: "bytes \<Rightarrow> (int \<times> int \<times> int) res" where
  "decode_location_beacon bs =
     (if length bs \<noteq> BEACON_PAYLOAD_SIZE then Inl (ValueError ''LOCATION beacon payload malformed'')
      else res_bind (struct_unpack BEACON_FORMAT bs) (\<lambda>fields.
        case fields of
          [VI lat, VI lon, VI acc] \<Rightarrow> Inr (lat, lon, acc)
        | _ \<Rightarrow> Inl (ValueError ''unpack'')))"

section \<open>Layouts\<close>

definition beacon_items :: "fmt list" where "beacon_items = [FInt 4, FInt 4, FUInt 2]"
definition response_items :: "fmt list" where
  "response_items = [FStr 8, FInt 4, FInt 4, FUInt 2, FUInt 4, FUInt 2]"
definition revoke_items :: "fmt list" where "revoke_items = [FStr 8, FStr 8, FUInt 4, FStr 8]"

lemma parse_location_formats [simp]:
  "parse_fmt BEACON_FORMAT = Inr beacon_items"
  "parse_fmt RESPONSE_FORMAT = Inr response_items"
  "parse_fmt REVOKE_FORMAT = Inr revoke_items"
  by (simp_all add: BEACON_FORMAT_def beacon_items_def RESPONSE_FORMAT_def response_items_def
      REVOKE_FORMAT_def revoke_items_def fmt_eval)

lemma location_items_size [simp]:
  "items_size beacon_items = 10" "items_size response_items = 24" "items_size revoke_items = 28"
  by (simp_all add: beacon_items_def response_items_def revoke_items_def)

lemma location_items_wf [simp]:
  "list_all wf_fmt beacon_items" "list_all wf_fmt response_items" "list_all wf_fmt revoke_items"
  by (simp_all add: beacon_items_def response_items_def revoke_items_def)

text \<open>The sizes the module computes with \<^emph>\<open>struct.calcsize\<close>.\<close>

lemma location_calcsize:
  "struct_calcsize BEACON_FORMAT = Inr BEACON_PAYLOAD_SIZE"
  "struct_calcsize RESPONSE_FORMAT = Inr RESPONSE_SIZE"
  "struct_calcsize REVOKE_FORMAT = Inr REVOKE_PAYLOAD_SIZE"
  by (simp_all add: struct_calcsize_def)

definition beacon_ok :: "int \<times> int \<times> int \<Rightarrow> bool" where
  "beacon_ok = (\<lambda>(lat, lon, acc). - (2 ^ 31) \<le> lat \<and> lat < 2 ^ 31 \<and> - (2 ^ 31) \<le> lon \<and> lon < 2 ^ 31 \<and>
     0 \<le> acc \<and> acc < 2 ^ 16)"

definition response_ok :: "location_response_payload \<Rightarrow> bool" where
  "response_ok p \<longleftrightarrow> length (lr_target_pubkey_id p) = 8 \<and>
     - (2 ^ 31) \<le> lr_lat_microdeg p \<and> lr_lat_microdeg p < 2 ^ 31 \<and>
     - (2 ^ 31) \<le> lr_lon_microdeg p \<and> lr_lon_microdeg p < 2 ^ 31 \<and>
     0 \<le> lr_accuracy_m p \<and> lr_accuracy_m p < 2 ^ 16 \<and>
     0 \<le> lr_beacon_age_s p \<and> lr_beacon_age_s p < 2 ^ 32 \<and> 0 \<le> lr_zone_id p \<and> lr_zone_id p < 2 ^ 16"

definition revoke_ok :: "location_revoke_payload \<Rightarrow> bool" where
  "revoke_ok p \<longleftrightarrow> length (lv_issuer_pubkey_id p) = 8 \<and> length (lv_grantee_pubkey_id p) = 8 \<and>
     0 \<le> lv_issued_at p \<and> lv_issued_at p < 2 ^ 32 \<and> length (lv_nonce p) = 8"

lemma fits_Cons_ex:
  "fits (FStr n # fs) vs \<longleftrightarrow> (\<exists>b ws. vs = VB b # ws \<and> length b = n \<and> fits fs ws)"
  "fits (FUInt n # fs) vs \<longleftrightarrow> (\<exists>v ws. vs = VI v # ws \<and> 0 \<le> v \<and> v < 256 ^ n \<and> fits fs ws)"
  "fits (FInt n # fs) vs \<longleftrightarrow>
     (\<exists>v ws. vs = VI v # ws \<and> 0 < n \<and> - (256 ^ n div 2) \<le> v \<and> v < 256 ^ n div 2 \<and> fits fs ws)"
  by (cases vs; cases "hd vs"; auto)+

lemma beacon_fixed: "fixed_layout (\<lambda>(lat, lon, acc). encode_location_beacon lat lon acc) decode_location_beacon beacon_ok (items_size beacon_items)"
proof (rule struct_layoutI [where s = BEACON_FORMAT and vals_of = "\<lambda>(lat, lon, acc). [VI lat, VI lon, VI acc]" and e = "ValueError ''LOCATION beacon payload malformed''"
    and of_vals = "\<lambda>vs. case vs of [VI lat, VI lon, VI acc] \<Rightarrow> Inr (lat, lon, acc) | _ \<Rightarrow> Inl (ValueError ''unpack'')"])
  show "parse_fmt BEACON_FORMAT = Inr beacon_items" "list_all wf_fmt beacon_items" by simp_all
qed (auto simp: encode_location_beacon_def decode_location_beacon_def beacon_ok_def beacon_items_def
      fits_Cons_ex struct_unpack_def unpack_exact_def)

interpretation beacon_layout: fixed_layout "(\<lambda>(lat, lon, acc). encode_location_beacon lat lon acc)" decode_location_beacon beacon_ok 10
  using beacon_fixed by simp

lemma revoke_fixed: "fixed_layout encode_location_revoke decode_location_revoke revoke_ok (items_size revoke_items)"
proof (rule struct_layoutI [where s = REVOKE_FORMAT and vals_of = "revoke_values" and e = "ValueError ''LOCATION_REVOKE payload malformed''"
    and of_vals = "\<lambda>vs. case vs of [VB i, VB g, VI t, VB n] \<Rightarrow> Inr \<lparr> lv_issuer_pubkey_id = i,
      lv_grantee_pubkey_id = g, lv_issued_at = t, lv_nonce = n \<rparr> | _ \<Rightarrow> Inl (ValueError ''unpack'')"])
  show "parse_fmt REVOKE_FORMAT = Inr revoke_items" "list_all wf_fmt revoke_items" by simp_all
qed (auto simp: encode_location_revoke_def decode_location_revoke_def revoke_values_def revoke_ok_def revoke_items_def
      fits_Cons_ex struct_unpack_def unpack_exact_def)

interpretation revoke_layout: fixed_layout "encode_location_revoke" decode_location_revoke revoke_ok 28
  using revoke_fixed by simp

lemma response_fixed: "fixed_layout (\<lambda>p. struct_pack RESPONSE_FORMAT (response_values p)) read_location_response response_ok (items_size response_items)"
proof (rule struct_layoutI [where s = RESPONSE_FORMAT and vals_of = "response_values" and e = "ValueError ''LOCATION_RESPONSE payload malformed''"
    and of_vals = "\<lambda>vs. case vs of [VB t, VI la, VI lo, VI a, VI s, VI z] \<Rightarrow> Inr \<lparr> lr_target_pubkey_id = t,
      lr_lat_microdeg = la, lr_lon_microdeg = lo, lr_accuracy_m = a, lr_beacon_age_s = s,
      lr_zone_id = z \<rparr> | _ \<Rightarrow> Inl (ValueError ''unpack'')"])
  show "parse_fmt RESPONSE_FORMAT = Inr response_items" "list_all wf_fmt response_items" by simp_all
qed (auto simp: read_location_response_def response_values_def response_ok_def response_items_def
      fits_Cons_ex struct_unpack_def unpack_exact_def)

interpretation response_layout: fixed_layout "(\<lambda>p. struct_pack RESPONSE_FORMAT (response_values p))" read_location_response response_ok 24
  using response_fixed by simp

lemma read_location_response_error: "read_location_response b = Inl e \<Longrightarrow> is_ValueError e"
  by (auto simp: read_location_response_def struct_unpack_def unpack_exact_def response_items_def split: if_splits)

interpretation response_mail: sealed_mail encode_location_response decode_location_response
  "\<lambda>p. struct_pack RESPONSE_FORMAT (response_values p)" read_location_response response_ok 24
proof
  fix x assume "response_ok x"
  from response_layout.enc_ok [OF this]
  show "\<exists>b. struct_pack RESPONSE_FORMAT (response_values x) = Inr b \<and> read_location_response b = Inr x \<and>
      length b \<le> 24" by auto
qed (auto simp: encode_location_response_def decode_location_response_def
     dest: response_layout.dec_ok read_location_response_error)

interpretation query_layout: fixed_layout encode_location_query decode_location_query
  "\<lambda>t. length t = TOKEN_SIZE" 98
  by unfold_locales (auto simp: encode_location_query_def decode_location_query_def split: if_splits)

text \<open>The revocation of a token names that token and no other with the same fields.\<close>

definition revoke_of :: "capability_token \<Rightarrow> location_revoke_payload" where
  "revoke_of t = \<lparr> lv_issuer_pubkey_id = tok_issuer t, lv_grantee_pubkey_id = tok_grantee t,
     lv_issued_at = tok_issued_at t, lv_nonce = tok_nonce t \<rparr>"

lemma revoke_of_ok: "token_ok t \<Longrightarrow> revoke_ok (revoke_of t)"
  by (simp add: token_ok_def token_values_def body_items_def revoke_ok_def revoke_of_def)

lemma revoke_of_key: "revoke_payload_key (revoke_of t) = revocation_key t"
  by (simp add: revoke_payload_key_def revoke_of_def revocation_key_def)

lemma struct_pack_length: "struct_pack f vs = Inr b \<Longrightarrow> parse_fmt f = Inr fs \<Longrightarrow> length b = items_size fs"
  by (auto simp: struct_pack_def dest: pack_items_length)

lemma location_mail_length:
  "box_ok C \<Longrightarrow> encode_location_response C eph p hint pub = Inr bs \<Longrightarrow> length bs = length hint + 72"
  "encode_location_revoke r = Inr bs \<Longrightarrow> length bs = 28"
  "encode_location_query t = Inr bs \<Longrightarrow> length bs = 98"
  "encode_location_beacon lat lon acc = Inr bs \<Longrightarrow> length bs = 10"
  by (auto simp: encode_location_response_def encode_location_revoke_def encode_location_query_def
      encode_location_beacon_def split: if_splits dest!: struct_pack_length seal_length)

section \<open>The payloads as their users see them\<close>

text \<open>
  The location payloads are exact layouts: a beacon, a revocation and a query decode to a
  value if and only if they are that value's encoding, with every field in its range.
\<close>

lemma location_layouts_exact:
  "(decode_location_beacon bs = Inr (lat, lon, acc) \<longleftrightarrow>
      beacon_ok (lat, lon, acc) \<and> encode_location_beacon lat lon acc = Inr bs) \<and>
   (decode_location_revoke bs = Inr r \<longleftrightarrow> revoke_ok r \<and> encode_location_revoke r = Inr bs) \<and>
   (decode_location_query bs = Inr t \<longleftrightarrow> encode_location_query t = Inr bs)"
proof -
  have "decode_location_beacon bs = Inr (lat, lon, acc) \<longleftrightarrow>
      beacon_ok (lat, lon, acc) \<and> encode_location_beacon lat lon acc = Inr bs"
    using beacon_layout.dec_ok [of bs "(lat, lon, acc)"] beacon_layout.enc_ok [of "(lat, lon, acc)"] by auto
  moreover have "decode_location_revoke bs = Inr r \<longleftrightarrow> revoke_ok r \<and> encode_location_revoke r = Inr bs"
    using revoke_layout.dec_ok [of bs r] revoke_layout.enc_ok [of r] by auto
  moreover have "decode_location_query bs = Inr t \<longleftrightarrow> encode_location_query t = Inr bs"
    by (auto simp: encode_location_query_def decode_location_query_def)
  ultimately show ?thesis by blast
qed

text \<open>
  A location response sealed to the requester reaches the requester as it was sent; on the
  wire it is always exactly 80 bytes, whatever the coordinate.
\<close>

lemma location_response_roundtrip:
  assumes "box_ok C" "box_total C" "length eph = 32" "length priv = 32" "x_base C priv = Inr pub"
    and "length hint = HINT_SIZE" "response_ok p"
  shows "\<exists>bs. encode_location_response C eph p hint pub = Inr bs \<and> decode_location_response C bs priv = Inr p \<and>
     take HINT_SIZE bs = hint \<and> length bs = 80"
proof -
  obtain b where b: "struct_pack RESPONSE_FORMAT (response_values p) = Inr b" "length b = 24"
    using response_layout.enc_ok [OF assms(7)] by blast
  obtain s where s: "seal C eph b pub = Inr s" using seal_total [OF assms(1-5)] by blast
  then have e: "encode_location_response C eph p hint pub = Inr (hint @ s)"
    using b by (simp add: encode_location_response_def)
  from response_mail.arrives [OF assms(1,3-7) e] e seal_length [OF assms(1) s] b(2) assms(6)
  show ?thesis by auto
qed

lemma location_response_roundtrip_witness:
  "\<exists>bs. encode_location_response toy_crypto (replicate 32 5)
       \<lparr>lr_target_pubkey_id = replicate 8 1, lr_lat_microdeg = - 33868800, lr_lon_microdeg = 151209300,
        lr_accuracy_m = 12, lr_beacon_age_s = 30, lr_zone_id = 3\<rparr> [1, 2, 3, 4, 5, 6, 7, 8]
       (replicate 31 6 @ [1]) = Inr bs \<and> length bs = 80"
proof -
  let ?p = "\<lparr>lr_target_pubkey_id = replicate 8 1, lr_lat_microdeg = - 33868800, lr_lon_microdeg = 151209300,
        lr_accuracy_m = 12, lr_beacon_age_s = 30, lr_zone_id = 3\<rparr>"
  have k: "x_base toy_crypto (replicate 32 6) = Inr (replicate 31 6 @ [1])"
    by (simp add: toy_crypto_def pad_to_def)
  have "response_ok ?p" by (simp add: response_ok_def)
  from location_response_roundtrip [OF toy_box_ok toy_box_total _ _ k _ this, of "replicate 32 5" "[1, 2, 3, 4, 5, 6, 7, 8]"]
  show ?thesis by auto
qed

text \<open>
  A revocation names its token: the revocation built from a received token travels in 28
  bytes and decodes to a payload whose key is the token's revocation key.
\<close>

lemma revocation_names_token:
  assumes "parse_token bs = Inr t"
  shows "\<exists>w r. encode_location_revoke (revoke_of t) = Inr w \<and> length w = REVOKE_PAYLOAD_SIZE \<and>
     decode_location_revoke w = Inr r \<and> revoke_payload_key r = revocation_key t"
  using revoke_layout.enc_ok [OF revoke_of_ok [OF parse_token_InrD(5) [OF assms]]] revoke_of_key [of t] by auto

lemma revocation_names_token_witness:
  "\<exists>t w r. parse_token (replicate 98 1) = Inr t \<and> encode_location_revoke (revoke_of t) = Inr w \<and>
     decode_location_revoke w = Inr r \<and> revoke_payload_key r = revocation_key t"
proof -
  obtain t where t: "parse_token (replicate 98 1) = Inr t" using parse_token_98 [of "replicate 98 1"] by auto
  from revocation_names_token [OF t] t show ?thesis by blast
qed

end
