(* ===== verification/End_To_End.thy ===== *)
theory End_To_End
  imports Reach Friend_Wire Location_Wire
begin

text \<open>
  The components together, from one user to another: a direct message is encoded, sealed, put into a
  signed packet, relayed over the mesh, delivered and opened; and a location grant is issued, carried by
  an acceptance, presented in a query, checked, answered and revoked. The definitions are those of
  the components.
\<close>

section \<open>Delivery at a distance\<close>

text \<open>A new device delivers every copy of a good packet, at any time the packet is fresh.\<close>

lemma new_device_delivers:
  assumes "bloom_ok B" "ed25519_errors C" "parse_packet bs = Inr m" "sig_valid C m" "length bs \<le> 460" "0 < ttl m"
    and "relayed bs h cs" "fresh (clk_timestamp clk) (timestamp m)" "0 \<le> clk_rate clk"
  shows "accepts (fst (process B C (clk, cs) (new_pipeline B None)))
    (m\<lparr>raw := cs, ttl := ttl m - int h, spray_l := spray_l m div 2 ^ h\<rparr>)"
proof -
  let ?m = "m\<lparr>raw := cs, ttl := ttl m - int h, spray_l := spray_l m div 2 ^ h\<rparr>"
  have m: "parse_packet cs = Inr ?m" "0 < h \<longrightarrow> int h < ttl m" using relayed_same [OF assms(7,3)] by auto
  have inv: "pipeline_inv B C undefined (new_pipeline B None)"
    by (intro new_pipeline_inv assms(1,2)) (simp add: attested_inv_def)
  have "clears B C clk cs (new_pipeline B None) ?m"
    using assms(4-6,8,9) m(2) relayed_length [OF assms(7)] relayed_sig [OF assms(7,3) m(1), of C]
    by (intro new_pipeline_clears [OF assms(1) m(1)]) (cases "h = 0"; simp)+
  then show ?thesis by (simp add: accepts_clears [OF inv])
qed

text \<open>A packet of an application, handed to one of a mesh of new devices, is delivered at any device within reach.\<close>

lemma packet_reaches:
  assumes C: "ed25519_ok C" "ed25519_errors C" "hash_ok C" and B: "bloom_ok B"
    and args: "header_args_ok eid ts hops l zid mtype pl" "0 < hops" "length pl \<le> 321"
    and mesh: "\<And>i. dev_pipeline (devices n i) = new_pipeline B None" "(link n ^^ h) src d"
      "h = 0 \<or> int h < hops \<and> 2 ^ h \<le> l"
    and bs: "build_signed_packet C i eid hops l zid mtype pl (Some ts) now = Inr bs"
    and clk: "fresh (clk_timestamp clk) ts" "0 \<le> clk_rate clk"
  shows "\<exists>n' cs m. (net_step B C)\<^sup>*\<^sup>* (sent_at src bs n) n' \<and> (d, cs) \<in># in_flight n' \<and>
    accepts (fst (process B C (clk, cs) (dev_pipeline (devices n' (d))))) m \<and>
    payload m = pl \<and> sender_key m = public_key C i \<and> msg_type m = mtype \<and> zone_id m = zid"
proof -
  obtain m where m: "length bs = 139 + length pl" "parse_packet bs = Inr m" "sig_valid C m"
    and f: "sender_key m = public_key C i" "timestamp m = ts" "ttl m = hops" "spray_l m = l" "payload m = pl"
      "msg_type m = mtype" "zone_id m = zid"
    using build_signed_packet_parse [OF C(1,3) args(1), of i now] bs by fastforce
  have size: "length bs \<le> 460" using m(1) args(3) by simp
  obtain n' cs k where n': "(net_step B C)\<^sup>*\<^sup>* (sent_at src bs n) n'" "(d, cs) \<in># in_flight n'" "relayed bs k cs"
    "devices n' d = devices n d"
    using spray_near [OF B C(2) m(2,3) size mesh(1,2)] mesh(3) unfolding f by blast
  have "accepts (fst (process B C (clk, cs) (dev_pipeline (devices n' d))))
    (m\<lparr>raw := cs, ttl := hops - int k, spray_l := l div 2 ^ k\<rparr>)"
    using new_device_delivers [OF B C(2) m(2,3) size _ n'(3), of clk] args(2) clk mesh(1) [of d] f unfolding n'(4) by simp
  with n' f show ?thesis by (intro exI [of _ n'] exI [of _ cs]) auto
qed

section \<open>Direct messages\<close>

text \<open>
  C9: A direct message gets through: a text sealed to a friend, signed and handed to a device of
  a mesh of new devices can travel to any device within reach, is delivered there at every moment
  the packet is fresh, as a DIRECT_MESSAGE of its author, shows the friend's hint, and opens to the text
  under the friend's key.
\<close>

theorem direct_message_end_to_end:
  assumes C: "ed25519_ok C" "ed25519_errors C" "hash_ok C" "box_ok C" "box_total C" and B: "bloom_ok B"
    and mail: "length eph = 32" "length priv = 32" "x_base C priv = Inr pub" "length hint = HINT_SIZE" "dm_ok words"
    and args: "header_args_ok eid ts hops l zid (message_type_value DIRECT_MESSAGE) []" "0 < hops"
    and mesh: "\<And>i. dev_pipeline (devices n i) = new_pipeline B None" "(link n ^^ h) src d"
      "h = 0 \<or> int h < hops \<and> 2 ^ h \<le> l"
    and clk: "fresh (clk_timestamp clk) ts" "0 \<le> clk_rate clk"
  shows "\<exists>pl bs n' cs m. encode_direct_message C eph words hint pub = Inr pl \<and>
    build_signed_packet C i eid hops l zid (message_type_value DIRECT_MESSAGE) pl (Some ts) now = Inr bs \<and>
    (net_step B C)\<^sup>*\<^sup>* (sent_at src bs n) n' \<and> (d, cs) \<in># in_flight n' \<and>
    accepts (fst (process B C (clk, cs) (dev_pipeline (devices n' (d))))) m \<and>
    sender_key m = public_key C i \<and> msg_type m = message_type_value DIRECT_MESSAGE \<and>
    recipient_hint_of (payload m) = Inr hint \<and> decode_direct_message C (payload m) priv = Inr words"
proof -
  obtain pl where pl: "encode_direct_message C eph words hint pub = Inr pl"
    using dm_mail.sent [OF C(4,5) mail(1-3,5)] by blast
  have dm: "decode_direct_message C pl priv = Inr words" "recipient_hint_of pl = Inr hint" "length pl \<le> 321"
    using dm_mail.arrives [OF C(4) mail pl] mail(4) by (cases "length pl < 8"; auto simp: recipient_hint_of_def)+
  then have a: "header_args_ok eid ts hops l zid (message_type_value DIRECT_MESSAGE) pl"
    using args(1) by (simp add: header_args_ok_def)
  obtain bs where bs: "build_signed_packet C i eid hops l zid (message_type_value DIRECT_MESSAGE) pl (Some ts) now = Inr bs"
    using build_signed_packet_parse [OF C(1,3) a] by blast
  from packet_reaches [OF C(1-3) B a args(2) dm(3) mesh bs clk] obtain n' cs m where
    "(net_step B C)\<^sup>*\<^sup>* (sent_at src bs n) n'" "(d, cs) \<in># in_flight n'"
    "accepts (fst (process B C (clk, cs) (dev_pipeline (devices n' (d))))) m"
    and m: "payload m = pl" "sender_key m = public_key C i" "msg_type m = message_type_value DIRECT_MESSAGE" by blast
  with pl bs dm(1,2) show ?thesis
    by (intro exI [of _ pl] exI [of _ bs] exI [of _ n'] exI [of _ cs] exI [of _ m]) (simp only: m simp_thms)
qed

lemma toy_box: "x_base toy_crypto (replicate 32 6) = Inr (replicate 31 6 @ [1])"
  by (simp add: toy_crypto_def pad_to_def)

text \<open>From one end of a line of four devices to the other, at the default budget.\<close>

theorem direct_message_end_to_end_witness:
  "\<exists>pl bs n' cs m. encode_direct_message toy_crypto (replicate 32 5) [104, 8364] [1, 2, 3, 4, 5, 6, 7, 8] (replicate 31 6 @ [1]) = Inr pl \<and>
    build_signed_packet toy_crypto demo_identity (replicate 16 2) 5 8 0xFFFF 13 pl (Some 1000) 0 = Inr bs \<and>
    (net_step list_bloom toy_crypto)\<^sup>*\<^sup>* (sent_at 0 bs line_net) n' \<and> (3, cs) \<in># in_flight n' \<and>
    accepts (fst (process list_bloom toy_crypto (clocks_at 1200, cs) (dev_pipeline (devices n' 3)))) m \<and>
    decode_direct_message toy_crypto (payload m) (replicate 32 6) = Inr [104, 8364]"
proof -
  have "dm_ok [104, 8364]" by (simp add: dm_ok_def utf8_encode_def scalar_def utf8_char_def)
  moreover have "header_args_ok (replicate 16 2) 1000 5 8 0xFFFF (message_type_value DIRECT_MESSAGE) []"
    by (simp add: header_args_ok_def)
  moreover have "(link line_net ^^ 3) 0 3" by (simp add: line_links)
  moreover have "fresh (clk_timestamp (clocks_at 1200)) 1000" by (simp add: fresh_def)
  ultimately show ?thesis
    using direct_message_end_to_end [OF toy_ed25519_ok toy_ed25519_errors toy_hash_ok toy_box_ok toy_box_total list_bloom_ok
        _ _ toy_box, where eph = "replicate 32 5" and hint = "[1, 2, 3, 4, 5, 6, 7, 8]" and words = "[104, 8364]"
          and eid = "replicate 16 2" and ts = 1000 and hops = 5 and l = 8 and zid = "0xFFFF" and n = line_net and src = 0
          and h = 3 and d = 3 and clk = "clocks_at 1200" and i = demo_identity and now = 0]
    by (fastforce simp: line_net_simps)
qed

section \<open>A location grant\<close>

lemma scope_location_and [simp]: "SCOPE_LOCATION AND SCOPE_LOCATION = SCOPE_LOCATION"
  by simp

text \<open>An issued token, in the hands of anyone.\<close>

lemma issued_token_presented:
  assumes "ed25519_ok C" "ed25519_errors C" "hash_ok C" "issue_args_ok grantee_pub scope ia ex nonce" "length presenter = 32"
  shows "\<exists>tok t. issue_token C seed grantee_pub scope (Some ia) ex (Some nonce) clk r = Inr tok \<and>
    length tok = TOKEN_SIZE \<and> parse_token tok = Inr t \<and>
    revocation_key t = (take 8 (blake3 C (ed_pub C seed)), take 8 (blake3 C grantee_pub), ia, nonce) \<and>
    verify_token C tok (ed_pub C seed) presenter now want =
      Inr (take 8 (blake3 C presenter) = take 8 (blake3 C grantee_pub) \<and> scope AND want \<noteq> 0 \<and> ia \<le> now \<and> now < ia + ex)"
proof -
  from issue_token_ok [OF assms(1,3,4)] obtain tok t where
    b: "issue_token C seed grantee_pub scope (Some ia) ex (Some nonce) clk r = Inr tok"
    "parse_token tok = Inr t" "length tok = 98" "ed_verify C (ed_pub C seed) (take 34 tok) (drop 34 tok) = Inr ()"
    and t: "tok_version t = TOKEN_VERSION" "tok_issuer t = take 8 (blake3 C (ed_pub C seed))"
    "tok_grantee t = take 8 (blake3 C grantee_pub)" "tok_issued_at t = ia" "tok_expires_at t = ia + ex"
    "tok_scope t = scope" "tok_nonce t = nonce" by blast
  have k: "length (ed_pub C seed) = 32" by (rule ed25519_okD(1) [OF assms(1)])
  from verify_token_iff [OF assms(2) k assms(5), of tok now want] b t
  have "verify_token C tok (ed_pub C seed) presenter now want =
      Inr (take 8 (blake3 C presenter) = take 8 (blake3 C grantee_pub) \<and> scope AND want \<noteq> 0 \<and> ia \<le> now \<and> now < ia + ex)"
    by (auto simp: grant_def)
  then show ?thesis using b(1-3) t by (simp add: revocation_key_def)
qed

text \<open>
  C10: A location grant works from consent to revocation: the token a user issues for a friend travels in
  the acceptance, the friend finds it there and presents it as a query, and a node lets exactly the
  grantee (the key with that identifier) through, exactly while the grant lasts; the answer reaches the
  friend as it was sent, and the revocation of the token names its four fields.
\<close>

theorem location_grant_end_to_end:
  assumes C: "ed25519_ok C" "ed25519_errors C" "hash_ok C" "box_ok C" "box_total C"
    and mail: "length eph = 32" "length eph' = 32" "length priv = 32" "x_base C priv = Inr pub" "length hint = HINT_SIZE"
    and who: "identity_ok name curve_pub (ed_pub C seed)" "issue_args_ok grantee_pub SCOPE_LOCATION ia ex nonce"
      "length presenter = 32"
    and answer: "response_ok resp"
  shows "\<exists>tok t pl rv ans.
    issue_token C seed grantee_pub SCOPE_LOCATION (Some ia) ex (Some nonce) clk r = Inr tok \<and>
    encode_friend_accept C eph \<lparr> fa_username = name, fa_curve25519_pub = curve_pub, fa_ed25519_pub = ed_pub C seed,
      fa_capability_token = Some tok \<rparr> hint pub = Inr pl \<and>
    res_bind (decode_friend_accept C pl priv) (\<lambda>a. Inr (fa_capability_token a)) = Inr (Some tok) \<and>
    res_bind (encode_location_query tok) decode_location_query = Inr tok \<and>
    verify_token C tok (ed_pub C seed) presenter now SCOPE_LOCATION =
      Inr (take 8 (blake3 C presenter) = take 8 (blake3 C grantee_pub) \<and> ia \<le> now \<and> now < ia + ex) \<and>
    encode_location_response C eph' resp hint pub = Inr ans \<and> decode_location_response C ans priv = Inr resp \<and>
    parse_token tok = Inr t \<and> encode_location_revoke (revoke_of t) = Inr rv \<and>
    res_bind (decode_location_revoke rv) (\<lambda>p. Inr (revoke_payload_key p)) =
      Inr (take 8 (blake3 C (ed_pub C seed)), take 8 (blake3 C grantee_pub), ia, nonce)"
proof -
  from issued_token_presented [OF C(1-3) who(2,3)] obtain tok t where
    tok: "issue_token C seed grantee_pub SCOPE_LOCATION (Some ia) ex (Some nonce) clk r = Inr tok"
      "length tok = TOKEN_SIZE" "parse_token tok = Inr t"
    and key: "revocation_key t = (take 8 (blake3 C (ed_pub C seed)), take 8 (blake3 C grantee_pub), ia, nonce)"
    and v: "verify_token C tok (ed_pub C seed) presenter now SCOPE_LOCATION =
      Inr (take 8 (blake3 C presenter) = take 8 (blake3 C grantee_pub) \<and> SCOPE_LOCATION AND SCOPE_LOCATION \<noteq> 0 \<and> ia \<le> now \<and> now < ia + ex)"
    by blast
  let ?a = "\<lparr> fa_username = name, fa_curve25519_pub = curve_pub, fa_ed25519_pub = ed_pub C seed,
    fa_capability_token = Some tok \<rparr>"
  have a: "accept_ok ?a" using who(1) tok(2) by (simp add: accept_ok_def)
  obtain pl where pl: "encode_friend_accept C eph ?a hint pub = Inr pl"
    using accept_mail.sent [OF C(4,5) mail(1,3,4) a] by blast
  then have pl': "decode_friend_accept C pl priv = Inr ?a"
    using accept_mail.arrives [OF C(4) mail(1,3-5) a] by blast
  obtain ans where ans: "encode_location_response C eph' resp hint pub = Inr ans"
    using response_mail.sent [OF C(4,5) mail(2,3,4) answer] by blast
  then have ans': "decode_location_response C ans priv = Inr resp"
    using response_mail.arrives [OF C(4) mail(2-5) answer] by blast
  obtain rv where rv: "encode_location_revoke (revoke_of t) = Inr rv" "decode_location_revoke rv = Inr (revoke_of t)"
    using revoke_layout.enc_ok [OF revoke_of_ok [OF parse_token_InrD(5) [OF tok(3)]]] by blast
  have q: "res_bind (encode_location_query tok) decode_location_query = Inr tok"
    using tok(2) by (simp add: encode_location_query_def decode_location_query_def)
  show ?thesis
    using tok(1,3) pl pl' q v ans ans' rv key
    by (intro exI [of _ tok] exI [of _ t] exI [of _ pl] exI [of _ rv] exI [of _ ans]) (simp add: revoke_of_key)
qed

theorem location_grant_end_to_end_witness:
  "\<exists>tok. issue_token toy_crypto (replicate 32 1) (replicate 32 2) 1 (Some 100) 3600 (Some (replicate 8 0)) 0 [] = Inr tok \<and>
     verify_token toy_crypto tok (ed_pub toy_crypto (replicate 32 1)) (replicate 32 2) 200 1 = Inr True \<and>
     verify_token toy_crypto tok (ed_pub toy_crypto (replicate 32 1)) (replicate 32 2) 3700 1 = Inr False"
proof -
  let ?r = "\<lparr>lr_target_pubkey_id = replicate 8 1, lr_lat_microdeg = - 33868800, lr_lon_microdeg = 151209300,
        lr_accuracy_m = 12, lr_beacon_age_s = 30, lr_zone_id = 3\<rparr>"
  have r: "response_ok ?r" by (simp add: response_ok_def)
  have i: "issue_args_ok (replicate 32 2) SCOPE_LOCATION 100 3600 (replicate 8 0)" by (simp add: issue_args_ok_def)
  have n: "identity_ok [97] (replicate 32 4) (ed_pub toy_crypto (replicate 32 1))"
    using ed25519_okD(1) [OF toy_ed25519_ok] by (simp add: identity_ok_def utf8_encode_def scalar_def utf8_char_def)
  note w = location_grant_end_to_end [OF toy_ed25519_ok toy_ed25519_errors toy_hash_ok toy_box_ok toy_box_total
      _ _ _ toy_box _ n i _ r, where eph = "replicate 32 5" and eph' = "replicate 32 4" and presenter = "replicate 32 2"
        and hint = "[1, 2, 3, 4, 5, 6, 7, 8]" and clk = 0 and r = "[]"]
  from w [where now = 200] w [where now = 3700] show ?thesis by auto
qed

end
