(* ===== verification/Friend_State.thy ===== *)
theory Friend_State
  imports Prelude
begin

text \<open>
  \<^emph>\<open>friends/state.py\<close>: the friendship state machine. \<open>transition\<close> is the source's chain of
  guarded returns; \<open>friend_step\<close> is the protocol's table of legal edges as a step relation,
  which \<open>transition\<close> is proved to implement. \<open>friend_reach\<close> are the histories of one record,
  \<open>peers_reach\<close> two parties over a network that may lose, repeat and reorder messages.
\<close>

section \<open>The machine\<close>

datatype friendship_state = NONE | REQUESTED | PENDING | FRIENDS | REVOKED

datatype event =
    SEND_REQUEST | ACCEPT | DECLINE | ENABLE_LOCATION | DISABLE_LOCATION | UNFRIEND
  | RECV_REQUEST | RECV_ACCEPT | RECV_DECLINE | RECV_REVOKE

datatype effect =
    EMIT_FRIEND_REQUEST | EMIT_FRIEND_ACCEPT | EMIT_FRIEND_DECLINE
  | ISSUE_CAPABILITY_TOKEN | EMIT_LOCATION_REVOKE | PEER_STOPPED_SHARING

datatype invalid_transition = InvalidTransition friendship_state event

record friendship_record =
  peer_username :: pystr
  peer_curve25519_pub :: bytes
  peer_ed25519_pub :: bytes
  state :: friendship_state
  location_sharing_enabled :: bool
  capability_tokens_issued :: "bytes list"

definition new_friendship :: "pystr \<Rightarrow> bytes \<Rightarrow> bytes \<Rightarrow> friendship_record" where
  "new_friendship name curve ed =
     \<lparr> peer_username = name, peer_curve25519_pub = curve, peer_ed25519_pub = ed,
       state = NONE, location_sharing_enabled = False, capability_tokens_issued = [] \<rparr>"

definition transition ::
    "friendship_record \<Rightarrow> event \<Rightarrow> invalid_transition + friendship_record \<times> effect list" where
  "transition r e =
     (let s = state r in
      if e = SEND_REQUEST \<and> s = NONE then Inr (r\<lparr>state := REQUESTED\<rparr>, [EMIT_FRIEND_REQUEST])
      else if e = RECV_REQUEST \<and> s = NONE then Inr (r\<lparr>state := PENDING\<rparr>, [])
      else if e = RECV_REQUEST \<and> s = REQUESTED then Inr (r\<lparr>state := PENDING\<rparr>, [])
      else if e = RECV_ACCEPT \<and> s = REQUESTED then Inr (r\<lparr>state := FRIENDS\<rparr>, [])
      else if e = RECV_ACCEPT \<and> s = FRIENDS then Inr (r, [])
      else if e = RECV_DECLINE \<and> s = REQUESTED then Inr (r\<lparr>state := NONE\<rparr>, [])
      else if e = ACCEPT \<and> s = PENDING then Inr (r\<lparr>state := FRIENDS\<rparr>, [EMIT_FRIEND_ACCEPT])
      else if e = DECLINE \<and> s = PENDING then Inr (r\<lparr>state := NONE\<rparr>, [EMIT_FRIEND_DECLINE])
      else if e = ENABLE_LOCATION \<and> s = FRIENDS
      then Inr (r\<lparr>location_sharing_enabled := True\<rparr>, [ISSUE_CAPABILITY_TOKEN])
      else if e = DISABLE_LOCATION \<and> s = FRIENDS then
        (if \<not> location_sharing_enabled r then Inr (r, [])
         else Inr (r\<lparr>location_sharing_enabled := False, capability_tokens_issued := []\<rparr>, [EMIT_LOCATION_REVOKE]))
      else if e = RECV_REVOKE \<and> s = FRIENDS then Inr (r, [PEER_STOPPED_SHARING])
      else if e = UNFRIEND \<and> s = FRIENDS then
        Inr (r\<lparr>state := REVOKED, location_sharing_enabled := False, capability_tokens_issued := []\<rparr>,
             if location_sharing_enabled r then [EMIT_LOCATION_REVOKE] else [])
      else Inl (InvalidTransition s e))"

definition record_issued_token :: "friendship_record \<Rightarrow> bytes \<Rightarrow> friendship_record" where
  "record_issued_token r token =
     r\<lparr>capability_tokens_issued := capability_tokens_issued r @ [token]\<rparr>"

section \<open>The protocol's edges\<close>

text \<open>Stopping to share: the flag and the grants go, and the friend and the nodes are told.\<close>

definition stop_sharing :: "friendship_record \<Rightarrow> friendship_record" where
  "stop_sharing r = r\<lparr>location_sharing_enabled := False, capability_tokens_issued := []\<rparr>"

inductive friend_step :: "friendship_record \<Rightarrow> event \<Rightarrow> effect list \<Rightarrow> friendship_record \<Rightarrow> bool" where
  send: "state r = NONE \<Longrightarrow> friend_step r SEND_REQUEST [EMIT_FRIEND_REQUEST] (r\<lparr>state := REQUESTED\<rparr>)"
| receive: "state r \<in> {NONE, REQUESTED} \<Longrightarrow> friend_step r RECV_REQUEST [] (r\<lparr>state := PENDING\<rparr>)"
| accepted: "state r = REQUESTED \<Longrightarrow> friend_step r RECV_ACCEPT [] (r\<lparr>state := FRIENDS\<rparr>)"
| refreshed: "state r = FRIENDS \<Longrightarrow> friend_step r RECV_ACCEPT [] r"
| declined: "state r = REQUESTED \<Longrightarrow> friend_step r RECV_DECLINE [] (r\<lparr>state := NONE\<rparr>)"
| accept: "state r = PENDING \<Longrightarrow> friend_step r ACCEPT [EMIT_FRIEND_ACCEPT] (r\<lparr>state := FRIENDS\<rparr>)"
| decline: "state r = PENDING \<Longrightarrow> friend_step r DECLINE [EMIT_FRIEND_DECLINE] (r\<lparr>state := NONE\<rparr>)"
| enable: "state r = FRIENDS \<Longrightarrow>
    friend_step r ENABLE_LOCATION [ISSUE_CAPABILITY_TOKEN] (r\<lparr>location_sharing_enabled := True\<rparr>)"
| disable: "state r = FRIENDS \<Longrightarrow> location_sharing_enabled r \<Longrightarrow>
    friend_step r DISABLE_LOCATION [EMIT_LOCATION_REVOKE] (stop_sharing r)"
| disable_idle: "state r = FRIENDS \<Longrightarrow> \<not> location_sharing_enabled r \<Longrightarrow> friend_step r DISABLE_LOCATION [] r"
| peer_stopped: "state r = FRIENDS \<Longrightarrow> friend_step r RECV_REVOKE [PEER_STOPPED_SHARING] r"
| unfriend: "state r = FRIENDS \<Longrightarrow>
    friend_step r UNFRIEND (if location_sharing_enabled r then [EMIT_LOCATION_REVOKE] else [])
      ((stop_sharing r)\<lparr>state := REVOKED\<rparr>)"

inductive_simps friend_step_to: "friend_step r e es r'"

lemma transition_friend_step: "transition r e = Inr (r', es) \<Longrightarrow> friend_step r e es r'"
  by (cases e; cases "state r"; cases "location_sharing_enabled r")
     (simp_all add: transition_def friend_step_to, auto simp: stop_sharing_def)

lemma friend_step_transition: "friend_step r e es r' \<Longrightarrow> transition r e = Inr (r', es)"
  by (induction rule: friend_step.induct) (auto simp: transition_def Let_def stop_sharing_def)

lemma transition_iff_step: "transition r e = Inr (r', es) \<longleftrightarrow> friend_step r e es r'"
  using transition_friend_step friend_step_transition by blast

lemma transition_error: "transition r e = Inl x \<Longrightarrow> x = InvalidTransition (state r) e"
  by (auto simp: transition_def Let_def split: if_splits)

text \<open>The pairs with an edge.\<close>

definition legal_edges :: "(friendship_state \<times> event) set" where
  "legal_edges =
     {(NONE, SEND_REQUEST), (NONE, RECV_REQUEST), (REQUESTED, RECV_REQUEST), (REQUESTED, RECV_ACCEPT),
      (FRIENDS, RECV_ACCEPT), (REQUESTED, RECV_DECLINE), (PENDING, ACCEPT), (PENDING, DECLINE),
      (FRIENDS, ENABLE_LOCATION), (FRIENDS, DISABLE_LOCATION), (FRIENDS, RECV_REVOKE), (FRIENDS, UNFRIEND)}"

lemma transition_legal: "(\<exists>x. transition r e = Inr x) \<longleftrightarrow> (state r, e) \<in> legal_edges"
  by (cases "state r"; cases e) (auto simp: transition_def legal_edges_def)

section \<open>Histories of one record\<close>

text \<open>
  A caller applies an event, or stores a token it has minted: \<open>record_issued_token\<close> has no
  guard, so it may come at any time. An illegal event raises and leaves the record as it is, so it
  is no step. The history lists what happened, newest first.
\<close>

datatype friend_op = Did event | Minted bytes

inductive friend_reach :: "friendship_record \<Rightarrow> friend_op list \<Rightarrow> bool" where
  fresh_record: "friend_reach (new_friendship name curve ed) []"
| did: "friend_reach r h \<Longrightarrow> transition r e = Inr (r', es) \<Longrightarrow> friend_reach r' (Did e # h)"
| minted: "friend_reach r h \<Longrightarrow> friend_reach (record_issued_token r token) (Minted token # h)"

text \<open>Sharing only among friends.\<close>

definition friend_inv :: "friendship_record \<Rightarrow> bool" where
  "friend_inv r \<longleftrightarrow> (location_sharing_enabled r \<longrightarrow> state r = FRIENDS)"

lemma friend_step_inv: "friend_step r e es r' \<Longrightarrow> friend_inv r \<Longrightarrow> friend_inv r'"
  by (induction rule: friend_step.induct) (auto simp: friend_inv_def stop_sharing_def)

lemma transition_inv: "friend_inv r \<Longrightarrow> transition r e = Inr (r', es) \<Longrightarrow> friend_inv r'"
  using friend_step_inv by (auto simp: transition_iff_step)

lemma friend_reach_inv: "friend_reach r h \<Longrightarrow> friend_inv r"
proof (induction rule: friend_reach.induct)
  case (minted r h token)
  then show ?case by (auto simp: friend_inv_def record_issued_token_def)
qed (auto simp: friend_inv_def new_friendship_def dest: transition_inv [rotated])

text \<open>
  Consent in the history: the local user asked or accepted before the two became friends, and
  the last word on sharing is an explicit \<open>ENABLE_LOCATION\<close>.
\<close>

fun sharing_wanted :: "friend_op list \<Rightarrow> bool" where
  "sharing_wanted [] = False"
| "sharing_wanted (Did ENABLE_LOCATION # h) = True"
| "sharing_wanted (Did DISABLE_LOCATION # h) = False"
| "sharing_wanted (Did UNFRIEND # h) = False"
| "sharing_wanted (_ # h) = sharing_wanted h"

definition consented :: "friend_op list \<Rightarrow> bool" where
  "consented h \<longleftrightarrow> Did SEND_REQUEST \<in> set h \<or> Did ACCEPT \<in> set h"

lemma consented_mono: "consented h \<Longrightarrow> consented (x # h)"
  by (auto simp: consented_def)

lemma friend_reach_consent:
  "friend_reach r h \<Longrightarrow> state r \<in> {REQUESTED, FRIENDS} \<Longrightarrow> consented h"
proof (induction rule: friend_reach.induct)
  case (did r h e r' es)
  then have "friend_step r e es r'" by (simp add: transition_iff_step)
  then show ?case using did
    by cases (auto simp: consented_def stop_sharing_def)
qed (auto simp: new_friendship_def record_issued_token_def consented_def)

lemma friend_reach_sharing: "friend_reach r h \<Longrightarrow> location_sharing_enabled r = sharing_wanted h"
proof (induction rule: friend_reach.induct)
  case (did r h e r' es)
  then have "friend_step r e es r'" by (simp add: transition_iff_step)
  then show ?case using did.IH by cases (auto simp: stop_sharing_def)
qed (auto simp: new_friendship_def record_issued_token_def)

text \<open>
  The grants in the history: what was minted since the last event that drops them. A
  \<open>DISABLE_LOCATION\<close> drops them only when sharing was on. \<open>minted_while_sharing\<close> are the histories
  of a caller that stores a token only while sharing is on.
\<close>

fun grants :: "friend_op list \<Rightarrow> bytes list" where
  "grants [] = []"
| "grants (Minted t # h) = grants h @ [t]"
| "grants (Did UNFRIEND # h) = []"
| "grants (Did DISABLE_LOCATION # h) = (if sharing_wanted h then [] else grants h)"
| "grants (_ # h) = grants h"

fun minted_while_sharing :: "friend_op list \<Rightarrow> bool" where
  "minted_while_sharing [] \<longleftrightarrow> True"
| "minted_while_sharing (Minted _ # h) \<longleftrightarrow> sharing_wanted h \<and> minted_while_sharing h"
| "minted_while_sharing (Did _ # h) \<longleftrightarrow> minted_while_sharing h"

lemma friend_reach_grants: "friend_reach r h \<Longrightarrow> capability_tokens_issued r = grants h"
proof (induction rule: friend_reach.induct)
  case (did r h e r' es)
  then have "friend_step r e es r'" by (simp add: transition_iff_step)
  then show ?case using did.IH friend_reach_sharing [OF did.hyps(1)]
    by cases (simp_all add: stop_sharing_def)
qed (simp_all add: new_friendship_def record_issued_token_def)

lemma careful_grants: "minted_while_sharing h \<Longrightarrow> grants h \<noteq> [] \<Longrightarrow> sharing_wanted h"
  by (induction h rule: grants.induct) (auto split: if_splits)

text \<open>The friend and the nodes are told exactly when sharing ends.\<close>

lemma friend_step_revoke:
  "friend_step r e es r' \<Longrightarrow>
    EMIT_LOCATION_REVOKE \<in> set es \<longleftrightarrow> location_sharing_enabled r \<and> \<not> location_sharing_enabled r'"
  by (induction rule: friend_step.induct) (auto simp: stop_sharing_def)

section \<open>Two parties\<close>

text \<open>
  Each side holds a record about the other; the network is the set of messages ever sent, so a
  delivery may come late, twice, in any order or never. A message is one the peer really sent:
  its envelope is signed.
\<close>

fun message_of :: "effect \<Rightarrow> event option" where
  "message_of EMIT_FRIEND_REQUEST = Some RECV_REQUEST"
| "message_of EMIT_FRIEND_ACCEPT = Some RECV_ACCEPT"
| "message_of EMIT_FRIEND_DECLINE = Some RECV_DECLINE"
| "message_of EMIT_LOCATION_REVOKE = Some RECV_REVOKE"
| "message_of _ = None"

definition local_events :: "event set" where
  "local_events = {SEND_REQUEST, ACCEPT, DECLINE, ENABLE_LOCATION, DISABLE_LOCATION, UNFRIEND}"

record party =
  record_of :: friendship_record
  history :: "event list"
  sent :: "event set"

definition act :: "party \<Rightarrow> event \<Rightarrow> friendship_record \<Rightarrow> effect list \<Rightarrow> party" where
  "act p e r es = p\<lparr>record_of := r, history := e # history p,
                    sent := sent p \<union> set (List.map_filter message_of es)\<rparr>"

text \<open>\<open>b\<close> is the peer; a local event is free, a received one must have been sent by the peer.\<close>

inductive party_step :: "party \<Rightarrow> party \<Rightarrow> party \<Rightarrow> bool" where
  move: "e \<in> local_events \<or> e \<in> sent b \<Longrightarrow> transition (record_of a) e = Inr (r, es) \<Longrightarrow>
    party_step a b (act a e r es)"

inductive_cases party_moveE: "party_step a b a'"

inductive peers_reach :: "party \<Rightarrow> party \<Rightarrow> bool" where
  strangers: "peers_reach
     \<lparr> record_of = new_friendship n1 c1 e1, history = [], sent = {} \<rparr>
     \<lparr> record_of = new_friendship n2 c2 e2, history = [], sent = {} \<rparr>"
| left_moves: "peers_reach a b \<Longrightarrow> party_step a b a' \<Longrightarrow> peers_reach a' b"
| right_moves: "peers_reach a b \<Longrightarrow> party_step b a b' \<Longrightarrow> peers_reach a b'"

text \<open>What a side has sent and where it stands, traced back to the two users' own choices.\<close>

definition party_inv :: "party \<Rightarrow> party \<Rightarrow> bool" where
  "party_inv a b \<longleftrightarrow>
     (RECV_REQUEST \<in> sent a \<longrightarrow> SEND_REQUEST \<in> set (history a)) \<and>
     (RECV_ACCEPT \<in> sent a \<longrightarrow> ACCEPT \<in> set (history a) \<and> RECV_REQUEST \<in> sent b) \<and>
     (state (record_of a) = REQUESTED \<longrightarrow> SEND_REQUEST \<in> set (history a)) \<and>
     (state (record_of a) = PENDING \<longrightarrow> RECV_REQUEST \<in> sent b) \<and>
     (state (record_of a) = FRIENDS \<longrightarrow>
        ACCEPT \<in> set (history a) \<and> RECV_REQUEST \<in> sent b \<or>
        SEND_REQUEST \<in> set (history a) \<and> RECV_ACCEPT \<in> sent b)"

lemma party_step_inv:
  assumes "party_step a b a'" "party_inv a b" "party_inv b a"
  shows "party_inv a' b" "party_inv b a'"
proof -
  from assms(1) obtain e r es where s: "friend_step (record_of a) e es r" "e \<in> local_events \<or> e \<in> sent b"
    and a': "a' = act a e r es" by (auto elim: party_moveE simp: transition_iff_step)
  have m: "RECV_REQUEST \<notin> local_events" "RECV_ACCEPT \<notin> local_events" by (auto simp: local_events_def)
  show "party_inv a' b"
    using s assms(2) m unfolding a' 
    by (cases rule: friend_step.cases)
       (auto simp: party_inv_def act_def stop_sharing_def map_filter_def split: if_splits)
  show "party_inv b a'"
    using assms(3) unfolding a' by (auto simp: party_inv_def act_def)
qed

lemma peers_reach_inv: "peers_reach a b \<Longrightarrow> party_inv a b \<and> party_inv b a"
  by (induction rule: peers_reach.induct)
     (auto simp: party_inv_def [where a = "\<lparr>record_of = _, history = _, sent = _\<rparr>"] new_friendship_def
           dest: party_step_inv)

lemma friends_consented:
  assumes "peers_reach a b" "state (record_of a) = FRIENDS"
  shows "ACCEPT \<in> set (history a) \<and> SEND_REQUEST \<in> set (history b) \<or>
         SEND_REQUEST \<in> set (history a) \<and> ACCEPT \<in> set (history b)"
  using peers_reach_inv [OF assms(1)] assms(2) by (auto simp: party_inv_def)

section \<open>The machine as its callers see it\<close>

text \<open>
  C31: \<open>transition\<close> is the protocol's table: it returns a record and effects exactly along an edge
  of the step relation, and raises \<open>InvalidTransition\<close> with the state and the event exactly where
  the table has no edge.
\<close>

theorem transition_is_table:
  "(transition r e = Inr (r', es) \<longleftrightarrow> friend_step r e es r') \<and>
   (transition r e = Inl x \<longleftrightarrow> (state r, e) \<notin> legal_edges \<and> x = InvalidTransition (state r) e)"
proof -
  have "transition r e = Inl x \<longleftrightarrow> (state r, e) \<notin> legal_edges \<and> x = InvalidTransition (state r) e"
  proof (cases "transition r e")
    case (Inl y)
    with transition_error [OF Inl] transition_legal [of r e] show ?thesis by auto
  next
    case (Inr y)
    with transition_legal [of r e] show ?thesis by auto
  qed
  then show ?thesis by (simp add: transition_iff_step)
qed

text \<open>
  C30: Never auto-share: in every history of a record the sharing flag is on exactly when the
  local user's last word was an explicit \<open>ENABLE_LOCATION\<close>, and it is on only among friends. The
  record holds exactly the tokens stored since the last \<open>UNFRIEND\<close> or \<open>DISABLE_LOCATION\<close> that ended
  sharing; so when the caller stores tokens only while sharing is on, grants are held only while it
  is on (\<open>record_issued_token\<close> itself does not check this).
\<close>

theorem sharing_is_explicit:
  assumes "friend_reach r h"
  shows "(location_sharing_enabled r \<longleftrightarrow> sharing_wanted h) \<and>
    (location_sharing_enabled r \<longrightarrow> state r = FRIENDS) \<and>
    capability_tokens_issued r = grants h \<and>
    (minted_while_sharing h \<and> capability_tokens_issued r \<noteq> [] \<longrightarrow> location_sharing_enabled r)"
  using friend_reach_sharing [OF assms] friend_reach_inv [OF assms] friend_reach_grants [OF assms]
    careful_grants [of h]
  by (simp add: friend_inv_def)

definition demo_friend :: friendship_record where
  "demo_friend = \<lparr> peer_username = [97], peer_curve25519_pub = [], peer_ed25519_pub = [],
     state = FRIENDS, location_sharing_enabled = True, capability_tokens_issued = [] \<rparr>"

lemma demo_friend_reach: "friend_reach demo_friend [Did ENABLE_LOCATION, Did ACCEPT, Did RECV_REQUEST]"
proof -
  let ?n = "new_friendship [97] [] []"
  have 1: "friend_reach (?n\<lparr>state := PENDING\<rparr>) [Did RECV_REQUEST]"
    by (rule did [OF fresh_record, of _ _ _ _ _ "[]"]) (simp add: transition_def new_friendship_def)
  have 2: "friend_reach (?n\<lparr>state := FRIENDS\<rparr>) [Did ACCEPT, Did RECV_REQUEST]"
    by (rule did [OF 1, of _ _ "[EMIT_FRIEND_ACCEPT]"]) (simp add: transition_def new_friendship_def)
  show ?thesis
    by (rule did [OF 2, of _ _ "[ISSUE_CAPABILITY_TOKEN]"])
       (simp add: transition_def new_friendship_def demo_friend_def)
qed

lemma demo_friend_minted:
  "friend_reach (record_issued_token demo_friend [7])
     [Minted [7], Did ENABLE_LOCATION, Did ACCEPT, Did RECV_REQUEST]"
  by (rule minted [OF demo_friend_reach])

theorem sharing_is_explicit_witness:
  "location_sharing_enabled (record_issued_token demo_friend [7]) \<and>
   capability_tokens_issued (record_issued_token demo_friend [7]) = [[7]] \<and>
   state (record_issued_token demo_friend [7]) = FRIENDS"
  using sharing_is_explicit [OF demo_friend_minted] by simp

text \<open>
  A token stored after sharing has ended stays: a second \<open>DISABLE_LOCATION\<close> neither drops it nor
  tells anybody.
\<close>

lemma late_grant_stays:
  assumes "state r = FRIENDS" "\<not> location_sharing_enabled r"
  shows "transition (record_issued_token r token) DISABLE_LOCATION = Inr (record_issued_token r token, [])"
  using assms by (simp add: transition_def record_issued_token_def)

text \<open>
  The revocation is told exactly when sharing ends: a step emits \<open>EMIT_LOCATION_REVOKE\<close> if
  and only if it turns the flag off, and then no grant is left in the record.
\<close>

lemma revoke_exactly_when_sharing_ends:
  assumes "transition r e = Inr (r', es)"
  shows "(EMIT_LOCATION_REVOKE \<in> set es \<longleftrightarrow> location_sharing_enabled r \<and> \<not> location_sharing_enabled r') \<and>
     (EMIT_LOCATION_REVOKE \<in> set es \<longrightarrow> capability_tokens_issued r' = [])"
proof -
  have s: "friend_step r e es r'" using assms by (simp add: transition_iff_step)
  then have "EMIT_LOCATION_REVOKE \<in> set es \<longrightarrow> capability_tokens_issued r' = []"
    by (induction rule: friend_step.induct) (auto simp: stop_sharing_def)
  with friend_step_revoke [OF s] show ?thesis by blast
qed

lemma revoke_exactly_when_sharing_ends_witness:
  "\<exists>r'. transition demo_friend UNFRIEND = Inr (r', [EMIT_LOCATION_REVOKE]) \<and> \<not> location_sharing_enabled r'"
proof -
  have t: "transition demo_friend UNFRIEND = Inr (demo_friend\<lparr>state := REVOKED, location_sharing_enabled := False,
      capability_tokens_issued := []\<rparr>, [EMIT_LOCATION_REVOKE])"
    by (simp add: transition_def demo_friend_def)
  from revoke_exactly_when_sharing_ends [OF t] t show ?thesis by auto
qed

text \<open>
  C29: Mutual consent: two parties exchange messages over a network that may lose, repeat, delay
  and reorder them; whenever one of them is in FRIENDS, one user has sent the request and the
  other has accepted, each by a local action.
\<close>

theorem friendship_is_mutual:
  assumes "peers_reach a b" "state (record_of a) = FRIENDS"
  shows "ACCEPT \<in> set (history a) \<and> SEND_REQUEST \<in> set (history b) \<or>
         SEND_REQUEST \<in> set (history a) \<and> ACCEPT \<in> set (history b)"
  by (rule friends_consented [OF assms])

theorem friendship_is_mutual_witness:
  "\<exists>a b. peers_reach a b \<and> state (record_of a) = FRIENDS \<and> ACCEPT \<in> set (history a) \<and> SEND_REQUEST \<in> set (history b)"
proof -
  let ?n = "new_friendship [97] [] []"
  let ?p = "\<lparr> record_of = ?n, history = [], sent = {} \<rparr>"
  let ?b = "act ?p SEND_REQUEST (?n\<lparr>state := REQUESTED\<rparr>) [EMIT_FRIEND_REQUEST]"
  let ?a1 = "act ?p RECV_REQUEST (?n\<lparr>state := PENDING\<rparr>) []"
  let ?a2 = "act ?a1 ACCEPT (?n\<lparr>state := FRIENDS\<rparr>) [EMIT_FRIEND_ACCEPT]"
  have 1: "peers_reach ?p ?b"
    by (rule right_moves [OF strangers move]) (simp_all add: local_events_def transition_def new_friendship_def)
  have 2: "peers_reach ?a1 ?b"
    by (rule left_moves [OF 1 move]) (simp_all add: transition_def new_friendship_def act_def map_filter_def)
  have 3: "peers_reach ?a2 ?b"
    by (rule left_moves [OF 2 move]) (simp_all add: local_events_def transition_def new_friendship_def act_def)
  from friendship_is_mutual [OF 3] 3 show ?thesis
    by (intro exI [of _ ?a2] exI [of _ ?b]) (simp add: act_def)
qed

section \<open>Crossing requests\<close>

text \<open>A friendship is left by a choice of the local user only: no message of the peer changes the record.\<close>

lemma friends_stay:
  assumes "state r = FRIENDS" "e \<notin> local_events" "transition r e = Inr (r', es)"
  shows "r' = r"
  using assms(3) unfolding transition_iff_step
  by cases (use assms(1,2) in \<open>simp_all add: local_events_def\<close>)

lemma pending_stays:
  assumes "state r = PENDING" "e \<notin> local_events"
  shows "transition r e = Inl (InvalidTransition PENDING e)"
  using assms by (cases e) (auto simp: transition_def local_events_def)

text \<open>
  C32: A refusal can go unheard: when two requests cross, both sides wait for their own user; if one user
  then declines and the other accepts, the second side is in FRIENDS and the first is not, each side
  raises on the message that would tell it, before its user's choice and after, and so the two records
  stay apart until the user of the second ends the friendship.
\<close>

theorem refusal_unheard:
  "\<exists>a b. peers_reach a b \<and> state (record_of a) = FRIENDS \<and> state (record_of b) = NONE \<and>
     history a = [ACCEPT, RECV_REQUEST, SEND_REQUEST] \<and> history b = [DECLINE, RECV_REQUEST, SEND_REQUEST] \<and>
     RECV_ACCEPT \<in> sent a \<and> transition (record_of b) RECV_ACCEPT = Inl (InvalidTransition NONE RECV_ACCEPT) \<and>
     RECV_DECLINE \<in> sent b \<and> transition (record_of a) RECV_DECLINE = Inl (InvalidTransition FRIENDS RECV_DECLINE) \<and>
     transition ((record_of a)\<lparr>state := PENDING\<rparr>) RECV_DECLINE = Inl (InvalidTransition PENDING RECV_DECLINE)"
proof -
  let ?n = "new_friendship [97] [] []"
  let ?p = "\<lparr> record_of = ?n, history = [], sent = {} \<rparr>"
  let ?asked = "act ?p SEND_REQUEST (?n\<lparr>state := REQUESTED\<rparr>) [EMIT_FRIEND_REQUEST]"
  let ?waits = "act ?asked RECV_REQUEST (?n\<lparr>state := PENDING\<rparr>) []"
  let ?a = "act ?waits ACCEPT (?n\<lparr>state := FRIENDS\<rparr>) [EMIT_FRIEND_ACCEPT]"
  let ?b = "act ?waits DECLINE ?n [EMIT_FRIEND_DECLINE]"
  note defs = local_events_def transition_def new_friendship_def act_def map_filter_def
  have "peers_reach ?asked ?p" by (rule left_moves [OF strangers move]) (simp_all add: defs)
  then have "peers_reach ?asked ?asked" by (rule right_moves [OF _ move]) (simp_all add: defs)
  then have "peers_reach ?waits ?asked" by (rule left_moves [OF _ move]) (simp_all add: defs)
  then have "peers_reach ?waits ?waits" by (rule right_moves [OF _ move]) (simp_all add: defs)
  then have "peers_reach ?a ?waits" by (rule left_moves [OF _ move]) (simp_all add: defs)
  then have "peers_reach ?a ?b" by (rule right_moves [OF _ move]) (simp_all add: defs)
  then show ?thesis by (intro exI [of _ ?a] exI [of _ ?b]) (simp add: defs)
qed

end
