(* ===== verification/Keygen.thy ===== *)
theory Keygen
  imports Signing Attestation
begin

text \<open>
  \<^emph>\<open>identity/keygen.py\<close>: the identity store. The file at the store's path is an \<open>option\<close>: absent,
  or its text (\<^emph>\<open>read_text\<close> gives back what was written, which is ASCII). The file is looked at twice, by \<^emph>\<open>path.exists()\<close> and by the exclusive
  \<^emph>\<open>os.open\<close>; between the two another process may have created it.
\<close>

text \<open>\<^emph>\<open>SigningKey(seed)\<close> takes 32 bytes.\<close>

definition signing_key_of :: "bytes \<Rightarrow> device_identity res" where
  "signing_key_of seed = (if length seed = 32 then Inr \<lparr> signing_key = seed \<rparr> else Inl NaclValueError)"

definition generate_keypair :: "bytes \<Rightarrow> device_identity" where
  "generate_keypair random32 = \<lparr> signing_key = random32 \<rparr>"

text \<open>What \<^emph>\<open>json.dump\<close> writes.\<close>

definition identity_text :: "crypto \<Rightarrow> device_identity \<Rightarrow> pystr" where
  "identity_text C i =
     json_text [32] (JObj [(str ''private_seed'', JStr (to_hex (private_seed i))),
                           (str ''public_key'', JStr (to_hex (public_key C i)))])"

text \<open>
  \<open>seen\<close> is the file at \<^emph>\<open>path.exists()\<close>, \<open>found\<close> the file at the exclusive open; the result
  pairs what the call returns with the file after it.
\<close>

definition load_or_create_identity ::
    "crypto \<Rightarrow> decoders \<Rightarrow> bytes \<Rightarrow> pystr option \<Rightarrow> pystr option \<Rightarrow> device_identity res \<times> pystr option" where
  "load_or_create_identity C D random32 seen found =
     (case seen of
        Some t \<Rightarrow>
          (res_bind (json_of_text D t) (\<lambda>dat.
           res_bind (res_bind (json_index dat (str ''private_seed'')) json_fromhex) signing_key_of), seen)
      | None \<Rightarrow>
          let identity = generate_keypair random32 in
          (case found of
             Some _ \<Rightarrow> (Inl FileExistsError, found)
           | None \<Rightarrow> (Inr identity, Some (identity_text C identity))))"

text \<open>
  C26: The identity is made exactly once: the first call on a device creates it, and every later
  call, whatever randomness it would have drawn, returns the same identity and leaves the file as
  it is.
\<close>

theorem identity_created_once:
  assumes "length random32 = 32" "0 < nesting D"
    and first: "load_or_create_identity C D random32 None None = (r, st)"
  shows "r = Inr \<lparr> signing_key = random32 \<rparr> \<and> st \<noteq> None \<and>
     load_or_create_identity C D other st later = (r, st)"
proof -
  let ?i = "\<lparr> signing_key = random32 \<rparr>"
  let ?v = "JObj [(str ''private_seed'', JStr (to_hex (private_seed ?i))), (str ''public_key'', JStr (to_hex (public_key C ?i)))]"
  have f: "st = Some (identity_text C ?i)" "r = Inr ?i"
    using first by (auto simp: load_or_create_identity_def generate_keypair_def Let_def)
  have "printable ?v" using to_hex_scalar by (simp add: str_def scalar_def)
  then have "json_of_text D (identity_text C ?i) = Inr ?v"
    unfolding identity_text_def using assms(2) by (intro json_of_text_text) (simp_all add: json_space_def)
  moreover have "json_index ?v (str ''private_seed'') = Inr (JStr (to_hex random32))"
    by (simp add: private_seed_def str_def)
  ultimately show ?thesis
    using f assms(1) by (simp add: load_or_create_identity_def signing_key_of_def)
qed

theorem identity_created_once_witness:
  "\<exists>st. load_or_create_identity toy_crypto demo_decoders (replicate 32 4) None None = (Inr \<lparr> signing_key = replicate 32 4 \<rparr>, st) \<and>
     load_or_create_identity toy_crypto demo_decoders (replicate 32 9) st None = (Inr \<lparr> signing_key = replicate 32 4 \<rparr>, st)"
proof -
  obtain r st where f: "load_or_create_identity toy_crypto demo_decoders (replicate 32 4) None None = (r, st)" by fastforce
  have "0 < nesting demo_decoders" by (simp add: demo_decoders_def)
  from identity_created_once [OF _ this f, of "replicate 32 9" None] f show ?thesis by auto
qed

text \<open>
  An identity on disk is never overwritten: whatever the file holds when the call looks or
  when it opens, and whatever it returns or raises, a file that exists is left unchanged, and losing
  the race to another creator raises \<^emph>\<open>FileExistsError\<close>.
\<close>

lemma identity_never_overwritten:
  "snd (load_or_create_identity C D rnd (Some f) found) = Some f \<and>
   load_or_create_identity C D rnd None (Some f) = (Inl FileExistsError, Some f)"
  by (simp add: load_or_create_identity_def)

text \<open>
  A process that looks between the exclusive open and the write finds an empty file, and so does every later call when
  the write never came: the call raises and the file stays as it is.
\<close>

lemma torn_identity_raises:
  "\<exists>e. load_or_create_identity C D rnd (Some []) found = (Inl e, Some []) \<and> is_ValueError e"
  by (simp add: load_or_create_identity_def json_of_text_def)

end
