(* ===== verification/Rate_Threads.thy ===== *)
theory Rate_Threads
  imports Rate_Limit Threads
begin

text \<open>
  The rate limiter under threads: \<^emph>\<open>SocketTransport\<close> handles every connection on a thread of its own, and
  \<^emph>\<open>RateLimiter.check\<close> takes no lock. Threads that carry packets of one ephemeral identifier work on one
  \<^emph>\<open>_SenderState\<close>, which \<open>sender_step\<close> treats as a whole; here it is cut at its accesses to that object.
  A slot stands for the threads that follow one another, one connection each: at most as many calls
  are under way as there are slots.
\<close>

section \<open>One thread\<close>

datatype rate_pc =
    RIdle
  | RSeen                 \<comment> \<open>state.last_seen = now\<close>
  | RBan                  \<comment> \<open>if now < state.banned_until\<close>
  | RWhile                \<comment> \<open>while state.window\<close>
  | RFirst                \<comment> \<open>now - state.window[0] > WINDOW_SECONDS\<close>
  | RPop                  \<comment> \<open>state.window.popleft()\<close>
  | RLen                  \<comment> \<open>if len(state.window) >= MAX_MESSAGES_PER_WINDOW\<close>
  | RLoad                 \<comment> \<open>the read of state.consecutive_violations += 1\<close>
  | RStore nat            \<comment> \<open>and its write\<close>
  | RThreshold            \<comment> \<open>if state.consecutive_violations >= BAN_VIOLATION_THRESHOLD\<close>
  | RBanUntil             \<comment> \<open>state.banned_until = now + BAN_SECONDS\<close>
  | RClear                \<comment> \<open>state.consecutive_violations = 0, banned\<close>
  | RReset                \<comment> \<open>state.consecutive_violations = 0, accepted\<close>
  | RAppend               \<comment> \<open>state.window.append(now)\<close>

record rate_slot =
  rs_now :: time
  rs_pc :: rate_pc
  rs_next :: "time list"
  rs_done :: "reason res list"

definition rate_slot_of :: "time list \<Rightarrow> rate_slot" where
  "rate_slot_of nows = \<lparr> rs_now = 0, rs_pc = RIdle, rs_next = nows, rs_done = [] \<rparr>"

definition rate_return :: "reason res \<Rightarrow> rate_slot \<Rightarrow> rate_slot" where
  "rate_return r sl = sl\<lparr>rs_pc := RIdle, rs_done := rs_done sl @ [r]\<rparr>"

definition rate_advance :: "rate_slot \<Rightarrow> sender_state \<Rightarrow> rate_slot \<times> sender_state" where
  "rate_advance sl st =
     (case rs_pc sl of
        RIdle \<Rightarrow> (case rs_next sl of [] \<Rightarrow> (sl, st) | now # later \<Rightarrow> (sl\<lparr>rs_now := now, rs_pc := RSeen, rs_next := later\<rparr>, st))
      | RSeen \<Rightarrow> (sl\<lparr>rs_pc := RBan\<rparr>, st\<lparr>last_seen := rs_now sl\<rparr>)
      | RBan \<Rightarrow> (if rs_now sl < banned_until st then rate_return (Inr (Some banned_reason)) sl else sl\<lparr>rs_pc := RWhile\<rparr>, st)
      | RWhile \<Rightarrow> (sl\<lparr>rs_pc := if window st = [] then RLen else RFirst\<rparr>, st)
      | RFirst \<Rightarrow> (case window st of
            [] \<Rightarrow> (rate_return (Inl IndexError) sl, st)
          | t # _ \<Rightarrow> (sl\<lparr>rs_pc := if rs_now sl - t > WINDOW_SECONDS then RPop else RLen\<rparr>, st))
      | RPop \<Rightarrow> (case window st of
            [] \<Rightarrow> (rate_return (Inl IndexError) sl, st)
          | _ # w \<Rightarrow> (sl\<lparr>rs_pc := RWhile\<rparr>, st\<lparr>window := w\<rparr>))
      | RLen \<Rightarrow> (sl\<lparr>rs_pc := if length (window st) \<ge> MAX_MESSAGES_PER_WINDOW then RLoad else RReset\<rparr>, st)
      | RLoad \<Rightarrow> (sl\<lparr>rs_pc := RStore (consecutive_violations st)\<rparr>, st)
      | RStore n \<Rightarrow> (sl\<lparr>rs_pc := RThreshold\<rparr>, st\<lparr>consecutive_violations := n + 1\<rparr>)
      | RThreshold \<Rightarrow> (if consecutive_violations st \<ge> BAN_VIOLATION_THRESHOLD then sl\<lparr>rs_pc := RBanUntil\<rparr>
                       else rate_return (Inr (Some exceeded_reason)) sl, st)
      | RBanUntil \<Rightarrow> (sl\<lparr>rs_pc := RClear\<rparr>, st\<lparr>banned_until := rs_now sl + BAN_SECONDS\<rparr>)
      | RClear \<Rightarrow> (rate_return (Inr (Some ban_reason)) sl, st\<lparr>consecutive_violations := 0\<rparr>)
      | RReset \<Rightarrow> (sl\<lparr>rs_pc := RAppend\<rparr>, st\<lparr>consecutive_violations := 0\<rparr>)
      | RAppend \<Rightarrow> (rate_return (Inr None) sl, st\<lparr>window := window st @ [rs_now sl]\<rparr>))"

section \<open>A thread on its own\<close>

definition rate_alone :: "rate_slot \<times> sender_state \<Rightarrow> rate_slot \<times> sender_state \<Rightarrow> bool" where
  "rate_alone c c' \<longleftrightarrow> (\<exists>n. run_alone rate_advance n c = c')"

lemma rate_alone_refl: "rate_alone c c"
  unfolding rate_alone_def by (intro exI [of _ 0]) simp

lemma rate_alone_step:
  assumes "rate_alone (rate_advance sl st) c'"
  shows "rate_alone (sl, st) c'"
proof -
  from assms obtain n where "run_alone rate_advance n (rate_advance sl st) = c'" unfolding rate_alone_def by blast
  then show ?thesis unfolding rate_alone_def by (intro exI [of _ "Suc n"]) simp
qed

lemma window_same: "window st = w \<Longrightarrow> st\<lparr>window := w\<rparr> = st"
  by (cases st) simp

text \<open>The loop drops the times that left the window.\<close>

lemma rate_alone_loop:
  assumes "rate_alone (sl\<lparr>rs_pc := RLen\<rparr>, st\<lparr>window := dropWhile (\<lambda>t. rs_now sl - t > WINDOW_SECONDS) (window st)\<rparr>) c"
    and "rs_pc sl = RWhile"
  shows "rate_alone (sl, st) c"
  using assms
proof (induction "window st" arbitrary: st sl)
  case Nil
  then have "window st = []" by simp
  with Nil(2,3) show ?case by (intro rate_alone_step) (simp add: rate_advance_def window_same)
next
  case (Cons t w)
  have w: "window st = t # w" using Cons(2) by simp
  show ?case
  proof (cases "rs_now sl - t > WINDOW_SECONDS")
    case True
    have "rate_alone (sl\<lparr>rs_pc := RWhile\<rparr>, st\<lparr>window := w\<rparr>) c"
      by (rule Cons(1)) (use Cons(3) w True in simp_all)
    then have "rate_alone (sl\<lparr>rs_pc := RPop\<rparr>, st) c" by (intro rate_alone_step) (simp add: rate_advance_def w)
    then have "rate_alone (sl\<lparr>rs_pc := RFirst\<rparr>, st) c"
      using True by (intro rate_alone_step) (simp add: rate_advance_def w)
    then show ?thesis using Cons(4) by (intro rate_alone_step) (simp add: rate_advance_def w)
  next
    case False
    have "rate_alone (sl\<lparr>rs_pc := RLen\<rparr>, st) c" using Cons(3) False by (simp add: w window_same)
    then have "rate_alone (sl\<lparr>rs_pc := RFirst\<rparr>, st) c"
      using False by (intro rate_alone_step) (simp add: rate_advance_def w)
    then show ?thesis using Cons(4) by (intro rate_alone_step) (simp add: rate_advance_def w)
  qed
qed

text \<open>What follows the loop: the test of the length, and the two ends.\<close>

lemma rate_alone_rest:
  assumes "\<not> now < b" "w' = dropWhile (\<lambda>t. now - t > WINDOW_SECONDS) w"
  shows "rate_alone
    (\<lparr> rs_now = now, rs_pc = RLen, rs_next = later, rs_done = d \<rparr>,
     \<lparr> window = w', consecutive_violations = v, banned_until = b, last_seen = now \<rparr>)
    (case sender_step now \<lparr> window = w, consecutive_violations = v, banned_until = b, last_seen = s \<rparr> of (r, st') \<Rightarrow>
       (\<lparr> rs_now = now, rs_pc = RIdle, rs_next = later, rs_done = d @ [Inr r] \<rparr>, st'))"
    (is "rate_alone (?sl RLen, ?st v b) ?z")
proof (cases "length w' \<ge> MAX_MESSAGES_PER_WINDOW")
  case True
  have "rate_alone (?sl RThreshold, ?st (v + 1) b) ?z"
  proof (cases "v + 1 \<ge> BAN_VIOLATION_THRESHOLD")
    case big: True
    have "?z = rate_advance (?sl RClear) (?st (v + 1) (now + BAN_SECONDS))"
      using assms True big by (simp add: sender_step_def rate_advance_def rate_return_def Let_def)
    then have "rate_alone (?sl RClear, ?st (v + 1) (now + BAN_SECONDS)) ?z"
      using rate_alone_refl [of ?z] by (intro rate_alone_step) simp
    then have "rate_alone (?sl RBanUntil, ?st (v + 1) b) ?z" by (intro rate_alone_step) (simp add: rate_advance_def)
    with big show ?thesis by (intro rate_alone_step) (simp add: rate_advance_def)
  next
    case False
    then have "?z = rate_advance (?sl RThreshold) (?st (v + 1) b)"
      using assms True by (simp add: sender_step_def rate_advance_def rate_return_def Let_def)
    then show ?thesis using rate_alone_refl [of ?z] by (intro rate_alone_step) simp
  qed
  then have "rate_alone (?sl (RStore v), ?st v b) ?z" by (intro rate_alone_step) (simp add: rate_advance_def)
  then have "rate_alone (?sl RLoad, ?st v b) ?z" by (intro rate_alone_step) (simp add: rate_advance_def)
  with True show ?thesis by (intro rate_alone_step) (simp add: rate_advance_def)
next
  case False
  then have "?z = rate_advance (?sl RAppend) (?st 0 b)"
    using assms by (simp add: sender_step_def rate_advance_def rate_return_def Let_def)
  then have "rate_alone (?sl RAppend, ?st 0 b) ?z" using rate_alone_refl [of ?z] by (intro rate_alone_step) simp
  then have "rate_alone (?sl RReset, ?st v b) ?z" by (intro rate_alone_step) (simp add: rate_advance_def)
  with False show ?thesis by (intro rate_alone_step) (simp add: rate_advance_def)
qed

text \<open>
  A call that is not interrupted is the sequential one: a thread that runs alone returns, after
  finitely many accesses, the answer of \<open>sender_step\<close>, and leaves the sender's state as it does.
\<close>

lemma rate_thread_alone:
  assumes "rs_pc sl = RIdle" "rs_next sl = now # later"
  shows "\<exists>n. run_alone rate_advance n (sl, st) =
    (\<lparr> rs_now = now, rs_pc = RIdle, rs_next = later, rs_done = rs_done sl @ [Inr (fst (sender_step now st))] \<rparr>,
     snd (sender_step now st))"
proof -
  obtain n d where sl: "sl = \<lparr> rs_now = n, rs_pc = RIdle, rs_next = now # later, rs_done = d \<rparr>"
    using assms by (cases sl) simp
  obtain w v b s where st: "st = \<lparr> window = w, consecutive_violations = v, banned_until = b, last_seen = s \<rparr>"
    by (cases st)
  let ?sl = "\<lambda>pc. \<lparr> rs_now = now, rs_pc = pc, rs_next = later, rs_done = d \<rparr>"
  let ?st = "\<lparr> window = w, consecutive_violations = v, banned_until = b, last_seen = now \<rparr>"
  let ?z = "case sender_step now st of (r, st') \<Rightarrow>
    (\<lparr> rs_now = now, rs_pc = RIdle, rs_next = later, rs_done = d @ [Inr r] \<rparr>, st')"
  have "rate_alone (?sl RBan, ?st) ?z"
  proof (cases "now < b")
    case True
    then have "?z = rate_advance (?sl RBan) ?st"
      by (simp add: st sender_step_def rate_advance_def rate_return_def)
    then show ?thesis using rate_alone_refl [of ?z] by (intro rate_alone_step) simp
  next
    case False
    have "rate_alone (?sl RWhile, ?st) ?z"
      by (rule rate_alone_loop) (use rate_alone_rest [OF False refl] in \<open>simp_all add: st\<close>)
    with False show ?thesis by (intro rate_alone_step) (simp add: rate_advance_def)
  qed
  then have "rate_alone (?sl RSeen, st) ?z" by (intro rate_alone_step) (simp add: rate_advance_def st)
  then have "rate_alone (sl, st) ?z" by (intro rate_alone_step) (simp add: rate_advance_def sl)
  then show ?thesis by (simp add: rate_alone_def sl split: prod.splits)
qed


lemma rate_thread_alone_witness:
  "\<exists>n. run_alone rate_advance n (rate_slot_of [20], new_sender\<lparr>window := [1, 15]\<rparr>) =
    (\<lparr> rs_now = 20, rs_pc = RIdle, rs_next = [], rs_done = [Inr None] \<rparr>,
     new_sender\<lparr>window := [15, 20], last_seen := 20\<rparr>)"
  using rate_thread_alone [of "rate_slot_of [20]" 20 "[]" "new_sender\<lparr>window := [1, 15]\<rparr>"]
  by (simp add: rate_slot_of_def new_sender_def sender_step_def)

section \<open>Many threads\<close>

text \<open>A slot past the test of the length, its entry not made yet.\<close>

definition pending :: "rate_slot \<Rightarrow> nat" where
  "pending sl = (if rs_pc sl = RReset \<or> rs_pc sl = RAppend then 1 else 0)"

lemma pending_return [simp]: "pending (rate_return r sl) = 0"
  by (simp add: pending_def rate_return_def)

lemma rate_advance_window:
  assumes "rate_advance sl st = (sl', st')"
  shows "length (window st') + pending sl' \<le> length (window st) + pending sl \<or>
    length (window st') < MAX_MESSAGES_PER_WINDOW \<and> window st' = window st"
proof (cases "rs_pc sl")
  case RLen
  then show ?thesis using assms by (cases "length (window st) \<ge> MAX_MESSAGES_PER_WINDOW") (auto simp: rate_advance_def pending_def)
next
  case RAppend
  then have "pending sl = 1" by (simp add: pending_def)
  with RAppend show ?thesis using assms by (auto simp: rate_advance_def)
qed (use assms in \<open>auto simp: rate_advance_def pending_def rate_return_def split: list.splits if_splits\<close>)

lemma pending_le: "pending sl \<le> 1"
  by (simp add: pending_def)

definition rate_threads_inv :: "rate_slot list \<times> sender_state \<Rightarrow> bool" where
  "rate_threads_inv c \<longleftrightarrow>
     length (window (snd c)) + sum_list (map pending (fst c)) + 1 \<le> MAX_MESSAGES_PER_WINDOW + length (fst c)"

lemma rate_threads_inv_step:
  assumes "sched_step rate_advance c c'" "rate_threads_inv c"
  shows "rate_threads_inv c'"
  using assms(1)
proof cases
  case (turn i sls st sl' st')
  have "sum_list (map pending (sls[i := sl'])) \<le> length sls" using count_le [of pending "sls[i := sl']", OF pending_le] by simp
  then show ?thesis
    using rate_advance_window [OF turn(4)] count_replace [OF turn(3), of pending sl'] assms(2) turn(1,2)
    by (auto simp: rate_threads_inv_def)
qed

lemma rate_threads_inv_run:
  assumes "(sched_step rate_advance)\<^sup>*\<^sup>* c c'" "rate_threads_inv c"
  shows "rate_threads_inv c'"
  using assms by (induction rule: rtranclp_induct) (auto intro: rate_threads_inv_step)

text \<open>
  C21: Under threads the limit is weaker but there is one: with \<open>k\<close> connections at a time the window of a sender
  never holds more than nine plus \<open>k\<close> accepted messages, whatever the interleaving and however many
  calls follow one another.
\<close>

theorem rate_threads_bound:
  assumes "length (window st) \<le> MAX_MESSAGES_PER_WINDOW" "list_all (\<lambda>sl. rs_pc sl = RIdle) sls" "sls \<noteq> []"
    and "(sched_step rate_advance)\<^sup>*\<^sup>* (sls, st) (sls', st')"
  shows "length (window st') + 1 \<le> MAX_MESSAGES_PER_WINDOW + length sls"
proof -
  have none: "map pending sls = replicate (length sls) 0"
    using assms(2) by (intro nth_equalityI) (auto simp: list_all_length pending_def)
  have "1 \<le> length sls" using assms(3) by (cases sls) auto
  then have "rate_threads_inv (sls, st)"
    using assms(1) by (simp add: rate_threads_inv_def none sum_list_replicate)
  from rate_threads_inv_run [OF assms(4) this] sched_step_length [OF assms(4)] show ?thesis
    by (simp add: rate_threads_inv_def)
qed


theorem rate_threads_bound_witness:
  "\<exists>sls st. (sched_step rate_advance)\<^sup>*\<^sup>* ([rate_slot_of [1, 2], rate_slot_of [1, 3]], new_sender) (sls, st) \<and>
    window st = [1, 1] \<and> length (window st) + 1 \<le> MAX_MESSAGES_PER_WINDOW + 2"
proof -
  let ?c = "([rate_slot_of [1, 2], rate_slot_of [1, 3]], new_sender)"
  let ?is = "[0, 1, 0, 1, 0, 1, 0, 1, 0, 1, 0, 1, 0, 1]"
  obtain sls st where c: "run_sched rate_advance ?is ?c = (sls, st)" by fastforce
  have run: "(sched_step rate_advance)\<^sup>*\<^sup>* ?c (sls, st)"
    using run_sched_steps [of ?c ?is rate_advance] c by simp
  have "window st = [1, 1]"
    using c by (auto simp: rate_slot_of_def rate_advance_def rate_return_def new_sender_def)
  moreover have "length (window st) + 1 \<le> MAX_MESSAGES_PER_WINDOW + length (fst ?c)"
    unfolding fst_conv by (rule rate_threads_bound [OF _ _ _ run]) (simp_all add: rate_slot_of_def new_sender_def)
  ultimately show ?thesis using run by (intro exI [of _ sls] exI [of _ st] conjI) (assumption, assumption, simp)
qed

text \<open>
  C22: The bound is exact: \<open>k\<close> connections that carry one packet each, of a sender with nine messages in its
  window, can all pass the test before any of them makes its entry, and all \<open>k\<close> packets are accepted,
  although only one would be if the calls followed one another.
\<close>

theorem rate_threads_overshoot:
  assumes "\<not> now < banned_until st" "length (window st) = 9" "now - hd (window st) \<le> WINDOW_SECONDS"
  shows "\<exists>sls st'. (sched_step rate_advance)\<^sup>*\<^sup>* (replicate k (rate_slot_of [now]), st) (sls, st') \<and>
    map rs_done sls = replicate k [Inr None] \<and> window st' = window st @ replicate k now \<and>
    fst (sender_step now (snd (sender_step now st))) \<noteq> None"
proof -
  obtain w v b s where st: "st = \<lparr> window = w, consecutive_violations = v, banned_until = b, last_seen = s \<rparr>"
    by (cases st)
  obtain t w' where w: "w = t # w'" using assms(2) st by (cases w) auto
  let ?sl = "\<lambda>pc d. \<lparr> rs_now = now, rs_pc = pc, rs_next = [], rs_done = d \<rparr>"
  let ?st = "\<lambda>v w. \<lparr> window = w, consecutive_violations = v, banned_until = b, last_seen = now \<rparr>"
  let ?f = "\<lambda>j::nat. if j = 0 then st else ?st v w"
  let ?g = "\<lambda>j::nat. ?st (if j = 0 then v else 0) (w @ replicate j now)"
  have test: "run_alone rate_advance 6 (rate_slot_of [now], ?f j) = (?sl RReset [], ?f (Suc j))" for j
    using assms by (cases j) (auto simp: numeral_eq_Suc st w rate_advance_def rate_slot_of_def)
  have one: "(sched_step rate_advance)\<^sup>*\<^sup>* (replicate k (rate_slot_of [now]), ?f 0) (replicate k (?sl RReset []), ?f k)"
    by (rule sched_in_turn [where f = ?f]) (rule test)
  have enter: "run_alone rate_advance 2 (?sl RReset [], ?g j) = (?sl RIdle [Inr None], ?g (Suc j))" for j
    by (simp add: numeral_eq_Suc rate_advance_def rate_return_def replicate_append_same)
  have two: "(sched_step rate_advance)\<^sup>*\<^sup>* (replicate k (?sl RReset []), ?g 0) (replicate k (?sl RIdle [Inr None]), ?g k)"
    by (rule sched_in_turn [where f = ?g]) (rule enter)
  have "\<exists>sls st'. (sched_step rate_advance)\<^sup>*\<^sup>* (replicate k (rate_slot_of [now]), st) (sls, st') \<and>
    map rs_done sls = replicate k [Inr None] \<and> window st' = window st @ replicate k now"
  proof (cases "k = 0")
    case True
    then show ?thesis by (intro exI [of _ "[]"] exI [of _ st]) simp
  next
    case False
    with one two have "(sched_step rate_advance)\<^sup>*\<^sup>* (replicate k (rate_slot_of [now]), st) (replicate k (?sl RIdle [Inr None]), ?g k)"
      by simp
    then show ?thesis by (intro exI conjI) (assumption, simp_all add: st)
  qed
  moreover have "fst (sender_step now (snd (sender_step now st))) \<noteq> None"
    using assms by (simp add: st w sender_step_def Let_def ban_reason_def exceeded_reason_def)
  ultimately show ?thesis by blast
qed

theorem rate_threads_overshoot_witness:
  "\<exists>sls st'. (sched_step rate_advance)\<^sup>*\<^sup>*
      (replicate 3 (rate_slot_of [7]), new_sender\<lparr>window := [0, 0, 1, 1, 2, 3, 4, 5, 6]\<rparr>) (sls, st') \<and>
    map rs_done sls = replicate 3 [Inr None] \<and> length (window st') = 12"
proof -
  let ?st = "new_sender\<lparr>window := [0, 0, 1, 1, 2, 3, 4, 5, 6]\<rparr>"
  have "\<not> 7 < banned_until ?st" "length (window ?st) = 9" "7 - hd (window ?st) \<le> WINDOW_SECONDS"
    by (simp_all add: new_sender_def)
  from rate_threads_overshoot [OF this, of 3] obtain sls st' where
    "(sched_step rate_advance)\<^sup>*\<^sup>* (replicate 3 (rate_slot_of [7]), ?st) (sls, st')"
    "map rs_done sls = replicate 3 [Inr None]" "length (window st') = 12" by auto
  then show ?thesis by blast
qed

text \<open>
  Two calls can drop two entries for one that left the window: both find the oldest too old, then
  both remove the first one there is. The second deletion takes a message that still counts, or, when nothing is left,
  raises \<^emph>\<open>IndexError\<close>; no sequence of undivided calls does either.
\<close>

lemma race_pops_twice:
  assumes "\<not> now < banned_until st" "window st = old # w" "now - old > WINDOW_SECONDS"
  shows "\<exists>sls st'. (sched_step rate_advance)\<^sup>*\<^sup>* (replicate 2 (rate_slot_of [now]), st) (sls, st') \<and>
    window st' = tl w \<and> (w = [] \<longrightarrow> rs_done (sls ! 1) = [Inl IndexError])"
proof -
  let ?c = "(replicate 2 (rate_slot_of [now]), st)"
  let ?is = "[0, 0, 0, 0, 0, 1, 1, 1, 1, 1, 0, 1]"
  obtain sls st' where c: "run_sched rate_advance ?is ?c = (sls, st')" by fastforce
  have "window st' = tl w \<and> (w = [] \<longrightarrow> rs_done (sls ! 1) = [Inl IndexError])"
    using c assms by (cases w) (auto simp: numeral_2_eq_2 rate_slot_of_def rate_advance_def rate_return_def)
  moreover have "(sched_step rate_advance)\<^sup>*\<^sup>* ?c (sls, st')"
    using run_sched_steps [of ?c ?is rate_advance] c by simp
  ultimately show ?thesis by blast
qed

lemma race_pops_twice_witness:
  "\<exists>sls st'. (sched_step rate_advance)\<^sup>*\<^sup>* (replicate 2 (rate_slot_of [20]), new_sender\<lparr>window := [1, 15, 16]\<rparr>) (sls, st') \<and>
    window st' = [16]"
  using race_pops_twice [of 20 "new_sender\<lparr>window := [1, 15, 16]\<rparr>" 1 "[15, 16]"] by (auto simp: new_sender_def)

end
