(* ===== verification/Stop_Threads.thy ===== *)
theory Stop_Threads
  imports Socket Threads
begin

text \<open>
  \<^emph>\<open>SocketTransport.stop\<close> against the threads of \<^emph>\<open>_accept_loop\<close>: both are cut at their accesses to
  \<^emph>\<open>_running\<close>, \<^emph>\<open>_server\<close> and the socket itself, and clients connect meanwhile. \<^emph>\<open>accept\<close> raises \<^emph>\<open>OSError\<close> on a closed socket; else it blocks and
  takes the oldest connection that waits. Whether closing a socket wakes a call of \<^emph>\<open>accept\<close> that is blocked on it
  depends on the system (POSIX does not say, Linux does not do it) and is the parameter \<open>wakes\<close>. Sockets are numbers.
\<close>

section \<open>One thread\<close>

record 'conn listening =
  ls_running :: bool
  ls_server :: "nat option"
  ls_closed :: "nat set"
  ls_waiting :: "'conn list"
  ls_served :: "'conn list"

datatype 'conn listen_pc =
    LFlag                       \<comment> \<open>while self._running\<close>
  | LServer                     \<comment> \<open>self._server, of which accept is taken\<close>
  | LAccept nat                 \<comment> \<open>accept() is called\<close>
  | LBlocked nat                \<comment> \<open>and waits\<close>
  | LEnded "unit res"
  | SFlag                       \<comment> \<open>self._running = False\<close>
  | STest                       \<comment> \<open>if self._server\<close>
  | SRead                       \<comment> \<open>self._server, of which close is taken\<close>
  | SClose nat                  \<comment> \<open>close()\<close>
  | SClear                      \<comment> \<open>self._server = None\<close>
  | SEnded "unit res"
  | Client 'conn
  | Connected

text \<open>\<^emph>\<open>_accept_loop\<close>, \<^emph>\<open>stop\<close>, and the client, whose connection joins those that wait.\<close>

definition accept_advance :: "bool \<Rightarrow> 'conn listen_pc \<Rightarrow> 'conn listening \<Rightarrow> 'conn listen_pc \<times> 'conn listening" where
  "accept_advance wakes th sh =
     (case th of
        LFlag \<Rightarrow> (if ls_running sh then LServer else LEnded (Inr ()), sh)
      | LServer \<Rightarrow> (case ls_server sh of None \<Rightarrow> LEnded (Inl AttributeError) | Some s \<Rightarrow> LAccept s, sh)
      | LAccept s \<Rightarrow>
          (if s \<in> ls_closed sh then LEnded (Inr ()) else LBlocked s, sh)
      | LBlocked s \<Rightarrow>
          (if wakes \<and> s \<in> ls_closed sh then (LEnded (Inr ()), sh)
           else case ls_waiting sh of
             [] \<Rightarrow> (LBlocked s, sh)
           | conn # rest \<Rightarrow> (LFlag, sh\<lparr>ls_waiting := rest, ls_served := ls_served sh @ [conn]\<rparr>))
      | _ \<Rightarrow> (th, sh))"

definition stop_advance :: "'conn listen_pc \<Rightarrow> 'conn listening \<Rightarrow> 'conn listen_pc \<times> 'conn listening" where
  "stop_advance th sh =
     (case th of
        SFlag \<Rightarrow> (STest, sh\<lparr>ls_running := False\<rparr>)
      | STest \<Rightarrow> (if ls_server sh = None then SEnded (Inr ()) else SRead, sh)
      | SRead \<Rightarrow> (case ls_server sh of None \<Rightarrow> SEnded (Inl AttributeError) | Some s \<Rightarrow> SClose s, sh)
      | SClose s \<Rightarrow> (SClear, sh\<lparr>ls_closed := insert s (ls_closed sh)\<rparr>)
      | SClear \<Rightarrow> (SEnded (Inr ()), sh\<lparr>ls_server := None\<rparr>)
      | _ \<Rightarrow> (th, sh))"

definition listen_advance :: "bool \<Rightarrow> 'conn listen_pc \<Rightarrow> 'conn listening \<Rightarrow> 'conn listen_pc \<times> 'conn listening" where
  "listen_advance wakes th sh =
     (case th of
        Client conn \<Rightarrow> (Connected, sh\<lparr>ls_waiting := ls_waiting sh @ [conn]\<rparr>)
      | Connected \<Rightarrow> (th, sh)
      | SFlag \<Rightarrow> stop_advance th sh
      | STest \<Rightarrow> stop_advance th sh
      | SRead \<Rightarrow> stop_advance th sh
      | SClose _ \<Rightarrow> stop_advance th sh
      | SClear \<Rightarrow> stop_advance th sh
      | SEnded _ \<Rightarrow> stop_advance th sh
      | _ \<Rightarrow> accept_advance wakes th sh)"

lemmas listen_defs = listen_advance_def accept_advance_def stop_advance_def

definition listening_at :: "nat \<Rightarrow> 'conn listening" where
  "listening_at s = \<lparr> ls_running = True, ls_server = Some s, ls_closed = {}, ls_waiting = [], ls_served = [] \<rparr>"

section \<open>What a thread knows\<close>

text \<open>The one socket \<open>s\<close> is closed before it is forgotten.\<close>

definition listen_good :: "nat \<Rightarrow> 'conn listening \<Rightarrow> bool" where
  "listen_good s sh \<longleftrightarrow> (ls_server sh = None \<and> s \<in> ls_closed sh) \<or> ls_server sh = Some s"

definition listen_fine :: "nat \<Rightarrow> 'conn listen_pc \<Rightarrow> 'conn listening \<Rightarrow> bool" where
  "listen_fine s th sh \<longleftrightarrow>
     (case th of
        LAccept x \<Rightarrow> x = s
      | LBlocked x \<Rightarrow> x = s
      | STest \<Rightarrow> \<not> ls_running sh
      | SRead \<Rightarrow> \<not> ls_running sh
      | SClose x \<Rightarrow> \<not> ls_running sh \<and> x = s
      | SClear \<Rightarrow> \<not> ls_running sh \<and> s \<in> ls_closed sh
      | SEnded r \<Rightarrow> \<not> ls_running sh \<and> ls_server sh = None
      | _ \<Rightarrow> True)"

text \<open>The flag, the socket and its closing go one way only.\<close>

lemma listen_advance_mono:
  assumes "listen_advance wakes th sh = (th', sh')"
  shows "\<not> ls_running sh \<Longrightarrow> \<not> ls_running sh'" "ls_closed sh \<subseteq> ls_closed sh'" "ls_server sh = None \<Longrightarrow> ls_server sh' = None"
  using assms by (auto simp: listen_defs split: listen_pc.splits if_splits list.splits option.splits)

interpretation listen_threads: safe_threads "listen_advance wakes" "listen_good s" "listen_fine s" for wakes s
proof
  fix sh sh' :: "'a listening" and l l' k :: "'a listen_pc"
  assume good: "listen_good s sh" and fine: "listen_fine s l sh" and step: "listen_advance wakes l sh = (l', sh')"
  note mono = listen_advance_mono [OF step]
  show "listen_fine s k sh \<Longrightarrow> listen_fine s k sh'"
    using mono by (auto simp: listen_fine_def split: listen_pc.splits)
  show "listen_good s sh' \<and> listen_fine s l' sh'"
    using good fine step
    by (cases l) (auto simp: listen_defs listen_fine_def listen_good_def split: if_splits list.splits option.splits)
qed

section \<open>After a stop\<close>

definition stopped :: "nat \<Rightarrow> 'conn listening \<Rightarrow> bool" where
  "stopped s sh \<longleftrightarrow> \<not> ls_running sh \<and> ls_server sh = None \<and> s \<in> ls_closed sh"

text \<open>The calls of \<^emph>\<open>accept\<close> that may still take a connection then.\<close>

definition lingering :: "bool \<Rightarrow> 'conn listen_pc \<Rightarrow> nat" where
  "lingering wakes th = (case th of LBlocked _ \<Rightarrow> if wakes then 0 else 1 | _ \<Rightarrow> 0)"

lemma stopped_step:
  assumes "stopped s sh" "listen_fine s th sh" "listen_advance wakes th sh = (th', sh')"
  shows "stopped s sh' \<and> length (ls_served sh') + lingering wakes th' \<le> length (ls_served sh) + lingering wakes th"
  using assms
  by (cases th) (auto simp: stopped_def listen_defs listen_fine_def lingering_def
    split: if_splits list.splits option.splits)

definition may_serve :: "bool \<Rightarrow> 'conn listen_pc list \<times> 'conn listening \<Rightarrow> nat" where
  "may_serve wakes c = length (ls_served (snd c)) + sum_list (map (lingering wakes) (fst c))"

lemma stopped_run:
  assumes "(sched_step (listen_advance wakes))\<^sup>*\<^sup>* c c'" "stopped s (snd c)" "listen_threads.all_fine s c"
  shows "stopped s (snd c') \<and> may_serve wakes c' \<le> may_serve wakes c \<and> listen_threads.all_fine s c'"
  using assms
proof (induction rule: rtranclp_induct)
  case (step y z)
  then have y: "stopped s (snd y)" "may_serve wakes y \<le> may_serve wakes c" "listen_threads.all_fine s y" by blast+
  from step(2) show ?case
  proof cases
    case (turn i ths sh th' sh')
    have "listen_fine s (ths ! i) sh" using y(3) turn(1,3) by (simp add: listen_threads.all_fine_def list_all_length)
    from stopped_step [OF _ this turn(4)] y(1) turn(1)
    have "stopped s sh'" "length (ls_served sh') + lingering wakes th' \<le> length (ls_served sh) + lingering wakes (ths ! i)"
      by simp_all
    with count_replace [OF turn(3), of "lingering wakes" th'] y(2) turn(1,2) listen_threads.step_fine [OF step(2) y(3)]
    show ?thesis by (simp add: may_serve_def)
  qed
qed simp

lemma stopped_thread_ends:
  assumes "stopped s sh" "listen_fine s th sh" "th \<in> {LFlag, LServer} \<or> th = LAccept x"
  shows "\<exists>r. listen_advance wakes th sh = (LEnded r, sh)"
  using assms by (auto simp: stopped_def listen_defs listen_fine_def)

text \<open>The threads a transport has: accepting ones, stops and clients, none under way.\<close>

definition listen_start :: "'conn listen_pc \<Rightarrow> bool" where
  "listen_start th \<longleftrightarrow> (case th of LFlag \<Rightarrow> True | SFlag \<Rightarrow> True | Client _ \<Rightarrow> True | _ \<Rightarrow> False)"

lemma listen_start_fine: "listen_start th \<Longrightarrow> listen_fine s th sh"
  by (simp add: listen_start_def listen_fine_def split: listen_pc.splits)

text \<open>
  C34: How far a stop reaches: once one call of \<^emph>\<open>stop\<close> has returned or raised, in whatever way the
  threads interleave, every accepting thread ends with its next access, but for those that were blocked in \<^emph>\<open>accept\<close>;
  each of these can still take one connection, and where closing wakes them none does.
\<close>

theorem stop_is_final:
  assumes "list_all listen_start ths"
    and "(sched_step (listen_advance wakes))\<^sup>*\<^sup>* (ths, listening_at s) (ths1, sh1)" "i < length ths1" "ths1 ! i = SEnded r"
    and "(sched_step (listen_advance wakes))\<^sup>*\<^sup>* (ths1, sh1) (ths2, sh2)"
  shows "length (ls_served sh2) + sum_list (map (lingering wakes) ths2) \<le>
      length (ls_served sh1) + sum_list (map (lingering wakes) ths1) \<and>
    (\<forall>j < length ths2. ths2 ! j \<in> {LFlag, LServer} \<or> (\<exists>x. ths2 ! j = LAccept x) \<longrightarrow>
       (\<exists>r. listen_advance wakes (ths2 ! j) sh2 = (LEnded r, sh2)))"
proof -
  have "listen_threads.all_fine s (ths, listening_at s)"
    using assms(1) listen_start_fine by (auto simp: listen_threads.all_fine_def listen_good_def listening_at_def list_all_iff)
  from listen_threads.run_fine [OF assms(2) this] have fine: "listen_threads.all_fine s (ths1, sh1)" .
  then have "listen_fine s (SEnded r) sh1" "listen_good s sh1"
    using assms(3,4) by (metis fst_conv snd_conv listen_threads.all_fine_def list_all_length)+
  then have "stopped s sh1" by (auto simp: listen_fine_def listen_good_def stopped_def)
  from stopped_run [OF assms(5), of s] this fine
  have fin: "stopped s sh2" "may_serve wakes (ths2, sh2) \<le> may_serve wakes (ths1, sh1)"
    "listen_threads.all_fine s (ths2, sh2)" by simp_all
  have "listen_fine s (ths2 ! j) sh2" if "j < length ths2" for j
    using fin(3) that by (simp add: listen_threads.all_fine_def list_all_length)
  then have "\<forall>j < length ths2. ths2 ! j \<in> {LFlag, LServer} \<or> (\<exists>x. ths2 ! j = LAccept x) \<longrightarrow>
      (\<exists>r. listen_advance wakes (ths2 ! j) sh2 = (LEnded r, sh2))"
    using stopped_thread_ends [OF fin(1)] by blast
  with fin(2) show ?thesis by (simp add: may_serve_def)
qed

text \<open>A client that connects after the stop is served on a system that does not wake the blocked call.\<close>

lemma served_after_stop:
  "\<exists>ths1 sh1 ths2 sh2. (sched_step (listen_advance False))\<^sup>*\<^sup>* ([LFlag, SFlag, Client conn], listening_at s) (ths1, sh1) \<and>
    ths1 ! 1 = SEnded (Inr ()) \<and> ls_served sh1 = [] \<and>
    (sched_step (listen_advance False))\<^sup>*\<^sup>* (ths1, sh1) (ths2, sh2) \<and> ls_served sh2 = [conn] \<and> ths2 ! 0 = LFlag"
proof -
  let ?c = "([LFlag, SFlag, Client conn], listening_at s)" and ?adv = "listen_advance False"
  obtain ths1 sh1 where one: "run_sched ?adv [0, 0, 0, 1, 1, 1, 1, 1] ?c = (ths1, sh1)" by fastforce
  obtain ths2 sh2 where two: "run_sched ?adv [2, 0] (ths1, sh1) = (ths2, sh2)" by fastforce
  have at1: "ths1 = [LBlocked s, SEnded (Inr ()), Client conn]" "ls_waiting sh1 = []" "ls_served sh1 = []"
    using one by (auto simp: listen_defs listening_at_def)
  have at2: "ls_served sh2 = [conn]" "ths2 ! 0 = LFlag"
    using two at1 by (auto simp: listen_defs)
  have "(sched_step ?adv)\<^sup>*\<^sup>* ?c (ths1, sh1)" by (rule run_sched_reaches [OF one]) simp
  moreover have "(sched_step ?adv)\<^sup>*\<^sup>* (ths1, sh1) (ths2, sh2)" by (rule run_sched_reaches [OF two]) (simp add: at1)
  ultimately show ?thesis using at1 at2 by fastforce
qed

theorem stop_is_final_witness:
  "\<exists>ths1 sh1. (sched_step (listen_advance True))\<^sup>*\<^sup>* ([LFlag, SFlag, Client (5 :: nat)], listening_at 3) (ths1, sh1) \<and>
    ths1 ! 1 = SEnded (Inr ()) \<and> ls_served sh1 = [5] \<and> listen_advance True (ths1 ! 0) sh1 = (LEnded (Inr ()), sh1)"
proof -
  let ?c = "([LFlag, SFlag, Client (5 :: nat)], listening_at 3)" and ?adv = "listen_advance True"
  obtain ths1 sh1 where one: "run_sched ?adv [2, 0, 0, 0, 0, 1, 1, 1, 1, 1] ?c = (ths1, sh1)" by fastforce
  have at1: "ths1 = [LFlag, SEnded (Inr ()), Connected]" "ls_served sh1 = [5]" "\<not> ls_running sh1"
    using one by (auto simp: listen_defs listening_at_def)
  have run: "(sched_step ?adv)\<^sup>*\<^sup>* ?c (ths1, sh1)"
    by (rule run_sched_reaches [OF one]) simp
  have "\<exists>r. ?adv (ths1 ! 0) sh1 = (LEnded r, sh1)"
    using stop_is_final [OF _ run _ _ rtranclp.rtrancl_refl, of 1 "Inr ()"] at1(1) by (auto simp: listen_start_def)
  with run at1 show ?thesis by (auto simp: listen_defs intro!: exI [of _ ths1] exI [of _ sh1])
qed

text \<open>
  A stop between the test of the flag and the read of the socket leaves the accepting thread with \<^emph>\<open>None\<close>; so do
  two stops at once to one of them.
\<close>

lemma stop_race_AttributeError:
  "\<exists>ths sh. (sched_step (listen_advance wakes))\<^sup>*\<^sup>* ([LFlag, SFlag, SFlag], listening_at s :: 'conn listening) (ths, sh) \<and>
    ths = [LEnded (Inl AttributeError), SEnded (Inr ()), SEnded (Inl AttributeError)]"
proof -
  let ?c = "([LFlag, SFlag, SFlag], listening_at s :: 'conn listening)" and ?is = "[0, 1, 2, 1, 2, 1, 1, 1, 0, 2]"
  obtain ths sh where c: "run_sched (listen_advance wakes) ?is ?c = (ths, sh)" by fastforce
  have "ths = [LEnded (Inl AttributeError), SEnded (Inr ()), SEnded (Inl AttributeError)]"
    using c by (auto simp: listen_defs listening_at_def)
  moreover have "(sched_step (listen_advance wakes))\<^sup>*\<^sup>* ?c (ths, sh)"
    by (rule run_sched_reaches [OF c]) simp
  ultimately show ?thesis by blast
qed

end
