(* ===== verification/Transport_Contract.thy ===== *)
theory Transport_Contract
  imports Socket Device
begin

text \<open>
  \<^emph>\<open>transport/base.py\<close>: the abstract class is a record of its five operations, over a state \<open>'w\<close> that
  holds the object and what it shares with the system. The contract that the users of a transport rely on is a
  locale; \<^emph>\<open>sim/device.py\<close> is such a user, and the socket transport an instance. A device
  that sends through a transport may be stopped half-way, where \<open>handle_local\<close> of \<open>Device\<close> hands out
  all its frames: the two are compared.
\<close>

section \<open>The abstract class\<close>

record ('w, 'cb) transport =
  tr_start :: "'w \<Rightarrow> unit res \<times> 'w"
  tr_stop :: "'w \<Rightarrow> unit res \<times> 'w"
  tr_send :: "pystr \<Rightarrow> bytes \<Rightarrow> 'w \<Rightarrow> unit res \<times> 'w"
  tr_on_receive :: "'cb \<Rightarrow> 'w \<Rightarrow> unit res \<times> 'w"
  tr_list_peers :: "'w \<Rightarrow> pystr list res \<times> 'w"

section \<open>A device on a transport\<close>

text \<open>\<^emph>\<open>_handle_local\<close> sending through a transport; \<open>addr\<close> gives the address of a neighbour.\<close>

definition handle_local_on ::
    "('w, 'cb) transport \<Rightarrow> (nat \<Rightarrow> pystr) \<Rightarrow> 'b bloom_ops \<Rightarrow> crypto \<Rightarrow> clocks \<times> bytes \<Rightarrow> 'b device \<times> 'w
     \<Rightarrow> (unit res \<times> log_line list) \<times> 'b device \<times> 'w" where
  "handle_local_on T addr = handle_local_with (\<lambda>peer. tr_send T (addr peer))"

text \<open>The device is the one \<open>handle_local\<close> gives; the sends are those of its frames.\<close>

fun send_frames :: "('w, 'cb) transport \<Rightarrow> (nat \<Rightarrow> pystr) \<Rightarrow> frame list \<Rightarrow> 'w \<Rightarrow> unit res \<times> 'w" where
  "send_frames T addr [] w = (Inr (), w)"
| "send_frames T addr (f # fs) w =
     (case tr_send T (addr (fst f)) (snd f) w of
        (Inl e, w1) \<Rightarrow> (Inl e, w1)
      | (Inr _, w1) \<Rightarrow> send_frames T addr fs w1)"

lemma relay_loop_send_frames:
  "relay_loop (\<lambda>peer. tr_send T (addr peer)) bs line ps w = (r, logs, w') \<Longrightarrow> send_frames T addr (map (\<lambda>peer. (peer, bs)) ps) w = (r, w')"
  by (induction ps arbitrary: w r logs w') (auto split: prod.splits sum.splits)

lemma handle_local_on_parts:
  assumes "handle_local B C req dev = (Inr (logs, sends), dev')"
  shows "\<exists>r logs' w'. handle_local_on T addr B C req (dev, w) = ((r, logs'), dev', w') \<and> send_frames T addr sends w = (r, w')"
proof -
  obtain r p where rp: "process B C req (dev_pipeline dev) = (r, p)" by fastforce
  obtain x where x: "r = Inr x" using rp assms by (cases r) (auto simp: handle_local_eq)
  obtain log1 plan where pl: "relay_plan dev x = (log1, plan)" by fastforce
  show ?thesis
  proof (cases plan)
    case (Inr q)
    show ?thesis
    proof (cases q)
      case (Some a)
      obtain line f where a: "a = (line, f)" by fastforce
      obtain r' logs' w' where l: "relay_loop (\<lambda>peer. tr_send T (addr peer)) f line (dev_neighbors dev) w = (r', logs', w')"
        by (metis prod_cases3)
      from relay_loop_send_frames [OF l] l rp x pl Inr Some a assms show ?thesis
        by (auto simp: handle_local_eq handle_local_on_def handle_local_with_def)
    qed (use rp x pl Inr assms in \<open>auto simp: handle_local_eq handle_local_on_def handle_local_with_def\<close>)
  qed (use rp x pl assms in \<open>auto simp: handle_local_eq\<close>)
qed

section \<open>The contract\<close>

text \<open>
  What the users of a transport rely on. \<open>handed\<close> is what has been handed to the network, \<open>addressed\<close> what a
  send puts there: a send hands over its data whole or raises and hands over nothing that is whole; a registered callback stays; the
  peers are listed once each; starting and stopping change none of that.
\<close>

locale transport_contract =
  fixes T :: "('w, 'cb) transport"
    and good :: "'w \<Rightarrow> bool"
    and handler :: "'w \<Rightarrow> 'cb option"
    and known :: "'w \<Rightarrow> pystr set"
    and handed :: "'w \<Rightarrow> 'm list"
    and addressed :: "pystr \<Rightarrow> bytes \<Rightarrow> 'w \<Rightarrow> 'm"
  assumes send_good: "good w \<Longrightarrow> tr_send T p bs w = (r, w') \<Longrightarrow> good w' \<and> handler w' = handler w \<and> known w' = known w"
    and send_hands: "good w \<Longrightarrow> tr_send T p bs w = (r, w') \<Longrightarrow>
      handed w' = handed w @ (case r of Inr _ \<Rightarrow> [addressed p bs w] | Inl _ \<Rightarrow> [])"
    and send_keeps: "good w \<Longrightarrow> tr_send T p bs w = (r, w') \<Longrightarrow> addressed q cs w' = addressed q cs w"
    and registers: "good w \<Longrightarrow> tr_on_receive T cb w = (r, w') \<Longrightarrow>
      r = Inr () \<and> good w' \<and> handler w' = Some cb \<and> known w' = known w \<and> handed w' = handed w"
    and lists: "good w \<Longrightarrow> \<exists>xs. tr_list_peers T w = (Inr xs, w) \<and> distinct xs \<and> set xs = known w"
    and starts: "good w \<Longrightarrow> tr_start T w = (r, w') \<Longrightarrow>
      good w' \<and> handler w' = handler w \<and> known w' = known w \<and> handed w' = handed w"
    and stops: "good w \<Longrightarrow> tr_stop T w = (r, w') \<Longrightarrow>
      r = Inr () \<and> good w' \<and> handler w' = handler w \<and> known w' = known w \<and> handed w' = handed w"
begin

text \<open>The frames go out in order up to the first that raises, and no further.\<close>

lemma frames_prefix:
  assumes "good w" "send_frames T addr fs w = (r, w')"
  shows "good w' \<and> handler w' = handler w \<and> (\<exists>k \<le> length fs.
    handed w' = handed w @ map (\<lambda>f. addressed (addr (fst f)) (snd f) w) (take k fs) \<and> (returns r \<longleftrightarrow> k = length fs))"
  using assms
proof (induction fs arbitrary: w)
  case Nil
  then show ?case by auto
next
  case (Cons f fs)
  obtain r1 w1 where s: "tr_send T (addr (fst f)) (snd f) w = (r1, w1)" by fastforce
  note g = send_good [OF Cons.prems(1) s] send_hands [OF Cons.prems(1) s] send_keeps [OF Cons.prems(1) s]
  show ?case
  proof (cases r1)
    case (Inl e)
    with Cons.prems(2) s g show ?thesis by (intro conjI exI [of _ 0]) auto
  next
    case (Inr u)
    with Cons.prems(2) s have "send_frames T addr fs w1 = (r, w')" by simp
    with Cons.IH g obtain k where k: "good w'" "handler w' = handler w1" "k \<le> length fs"
      "handed w' = handed w1 @ map (\<lambda>f. addressed (addr (fst f)) (snd f) w1) (take k fs)" "returns r \<longleftrightarrow> k = length fs"
      by blast
    with g Inr show ?thesis by (intro conjI exI [of _ "Suc k"]) auto
  qed
qed

text \<open>A transport that is started and given a callback keeps it through everything its user sends.\<close>

lemma callback_stays:
  assumes "good w" "tr_start T w = (r, w1)" "tr_on_receive T cb w1 = (r', w2)" "send_frames T addr fs w2 = (r'', w3)"
  shows "handler w3 = Some cb"
  using starts [OF assms(1,2)] registers [of w1 cb r' w2] assms(3) frames_prefix [of w2 addr fs r'' w3] assms(4) by auto

end

section \<open>The socket transport\<close>

text \<open>
  The system as the sends see it: whether a connection to a host and port can be made, whether the write to it
  breaks off and after how many bytes, the order in which a set is listed, the port it assigns, and what has been
  sent, in full and in part. A write that breaks off has something left to write.
\<close>

record os =
  os_bind :: "pystr \<Rightarrow> int \<Rightarrow> int res"
  os_connect :: "pystr \<Rightarrow> int \<Rightarrow> unit res"
  os_write :: "pystr \<Rightarrow> int \<Rightarrow> bytes \<Rightarrow> (nat \<times> exn) option"
  os_order :: "pystr set \<Rightarrow> pystr list"
  os_sent :: "(pystr \<times> int \<times> bytes) list"
  os_torn :: "(pystr \<times> int \<times> bytes) list"

type_synonym 'cb socket_world = "'cb socket_transport \<times> os"

text \<open>
  \<^emph>\<open>send\<close> with the connection: nothing is sent if the address, the frame or the connection fails, and a part
  of the frame if \<^emph>\<open>sendall\<close> fails.
\<close>

definition socket_send :: "unicode \<Rightarrow> pystr \<Rightarrow> bytes \<Rightarrow> 'cb socket_world \<Rightarrow> unit res \<times> 'cb socket_world" where
  "socket_send U peer_id bs w =
     (case w of (t, sys) \<Rightarrow>
      case transport_send U peer_id bs t of
        Inl e \<Rightarrow> (Inl e, w)
      | Inr (h, p, frame) \<Rightarrow>
          (case os_connect sys h p of
             Inl e \<Rightarrow> (Inl e, w)
           | Inr _ \<Rightarrow>
               (case os_write sys h p frame of
                  Some (n, e) \<Rightarrow> (Inl e, (t, sys\<lparr>os_torn := os_torn sys @ [(h, p, take n (butlast frame))]\<rparr>))
                | None \<Rightarrow> (Inr (), (t, sys\<lparr>os_sent := os_sent sys @ [(h, p, frame)]\<rparr>)))))"

definition socket_class :: "unicode \<Rightarrow> ('cb socket_world, 'cb) transport" where
  "socket_class U =
     \<lparr> tr_start = (\<lambda>(t, sys). case transport_start (os_bind sys) t of (r, t') \<Rightarrow> (r, (t', sys))),
       tr_stop = (\<lambda>(t, sys). (Inr (), (transport_stop t, sys))),
       tr_send = socket_send U,
       tr_on_receive = (\<lambda>cb (t, sys). (Inr (), (on_receive cb t, sys))),
       tr_list_peers = (\<lambda>(t, sys). (Inr (os_order sys (peers t)), (t, sys))) \<rparr>"

definition socket_good :: "'cb socket_world \<Rightarrow> bool" where
  "socket_good w \<longleftrightarrow> lists_peers (fst w) (os_order (snd w) (peers (fst w)))"

definition socket_addressed :: "unicode \<Rightarrow> pystr \<Rightarrow> bytes \<Rightarrow> 'cb socket_world \<Rightarrow> pystr \<times> int \<times> bytes" where
  "socket_addressed U peer_id bs w = (case transport_send U peer_id bs (fst w) of Inr x \<Rightarrow> x | Inl _ \<Rightarrow> ([], 0, []))"

lemma socket_class_simps [simp]:
  "tr_send (socket_class U) = socket_send U"
  "tr_on_receive (socket_class U) cb (t, sys) = (Inr (), (on_receive cb t, sys))"
  "tr_list_peers (socket_class U) (t, sys) = (Inr (os_order sys (peers t)), (t, sys))"
  "tr_start (socket_class U) (t, sys) = (fst (transport_start (os_bind sys) t), (snd (transport_start (os_bind sys) t), sys))"
  "tr_stop (socket_class U) (t, sys) = (Inr (), (transport_stop t, sys))"
  by (simp_all add: socket_class_def split_beta)

lemma socket_send_cases:
  assumes "socket_send U p bs (t, sys) = (r, w')"
  shows "(\<exists>e torn. r = Inl e \<and> w' = (t, sys\<lparr>os_torn := torn\<rparr>)) \<or>
    (\<exists>x. r = Inr () \<and> transport_send U p bs t = Inr x \<and> w' = (t, sys\<lparr>os_sent := os_sent sys @ [x]\<rparr>))"
proof (cases "transport_send U p bs t")
  case (Inl e)
  with assms have "r = Inl e \<and> w' = (t, sys\<lparr>os_torn := os_torn sys\<rparr>)" by (simp add: socket_send_def)
  then show ?thesis by blast
next
  case (Inr x)
  obtain h port frame where x: "x = (h, port, frame)" by (cases x)
  show ?thesis
  proof (cases "os_connect sys h port")
    case (Inl e)
    with Inr assms x have "r = Inl e \<and> w' = (t, sys\<lparr>os_torn := os_torn sys\<rparr>)" by (simp add: socket_send_def)
    then show ?thesis by blast
  next
    case c: (Inr u)
    show ?thesis
    proof (cases "os_write sys h port frame")
      case None
      with c Inr assms x show ?thesis by (simp add: socket_send_def)
    next
      case (Some y)
      with c Inr assms x show ?thesis by (cases y) (auto simp: socket_send_def)
    qed
  qed
qed

lemma transport_start_fields:
  "callback (snd (transport_start bind t)) = callback t" "peers (snd (transport_start bind t)) = peers t"
  "callback (transport_stop t) = callback t" "peers (transport_stop t) = peers t"
  by (simp_all add: transport_start_def transport_stop_def Let_def split: sum.splits)

lemma socket_good_simps:
  "socket_good (on_receive cb t, sys) = socket_good (t, sys)"
  "socket_good (snd (transport_start bind t), sys) = socket_good (t, sys)"
  "socket_good (transport_stop t, sys) = socket_good (t, sys)"
  "socket_good (t, sys\<lparr>os_sent := xs\<rparr>) = socket_good (t, sys)"
  "socket_good (t, sys\<lparr>os_torn := xs\<rparr>) = socket_good (t, sys)"
  by (simp_all add: socket_good_def lists_peers_def on_receive_def transport_start_fields)

interpretation sockets: transport_contract "socket_class U" socket_good "callback \<circ> fst" "peers \<circ> fst" "os_sent \<circ> snd"
  "socket_addressed U" for U
proof (unfold_locales, goal_cases)
  case (1 w p bs r w')
  then show ?case
    using socket_send_cases [of U p bs "fst w" "snd w" r w'] by (cases w) (auto simp: socket_good_simps)
next
  case (2 w p bs r w')
  then show ?case using socket_send_cases [of U p bs "fst w" "snd w" r w'] by (auto simp: socket_addressed_def)
next
  case (3 w p bs r w' q cs)
  then show ?case using socket_send_cases [of U p bs "fst w" "snd w" r w'] by (auto simp: socket_addressed_def)
next
  case (4 w cb r w')
  then show ?case by (cases w) (auto simp: socket_good_simps, simp_all add: on_receive_def)
next
  case (5 w)
  then show ?case by (cases w) (simp add: socket_good_def lists_peers_def)
next
  case (6 w r w')
  then show ?case by (cases w) (auto simp: transport_start_fields socket_good_simps)
next
  case (7 w r w')
  then show ?case by (cases w) (auto simp: transport_start_fields socket_good_simps)
qed

section \<open>Relaying through sockets\<close>

text \<open>
  A device on sockets sends what the device of the mesh model hands out, in order, up to the first send
  that raises; the frames after it are never sent, though the message now counts as seen.
\<close>

lemma relay_stops_at_failure:
  assumes "handle_local B C req dev = (Inr (logs, sends), dev')" "socket_good w"
  shows "\<exists>r logs' w' k. handle_local_on (socket_class U) addr B C req (dev, w) = ((r, logs'), dev', w') \<and> k \<le> length sends \<and>
    os_sent (snd w') = os_sent (snd w) @ map (\<lambda>f. socket_addressed U (addr (fst f)) (snd f) w) (take k sends) \<and>
    (returns r \<longleftrightarrow> k = length sends)"
proof -
  obtain r logs' w' where h: "handle_local_on (socket_class U) addr B C req (dev, w) = ((r, logs'), dev', w')"
    "send_frames (socket_class U) addr sends w = (r, w')"
    using handle_local_on_parts [OF assms(1), of "socket_class U" addr w] by blast
  from sockets.frames_prefix [OF assms(2) h(2)] h(1) show ?thesis by auto
qed

text \<open>In the mesh this is a step after which some frames are lost, so what holds of the mesh holds of it.\<close>

lemma frames_lost:
  assumes "in_flight n = rest + mset fs"
  shows "(net_step B C)\<^sup>*\<^sup>* n (n\<lparr>in_flight := rest\<rparr>)"
  using assms
proof (induction fs arbitrary: n)
  case Nil
  then have "n = n\<lparr>in_flight := rest\<rparr>" by simp
  then show ?case by (metis rtranclp.rtrancl_refl)
next
  case (Cons f fs)
  then have "in_flight n = add_mset f (rest + mset fs)" by simp
  then have "net_step B C n (n\<lparr>in_flight := rest + mset fs\<rparr>)" by (rule net_step.lost)
  moreover have "(net_step B C)\<^sup>*\<^sup>* (n\<lparr>in_flight := rest + mset fs\<rparr>) (n\<lparr>in_flight := rest\<rparr>)"
    using Cons.IH [of "n\<lparr>in_flight := rest + mset fs\<rparr>"] by simp
  ultimately show ?case by (rule converse_rtranclp_into_rtranclp)
qed

lemma partial_relay_in_mesh:
  assumes "handle_local B C (clk, bs) (devices n d) = (Inr (logs, sends), dev)" "in_flight n = add_mset (d, bs) rest"
  shows "(net_step B C)\<^sup>*\<^sup>* n (n\<lparr>devices := (devices n)(d := dev), in_flight := rest + mset (take k sends)\<rparr>)"
proof -
  let ?n = "n\<lparr>devices := (devices n)(d := dev), in_flight := rest + mset sends\<rparr>"
  have "mset sends = mset (take k sends) + mset (drop k sends)" by (metis append_take_drop_id mset_append)
  then have "in_flight ?n = rest + mset (take k sends) + mset (drop k sends)" by simp
  from frames_lost [OF this] net_step.arrive [OF assms] show ?thesis
    by (auto intro: converse_rtranclp_into_rtranclp)
qed

section \<open>A dead neighbour\<close>

fun run_on ::
    "('w, 'cb) transport \<Rightarrow> (nat \<Rightarrow> pystr) \<Rightarrow> 'b bloom_ops \<Rightarrow> crypto \<Rightarrow> (clocks \<times> bytes) list \<Rightarrow> 'b device \<times> 'w \<Rightarrow> 'b device \<times> 'w" where
  "run_on T addr B C [] s = s"
| "run_on T addr B C (req # reqs) s = run_on T addr B C reqs (snd (handle_local_on T addr B C req s))"

lemma handle_local_on_dead:
  assumes "\<And>bs. \<exists>e. tr_send T (addr peer) bs w = (Inl e, w)" "dev_neighbors dev = peer # ps"
  shows "\<exists>dev'. snd (handle_local_on T addr B C req (dev, w)) = (dev', w) \<and> dev_neighbors dev' = peer # ps"
proof -
  have dead: "\<exists>e. relay_loop (\<lambda>peer. tr_send T (addr peer)) bs line (dev_neighbors dev) w = (Inl e, [], w)" for bs line
    using assms(1) [of bs] by (auto simp: assms(2))
  obtain r p where rp: "process B C req (dev_pipeline dev) = (r, p)" by fastforce
  let ?dev = "dev\<lparr>dev_pipeline := p\<rparr>"
  have "snd (handle_local_on T addr B C req (dev, w)) = (?dev, w)"
  proof (cases r)
    case (Inr x)
    obtain log1 plan where pl: "relay_plan dev x = (log1, plan)" by fastforce
    show ?thesis
    proof (cases plan)
      case q: (Inr q)
      show ?thesis
      proof (cases q)
        case (Some a)
        obtain line f where a: "a = (line, f)" by fastforce
        with dead [of f line] rp Inr pl q Some show ?thesis by (auto simp: handle_local_on_def handle_local_with_def)
      qed (use rp Inr pl q in \<open>simp add: handle_local_on_def handle_local_with_def\<close>)
    qed (use rp Inr pl in \<open>simp add: handle_local_on_def handle_local_with_def\<close>)
  qed (use rp in \<open>simp add: handle_local_on_def handle_local_with_def\<close>)
  then show ?thesis using assms(2) by simp
qed

text \<open>
  C35: One dead neighbour silences a device: if the address of the first neighbour refuses connections, the device
  never sends anything to anyone, whatever it receives and for however long; the send to the first
  neighbour raises before the others are tried.
\<close>

theorem dead_neighbour_silences:
  assumes "dev_neighbors dev = peer # ps" "rsplit_last 58 (addr peer) = [h, port_str]"
    and "int_of_text U 10 port_str = Inr p" "os_connect (snd w) h p = Inl e"
  shows "snd (run_on (socket_class U) addr B C reqs (dev, w)) = w"
proof -
  have dead: "\<exists>e. tr_send (socket_class U) (addr peer) bs w = (Inl e, w)" for bs
    using assms(2-4) by (cases w; cases "send_frame (transport_address (fst w)) bs") (auto simp: socket_send_def transport_send_def)
  have "snd (run_on (socket_class U) addr B C reqs (dev, w)) = w" if "dev_neighbors dev = peer # ps" for dev
    using that
  proof (induction reqs arbitrary: dev)
    case (Cons req reqs)
    obtain dev' where "snd (handle_local_on (socket_class U) addr B C req (dev, w)) = (dev', w)" "dev_neighbors dev' = peer # ps"
      using handle_local_on_dead [where T = "socket_class U" and addr = addr and peer = peer and w = w, OF dead Cons.prems] by blast
    with Cons.IH show ?case by simp
  qed simp
  from this [OF assms(1)] show ?thesis .
qed

text \<open>Two neighbours; the first one's address refuses connections.\<close>

definition demo_os :: os where
  "demo_os = \<lparr> os_bind = (\<lambda>h p. Inr p), os_connect = (\<lambda>h p. if p = 1 then Inl OSError else Inr ()),
     os_write = (\<lambda>h p bs. None), os_order = (\<lambda>S. []), os_sent = [], os_torn = [] \<rparr>"

definition demo_socket :: "unit socket_world" where
  "demo_socket = (new_transport [97] 7, demo_os)"

definition demo_addr :: "nat \<Rightarrow> pystr" where
  "demo_addr i = [97, 58] @ text_of_int (int i)"

lemma demo_addr_split: "rsplit_last 58 (demo_addr i) = [[97], text_of_int (int i)]"
proof -
  have "58 \<notin> set (text_of_int (int i))" using text_of_int_ascii [of 58 "int i"] by auto
  then show ?thesis using rsplit_last_app [of 58 "text_of_int (int i)" "[97]"] by (simp add: demo_addr_def)
qed

theorem dead_neighbour_silences_witness:
  "snd (run_on (socket_class ascii_unicode) demo_addr list_bloom toy_crypto [(clocks_at 1000, demo_packet)] (demo_device, demo_socket)) =
    demo_socket \<and>
   (\<exists>logs sends dev. handle_local list_bloom toy_crypto (clocks_at 1000, demo_packet) demo_device = (Inr (logs, sends), dev) \<and>
      map fst sends = [1, 2])"
proof -
  have "int_of_text ascii_unicode 10 (text_of_int 1) = Inr 1" using port_digits [of 1] by (simp add: int_of_text_of_int)
  then show ?thesis
    using dead_neighbour_silences [of demo_device 1 "[2]" demo_addr "[97]" "text_of_int 1" ascii_unicode 1 demo_socket OSError
      list_bloom toy_crypto "[(clocks_at 1000, demo_packet)]"] demo_addr_split [of 1] device_forwards_demo
    by (auto simp: demo_device_def demo_socket_def demo_os_def)
qed

lemma relay_stops_at_failure_witness:
  "\<exists>r logs dev w' k. handle_local_on (socket_class ascii_unicode) demo_addr list_bloom toy_crypto (clocks_at 1000, demo_packet)
      (demo_device, demo_socket) = ((r, logs), dev, w') \<and> k \<le> 2 \<and> length (os_sent (snd w')) = k"
proof -
  obtain logs dev where h: "handle_local list_bloom toy_crypto (clocks_at 1000, demo_packet) demo_device =
     (Inr (logs, [(1, (demo_packet[68 := 4])[69 := 4]), (2, (demo_packet[68 := 4])[69 := 4])]), dev)"
    using device_forwards_demo by blast
  have "socket_good demo_socket" by (simp add: socket_good_def demo_socket_def demo_os_def lists_peers_def new_transport_def)
  from relay_stops_at_failure [OF h this, of ascii_unicode demo_addr] show ?thesis
    by (auto simp: demo_socket_def demo_os_def)
qed

end
