(* ===== verification/Spec2Isabelle.thy ===== *)
theory Spec2Isabelle
  imports Attack_Demo Attest_Threads Dedup_Threads End_To_End Friend_State Keygen Mesh_Threads Pipeline_Threads Rate_Threads Stop_Threads Transport_Contract
begin

text \<open>
  A verification library for \<^emph>\<open>meshlink-core\<close>, the Python core of the MeshLink mesh messenger.

  \<^bold>\<open>The program.\<close> A node receives packets from its peers. \<^emph>\<open>pipeline/pipeline.py\<close> takes each one
  through eight steps, the cheap ones first: size, hop budget, timestamp, dedup, rate limit,
  Ed25519 signature, attestation, delivery with the Spray-and-Wait budget contract; a delivered
  packet may be handed on, with one hop less and half of the copies. Steps 4, 5, 7 and 8 keep
  state: the dedup cache (Bloom filter and LRU), the rate limiter, the attestation cache and the
  budget tracker. Outgoing packets are built and signed by \<^emph>\<open>identity/signing.py\<close> with the identity
  of \<^emph>\<open>identity/keygen.py\<close>. The applications put payloads into packets: friend requests and
  direct messages (\<^emph>\<open>friends/wire.py\<close>), location messages (\<^emph>\<open>location/wire.py\<close>), both sealed by
  \<^emph>\<open>crypto/sealed.py\<close>, and capability tokens (\<^emph>\<open>capability/token.py\<close>); \<^emph>\<open>friends/state.py\<close> is the
  friendship state machine. \<^emph>\<open>sim/\<close> runs whole meshes over \<^emph>\<open>transport/socket_transport.py\<close>.

  \<^bold>\<open>The theories.\<close>
  \<^item> \<open>Prelude\<close>: bytes, slices, exceptions as values, clock readings, decimal rendering.
  \<^item> \<open>Struct_Codec\<close>: Python's \<^emph>\<open>struct\<close> formats; the interface \<open>fixed_layout\<close> of a fixed-size codec.
  \<^item> \<open>Utf8\<close>: strict UTF-8.  \<open>Crypto\<close>: PyNaCl and blake3 as a parameter with named laws.
  \<^item> \<open>Message\<close>: \<^emph>\<open>pipeline/message.py\<close>.  \<open>Checks\<close>: steps 1, 2, 3 and 6.
  \<^item> \<open>Gate\<close>: the interface of a stateful check: an invariant every call keeps and under which
    every call returns; lifted to sequences of calls.
  \<^item> \<open>Dedup\<close>, \<open>Rate_Limit\<close>, \<open>Attestation\<close>, \<open>Spray\<close>: steps 4, 5, 7 and 8, each an instance of the gate.
  \<^item> \<open>Pipeline\<close>: \<open>process\<close>, cut at its early returns into the stages \<open>process_stateful\<close> (4, 5),
    \<open>process_signature\<close> (6), \<open>process_attest\<close> (7) and \<open>process_deliver\<close> (8); again a gate.
  \<^item> \<open>Delivery\<close>: the conditions \<open>clears\<close> of a delivery, what the pipeline remembers, chains of relays.
  \<^item> \<open>Signing\<close>, \<open>Keygen\<close>: \<^emph>\<open>identity/\<close> and \<^emph>\<open>sim/packet.py\<close>.
  \<^item> \<open>Sealed\<close>, \<open>Token\<close>: \<^emph>\<open>crypto/sealed.py\<close> and \<^emph>\<open>capability/token.py\<close>.
  \<^item> \<open>Mail\<close>: the interface of a payload sealed behind a recipient hint; \<open>Friend_Wire\<close> and
    \<open>Location_Wire\<close> are its instances.  \<open>Friend_State\<close>: the friendship machine.
  \<^item> \<open>Hex\<close>, \<open>Base64\<close>, \<open>Py_Text\<close>: what the code reads texts with: hexadecimal, URL-safe base64,
    \<^emph>\<open>split\<close>, \<^emph>\<open>rsplit\<close>, \<^emph>\<open>join\<close>, \<^emph>\<open>int()\<close> of a text and the decimal text of an integer.
  \<^item> \<open>Json\<close>, \<open>Json_Print\<close>: \<^emph>\<open>json.loads\<close>, \<^emph>\<open>json.dumps\<close>, and that the one reads what the other writes.
  \<^item> \<open>Dedup_Threads\<close>: the dedup cache under the threads of the transport, access by access. \<open>Threads\<close>:
    the interface of local assertions that other threads do not destroy; \<open>Attest_Threads\<close> and \<open>Rate_Threads\<close>:
    the attestation cache and the rate limiter under threads; \<open>Pipeline_Threads\<close>: the steps of \<open>process\<close> under threads;
    \<open>Stop_Threads\<close>: stopping a transport against its accepting threads.
  \<^item> \<open>Transport\<close>: framing and reassembly.  \<open>Socket\<close>: the transport object around them.
  \<^item> \<open>Topology\<close>, \<open>Device\<close>: \<^emph>\<open>sim/topologies\<close> and \<^emph>\<open>sim/device.py\<close>, with the mesh as a step relation on
    devices and frames in flight.  \<open>Reach\<close>: how far a message gets in it.  \<open>End_To_End\<close>: a direct message
    and a location grant on their way through it.  \<open>Transport_Contract\<close>: \<^emph>\<open>transport/base.py\<close>, the interface
    between a device and its transport, whose sends may raise.  \<open>Mesh_Threads\<close>: the mesh with all its threads, cut
    at the steps of \<open>process\<close> and at the sends, which the system answers.
  \<^item> \<open>Harness\<close>: \<^emph>\<open>sim/harness.py\<close> and \<^emph>\<open>sim/logging_util.py\<close>; \<open>Command_Line\<close>: its \<^emph>\<open>parse_args\<close>;
    \<open>Harness_Main\<close>: its \<^emph>\<open>main\<close>, from the injections to the stop of the last device, as one more thread of the
    mesh of \<open>Mesh_Threads\<close>.
    \<open>Attack_Demo\<close>: \<^emph>\<open>sim/adversarial_demo.py\<close>, five attacks on one device.
  \<^item> \<open>Fixtures\<close>: concrete data for the witnesses.

  \<^bold>\<open>Conventions.\<close> A call that may raise returns \<open>exn + 'a\<close>; a call on an object takes its state last
  and returns it updated. A clock reading, a random draw or an input is an argument of the call
  that makes it; \<open>clocks\<close> holds the four readings of one \<^emph>\<open>process\<close> call. Bytes are 8-bit words,
  Python integers \<open>int\<close>, and the width of a field shows in its format. A definition has the name of
  the Python function it models, prefixed with its component where two would clash.

  \<^bold>\<open>What the lemmas show.\<close> The pipeline never raises (C1), delivers exactly what clears all steps (C2),
  lets no replay through (C3), spends nothing on packets that fail the cheap steps (C4), reads every
  packet in one way only (C5) under a signature that binds all but the hop bytes (C6), keeps a message
  intact over relays and lets it die out (C7), and delivers honest traffic, or has one of five stated reasons not to (C8). C9 and C10 put the
  layers together: a direct message from its text to its reader, a location grant from consent to revocation.
  C11 says which devices a packet can reach. C12 is the price of the order of the steps. C13 and C14 are the
  dedup cache as it is called, C15 and C16 what its threads keep of that and what they lose: a call that is not
  interrupted is the sequential one, but two threads can both accept one message. C17 and C18 show that such races
  are all inside the checks: with each check undivided, the steps of \<open>process\<close> may interleave in any way, and still
  only good packets are delivered, and each once. C19 and C20 are the
  rate limiter, C21 and C22 its threads: they weaken the limit, by exactly the number of connections.
  C23 and C24 are attestation, C25 its threads: nobody unattested gets through. C26 is the identity file,
  C27 are envelopes, C28 tokens, C29 to C32 friendship and consent. C33 takes data from one
  transport to the other, C34 says how far a stop reaches, C35 shows what one dead neighbour does. C36 says what is ever in
  flight and what can end a thread. C37 is the command line, C38 and C39 the harness from there to the end of every run, C40
  the demo. Lemmas of the components go further than the claims: \<open>limiter_ban_and_recovery\<close>, \<open>limiter_passes_iff\<close>, \<open>spray_budget_conserved\<close>, \<open>spray_ceiling\<close>, \<open>relay_overcommits\<close>,
  \<open>process_in_steps\<close>, \<open>rate_thread_alone\<close>, \<open>race_raises_KeyError\<close>, \<open>race_rebuild_forgets\<close>, \<open>race_loses_renewal\<close>, \<open>race_pops_twice\<close>,
  \<open>threads_remember\<close>, \<open>served_after_stop\<close>, \<open>add_token_header_escapes\<close>, \<open>add_token_nesting_escapes\<close>,
  \<open>unseal_exchange_escapes\<close>, \<open>token_layout_exact\<close>, \<open>friend_accept_roundtrip\<close>, \<open>location_response_roundtrip\<close>, \<open>frame_roundtrip\<close>,
  \<open>relay_stops_at_failure\<close>, \<open>thread_alone_handles\<close>, \<open>arrive_in_mesh\<close>, \<open>inject_in_main\<close>, \<open>late_grant_stays\<close>, \<open>command_line_roundtrip\<close>, \<open>inject_spec_needs_zone\<close>, \<open>build_devices_mesh\<close> and others.

  \<^bold>\<open>Third-party code\<close> is a parameter: the records \<open>crypto\<close> (PyNaCl, blake3) and \<open>bloom_ops\<close> (pybloom-live).
  Their documented behaviour is a predicate where a theorem needs it (\<open>ed25519_ok\<close>,
  \<open>ed25519_errors\<close>, \<open>box_ok\<close>, \<open>box_total\<close>, \<open>hash_ok\<close>, \<open>bloom_ok\<close>); \<open>toy_crypto\<close> and
  \<open>list_bloom\<close> satisfy all of them. The filter may take any new key for a known one; nothing is assumed about how rarely.
  Nothing is assumed about how hard forging is.

  \<^bold>\<open>Bounds.\<close> Every loop of the code terminates and its model is total. One has a bound on its rounds, the
  items of a JSON array or object; it is the length of the text, and \<open>scan_items_rounds\<close> shows that any
  greater one gives the same result. The depth of the interpreter's stack is a parameter (\<open>nesting\<close>). The replay
  bound of C3 is the LRU capacity of 10000 packets; its 332 seconds are the timestamp window of
  330 seconds and the rounding of two readings, well inside the cache's 600.

  \<^bold>\<open>Not modelled.\<close> What the operating system answers (\<^emph>\<open>bind\<close>, \<^emph>\<open>connect\<close>, \<^emph>\<open>sendall\<close>, \<^emph>\<open>accept\<close>, \<^emph>\<open>recv\<close>, \<^emph>\<open>sleep\<close>),
  random draws and clock readings are arguments, what is printed or sent is a result, and the file system is the
  identity file. The tables of Unicode behind \<^emph>\<open>int()\<close>, the UTF-16 and UTF-32 decoders and the
  doubles that JSON literals denote are parameters (\<open>decoders\<close>), \<^emph>\<open>float()\<close> is one of \<open>Harness\<close>; the theorems
  hold for all of them. \<^emph>\<open>argparse\<close> is that of Python 3.11, without the texts of its messages. Package
  exports and the tests have no model: the exports only name what is modelled, the tests are no part of the program.
  Threads are interleaved access by access for the dedup cache, the rate limiter (one sender,
  its housekeeping apart), the attestation cache and the accept loop, where an operation of a built-in container is one
  access, and step by step for \<open>process\<close>, there with each check undivided, alone and in the mesh of \<open>Mesh_Threads\<close>, on which C36
  and C39 rest. The claims about reach and travel (C9, C11, C38) are about the mesh of \<open>Device\<close>, where a device handles one packet
  at a time and sends are not refused; \<open>arrive_in_mesh\<close> shows that its steps are runs of the mesh of threads. Timestamps of \<^emph>\<open>time.time()\<close> are exact rationals,
  see \<open>Prelude\<close>.
\<close>

section \<open>The relay pipeline\<close>

text \<open>
  C1: \<^emph>\<open>RelayPipeline.process\<close> never raises: from every good state (every new pipeline is one) each
  call of any sequence returns a result, on any byte string, and the state stays good.
\<close>

theorem process_never_raises:
  assumes "pipeline_inv B C D p"
  shows "list_all returns (fst (run_checks (process B C) reqs p)) \<and>
    pipeline_inv B C D (snd (run_checks (process B C) reqs p))"
  using pipe.run_total [OF assms] pipe.run_keeps [OF assms] by blast

theorem process_never_raises_witness:
  "list_all returns (fst (run_checks (process list_bloom toy_crypto)
     [(clocks_at 1000, demo_packet), (clocks_at 1001, []), (clocks_at 1002, demo_packet)] demo_pipeline))"
  using process_never_raises [OF demo_inv] by blast

text \<open>
  C2: \<^emph>\<open>process\<close> delivers exactly the packets that clear every step (size, well-formed, hops left,
  fresh, not seen, within the rate, validly signed, attested, within the copy budget), with the
  onward copy \<^emph>\<open>_onward_copy\<close> computes, and drops every other one with a reason; the outcome RELAY
  is never returned.
\<close>

theorem process_delivers_iff_clears:
  assumes "pipeline_inv B C D p"
  shows "(clears B C clk bs p m \<longrightarrow>
      (\<exists>f. onward_copy bs m = Inr f \<and> fst (process B C (clk, bs) p) =
        Inr \<lparr> outcome = DELIVER, drop_reason = None, delivered = Some m, forward = f \<rparr>)) \<and>
    ((\<nexists>m. clears B C clk bs p m) \<longrightarrow>
      (\<exists>reason. fst (process B C (clk, bs) p) =
        Inr \<lparr> outcome = DROP, drop_reason = Some reason, delivered = None, forward = None \<rparr>))"
  using process_outcome(1) [OF assms, of clk bs m] process_outcome(2) [OF assms, of clk bs]
  by (auto simp: clears_def admitted_def onward_copy_onward delivery_def drops_def drop_with_def)

theorem process_delivers_iff_clears_witness:
  "\<exists>f. fst (process list_bloom toy_crypto (clocks_at 1000, demo_packet) demo_pipeline) =
     Inr \<lparr> outcome = DELIVER, drop_reason = None, delivered = Some demo_message, forward = f \<rparr>"
  using process_delivers_iff_clears [OF demo_inv, of "clocks_at 1000" demo_packet demo_message] demo_clears by blast

text \<open>
  C3: No replay gets through. Once a packet has been delivered, a packet with the same identifier
  and timestamp is dropped at any later time of a clock that never goes back, provided fewer than
  10000 other packets were processed in between: within 332 seconds of the first delivery the
  dedup cache still knows it, and afterwards its timestamp is stale.
\<close>

theorem replay_is_dropped:
  assumes inv: "pipeline_inv B C D p" and acc: "accepts (fst (process B C (clk, bs) p)) m"
    and order: "in_order ((clk, bs) # reqs @ [(clk', bs')])" and few: "length reqs < CAPACITY"
    and same: "parse_packet bs' = Inr m'" "msg_id m' = msg_id m" "timestamp m' = timestamp m"
  shows "drops (fst (process B C (clk', bs') (snd (run_checks (process B C) reqs (snd (process B C (clk, bs) p))))))"
proof -
  let ?q = "snd (run_checks (process B C) reqs (snd (process B C (clk, bs) p)))"
  have cl: "clears B C clk bs p m" using acc by (simp add: accepts_clears [OF inv])
  have q: "pipeline_inv B C D ?q" by (rule pipe.run_keeps [OF pipe.keeps [OF inv]])
  have "\<not> clears B C clk' bs' ?q m''" for m''
  proof
    assume c: "clears B C clk' bs' ?q m''"
    then have m'': "m'' = m'" using same(1) by (simp add: clears_def admitted_def)
    have "clk_timestamp clk' - clk_timestamp clk < 332"
      using c cl same(3) m'' by (intro fresh_span [of _ "timestamp m"]) (simp_all add: clears_def admitted_def)
    then have "\<forall>(c, x) \<in> set reqs. clk_dedup c - clk_dedup clk \<le> TTL_SECONDS"
      using in_order_span [OF order] by fastforce
    from process_run_holds [OF pipe.keeps [OF inv] accepted_holds [OF inv cl] this] few
    have h: "holds (msg_id m) (clk_dedup clk) (length reqs) (dedup_cache ?q)" by simp
    from holds_mem [OF q h] have "bf_mem B (msg_id m) (bloom (dedup_cache ?q))" .
    with c m'' same(2) show False by (simp add: clears_def)
  qed
  then show ?thesis by (intro process_outcome(2) [OF q]) blast
qed

theorem replay_is_dropped_witness:
  "drops (fst (process list_bloom toy_crypto (clocks_at 1200, demo_packet)
     (snd (run_checks (process list_bloom toy_crypto) [(clocks_at 1100, [1, 2, 3])]
        (snd (process list_bloom toy_crypto (clocks_at 1000, demo_packet) demo_pipeline))))))"
  by (rule replay_is_dropped [OF demo_inv demo_delivered _ _ demo_packet_facts(2) refl refl])
     (simp_all add: in_order_def)

text \<open>
  C12: What a forgery can do: a packet with the identifier of a message still to come and a signature
  that does not verify is itself dropped, but the dedup cache has recorded the identifier before the
  signature was looked at, so the genuine message, which the node would have delivered, is dropped
  as a duplicate.
\<close>

theorem forgery_suppresses_message:
  assumes inv: "pipeline_inv B C D p" and forged: "admitted clk bs m" "\<not> sig_valid C m"
    and genuine: "clears B C clk' bs' p m'" "msg_id m' = msg_id m"
  shows "accepts (fst (process B C (clk', bs') p)) m' \<and> drops (fst (process B C (clk, bs) p)) \<and>
    drops (fst (process B C (clk', bs') (snd (process B C (clk, bs) p))))"
proof -
  let ?q = "snd (process B C (clk, bs) p)"
  have q: "pipeline_inv B C D ?q" by (rule pipe.keeps [OF inv])
  have "bf_mem B (msg_id m) (bloom (dedup_cache ?q))"
    using genuine by (intro admitted_remembered [OF inv forged(1)]) (simp add: clears_def)
  then have "\<nexists>x. clears B C clk' bs' ?q x"
    using genuine by (auto simp: clears_def admitted_def)
  moreover have "\<nexists>x. clears B C clk bs p x"
    using forged by (auto simp: clears_def admitted_def)
  ultimately show ?thesis
    using process_outcome(2) [OF q] process_outcome(2) [OF inv] accepts_clears [OF inv] genuine(1) by blast
qed

theorem forgery_suppresses_message_witness:
  "accepts (fst (process list_bloom toy_crypto (clocks_at 1000, demo_packet) demo_pipeline)) demo_message \<and>
   drops (fst (process list_bloom toy_crypto (clocks_at 999, forged_packet) demo_pipeline)) \<and>
   drops (fst (process list_bloom toy_crypto (clocks_at 1000, demo_packet)
     (snd (process list_bloom toy_crypto (clocks_at 999, forged_packet) demo_pipeline))))"
  by (rule forgery_suppresses_message [OF demo_inv demo_forged(1,2) demo_clears demo_forged(3)])

text \<open>
  C4: The cheap checks come first: a packet of the wrong size, malformed, out of hops or with a
  timestamp outside the window is dropped with a reason and leaves the whole state as it was,
  before any cache or any cryptography is consulted.
\<close>

theorem cheap_checks_first:
  assumes "length bs < 131 \<or> 460 < length bs \<or> (\<exists>e. parse_packet bs = Inl e) \<or>
    (\<exists>m. parse_packet bs = Inr m \<and> (ttl m = 0 \<or> \<not> fresh (clk_timestamp clk) (timestamp m)))"
  shows "\<exists>reason. \<forall>(B :: 'b bloom_ops) C p.
    process B C (clk, bs) p = (Inr (drop_with (Some reason)), p)"
proof -
  have na: "\<nexists>m. admitted clk bs m"
  proof
    assume "\<exists>m. admitted clk bs m"
    then obtain m where m: "admitted clk bs m" by blast
    then have "139 \<le> length bs" using parse_packet_InrD(1) by (auto simp: admitted_def)
    with m assms show False by (auto simp: admitted_def)
  qed
  have "process B C (clk, bs) p = (fst (process B' C' (clk, bs) p'), p)"
    for B B' :: "'b bloom_ops" and C C' and p p' :: "'b relay_pipeline"
  proof -
    have "ttl m = 0 \<or> \<not> fresh (clk_timestamp clk) (timestamp m)"
      if "parse_packet bs = Inr m" "length bs \<le> 460" for m
      using that na parse_packet_wf [OF that(1)] by (auto simp: admitted_def msg_wf_def)
    then show ?thesis by (auto simp: process_def not_less split: sum.splits)
  qed
  then show ?thesis using process_not_admitted [OF na] by (metis prod.inject)
qed

theorem cheap_checks_first_witness:
  "\<exists>reason. \<forall>(B :: (nat \<times> bytes list) bloom_ops) C p.
    process B C (clocks_at 2000, demo_packet) p = (Inr (drop_with (Some reason)), p)"
proof (rule cheap_checks_first)
  show "length demo_packet < 131 \<or> 460 < length demo_packet \<or> (\<exists>e. parse_packet demo_packet = Inl e) \<or>
    (\<exists>m. parse_packet demo_packet = Inr m \<and> (ttl m = 0 \<or> \<not> fresh (clk_timestamp (clocks_at 2000)) (timestamp m)))"
    by (simp add: demo_packet_facts(2) fresh_def)
qed

text \<open>
  C7: Relaying keeps the message: after \<open>n\<close> onward copies the packet parses to the same message
  but for \<open>n\<close> fewer hops and the budget halved \<open>n\<close> times, and its signature is as valid as the
  original's; and a copy makes \<open>n \<ge> 1\<close> hops exactly when \<open>n\<close> is below the hop limit and \<open>2\<^sup>n\<close> within
  the copy budget, so no packet circulates for ever.
\<close>

theorem relaying_preserves_message:
  assumes "parse_packet bs = Inr m"
  shows "(relayed bs n cs \<longrightarrow>
      (\<exists>m'. parse_packet cs = Inr m' \<and>
         m' = m\<lparr>raw := cs, ttl := ttl m - int n, spray_l := spray_l m div 2 ^ n\<rparr> \<and>
         sig_valid C m' = sig_valid C m)) \<and>
    (0 < n \<longrightarrow> ((\<exists>cs. relayed bs n cs) \<longleftrightarrow> int n < ttl m \<and> 2 ^ n \<le> spray_l m))"
proof -
  have "\<exists>m'. parse_packet cs = Inr m' \<and>
      m' = m\<lparr>raw := cs, ttl := ttl m - int n, spray_l := spray_l m div 2 ^ n\<rparr> \<and>
      sig_valid C m' = sig_valid C m" if "relayed bs n cs"
    using relayed_same [OF that assms] relayed_sig [OF that assms, of _ C] by blast
  moreover have "(\<exists>cs. relayed bs n cs) \<longleftrightarrow> int n < ttl m \<and> 2 ^ n \<le> spray_l m" if "0 < n"
    using that relayed_same [OF _ assms, of n] relayed_exists [OF assms, of n] by blast
  ultimately show ?thesis by blast
qed

theorem relaying_preserves_message_witness:
  "(\<exists>cs. relayed demo_packet 3 cs) \<and> \<not> (\<exists>cs. relayed demo_packet 4 cs)"
  using relaying_preserves_message [OF demo_packet_facts(2), of 3] relaying_preserves_message [OF demo_packet_facts(2), of 4]
  by simp

text \<open>
  C8: Honest traffic gets through: a packet an honest identity builds with at most 321 bytes of payload, or any copy
  of it handed on over \<open>n\<close> hops, is delivered by a node in whatever good state exactly when its timestamp is fresh,
  the node's filter does not know its identifier (or take it for a known one), the rate limiter passes its
  ephemeral identifier, the node, if it asks for attestation, has an unexpired one for the sender, and no smaller
  copy budget is recorded for it; what is delivered has that payload, sender and zone. So a new node without attestation
  delivers it whenever it is fresh.
\<close>

theorem honest_packet_is_delivered:
  assumes C: "ed25519_ok C" "ed25519_errors C" "hash_ok C" and B: "bloom_ok B"
    and args: "header_args_ok eid ts hops l zid mtype pl" "0 < hops" "length pl \<le> 321"
  shows "\<exists>bs mid. build_signed_packet C i eid hops l zid mtype pl (Some ts) now = Inr bs \<and>
    compute_msg_id C (public_key C i) ts mtype pl = Inr mid \<and>
    (\<forall>n cs clk D p. relayed bs n cs \<and> pipeline_inv B C D p \<longrightarrow>
       (\<forall>m. accepts (fst (process B C (clk, cs) p)) m \<longrightarrow> payload m = pl \<and> sender_key m = public_key C i \<and> zone_id m = zid) \<and>
       ((\<exists>m. accepts (fst (process B C (clk, cs) p)) m) \<longleftrightarrow>
          fresh (clk_timestamp clk) ts \<and> \<not> bf_mem B mid (bloom (dedup_cache p)) \<and>
          fst (rate_check (clk_rate clk, eid) (rate_limiter p)) = Inr None \<and>
          (\<forall>cache. attestation p = Some cache \<longrightarrow>
             (\<exists>ex. expiry cache (public_key C i) = Some ex \<and> py_int (clk_attest clk) < ex)) \<and>
          (\<forall>e. expected (spray_budget p) mid = Some e \<longrightarrow> l div 2 ^ n \<le> e))) \<and>
    (\<forall>n cs clk. relayed bs n cs \<and> fresh (clk_timestamp clk) ts \<and> 0 \<le> clk_rate clk \<longrightarrow>
       (\<exists>m. accepts (fst (process B C (clk, cs) (new_pipeline B None))) m))"
proof -
  obtain bs m where b: "build_signed_packet C i eid hops l zid mtype pl (Some ts) now = Inr bs"
    "length bs = 139 + length pl" "parse_packet bs = Inr m" "sig_valid C m" "compute_msg_id C (public_key C i) ts mtype pl = Inr (msg_id m)"
    and m: "sender_key m = public_key C i" "timestamp m = ts" "ttl m = hops" "payload m = pl" "zone_id m = zid"
      "ephem_id m = eid" "spray_l m = l"
    using build_signed_packet_parse [OF C(1,3) args(1), of i now] by fastforce
  have copy: "\<exists>m'. parse_packet cs = Inr m' \<and> m' = m\<lparr>raw := cs, ttl := ttl m - int n, spray_l := l div 2 ^ n\<rparr> \<and>
      sig_valid C m' \<and> 0 < ttl m' \<and> length cs \<le> 460" if h: "relayed bs n cs" for n cs
  proof -
    obtain m' where m': "parse_packet cs = Inr m'" "m' = m\<lparr>raw := cs, ttl := ttl m - int n, spray_l := l div 2 ^ n\<rparr>"
      and n: "0 < n \<longrightarrow> int n < ttl m" using relayed_same [OF h b(3)] m(7) by blast
    then show ?thesis using relayed_sig [OF h b(3) m'(1), of C] b(2,4) relayed_length [OF h] args(2,3) m(3)
      by (cases "n = 0") simp_all
  qed
  have accepted: "accepts (fst (process B C (clk, cs) p)) x \<longleftrightarrow> parse_packet cs = Inr x \<and>
      fresh (clk_timestamp clk) ts \<and> \<not> bf_mem B (msg_id m) (bloom (dedup_cache p)) \<and>
      fst (rate_check (clk_rate clk, eid) (rate_limiter p)) = Inr None \<and>
      (\<forall>cache. attestation p = Some cache \<longrightarrow> (\<exists>ex. expiry cache (public_key C i) = Some ex \<and> py_int (clk_attest clk) < ex)) \<and>
      (\<forall>e. expected (spray_budget p) (msg_id m) = Some e \<longrightarrow> l div 2 ^ n \<le> e)"
    if "relayed bs n cs" "pipeline_inv B C D p" for n cs clk D p x
    using copy [OF that(1)] m unfolding accepts_clears [OF that(2)] by (auto simp: clears_def admitted_def)
  have kept: "payload x = pl \<and> sender_key x = public_key C i \<and> zone_id x = zid"
    if "relayed bs n cs" "parse_packet cs = Inr x" for n cs x
    using copy [OF that(1)] that(2) m by auto
  have new: "\<exists>x. accepts (fst (process B C (clk, cs) (new_pipeline B None))) x"
    if h: "relayed bs n cs" "fresh (clk_timestamp clk) ts" "0 \<le> clk_rate clk" for n cs clk
  proof -
    have inv: "pipeline_inv B C undefined (new_pipeline B None)"
      by (intro new_pipeline_inv B C(2)) (simp add: attested_inv_def)
    obtain m' where m': "parse_packet cs = Inr m'" "m' = m\<lparr>raw := cs, ttl := ttl m - int n, spray_l := l div 2 ^ n\<rparr>"
      "sig_valid C m'" "0 < ttl m'" "length cs \<le> 460" using copy [OF h(1)] by blast
    have "clears B C clk cs (new_pipeline B None) m'"
      using h(2,3) m(2) m'(2) by (intro new_pipeline_clears [OF B m'(1,5,4,3)]) simp_all
    with accepts_clears [OF inv] show ?thesis by blast
  qed
  show ?thesis using b(1,5) accepted kept copy new by (intro exI [of _ bs] exI [of _ "msg_id m"]) blast
qed

theorem honest_packet_is_delivered_witness:
  "\<exists>bs. build_signed_packet toy_crypto demo_identity (replicate 16 2) 5 8 3 1 demo_payload (Some 1000) 0 = Inr bs \<and>
     (\<exists>m. accepts (fst (process list_bloom toy_crypto (clocks_at 1010, bs) demo_pipeline)) m) \<and>
     (\<nexists>m. accepts (fst (process list_bloom toy_crypto (clocks_at 1400, bs) demo_pipeline)) m)"
proof -
  have args: "header_args_ok (replicate 16 2) 1000 5 8 3 1 demo_payload" "(0 :: int) < 5" "length demo_payload \<le> 321"
    by (simp_all add: header_args_ok_def demo_payload_def)
  from honest_packet_is_delivered [OF toy_ed25519_ok toy_ed25519_errors toy_hash_ok list_bloom_ok args, of demo_identity 0]
  obtain bs mid where bs: "build_signed_packet toy_crypto demo_identity (replicate 16 2) 5 8 3 1 demo_payload (Some 1000) 0 = Inr bs"
    and iff: "\<And>n cs clk D p. relayed bs n cs \<and> pipeline_inv list_bloom toy_crypto D p \<Longrightarrow>
       (\<exists>m. accepts (fst (process list_bloom toy_crypto (clk, cs) p)) m) \<Longrightarrow> fresh (clk_timestamp clk) 1000"
    and new: "\<And>n cs clk. relayed bs n cs \<and> fresh (clk_timestamp clk) 1000 \<and> 0 \<le> clk_rate clk \<Longrightarrow>
       \<exists>m. accepts (fst (process list_bloom toy_crypto (clk, cs) (new_pipeline list_bloom None))) m" by blast
  have "\<exists>m. accepts (fst (process list_bloom toy_crypto (clocks_at 1010, bs) demo_pipeline)) m"
    using new [of 0 bs "clocks_at 1010"] origin by (simp add: demo_pipeline_def fresh_def)
  moreover have "\<nexists>m. accepts (fst (process list_bloom toy_crypto (clocks_at 1400, bs) demo_pipeline)) m"
  proof
    assume "\<exists>m. accepts (fst (process list_bloom toy_crypto (clocks_at 1400, bs) demo_pipeline)) m"
    from iff [OF conjI [OF origin demo_inv] this] show False by (simp add: fresh_def)
  qed
  ultimately show ?thesis using bs by blast
qed

section \<open>Applications over the pipeline\<close>

text \<open>
  Everything the applications send fits: whenever one of the payload encoders succeeds with an
  8-byte hint, the packet built around its payload is within the pipeline's size bounds, so step 1
  of no relay drops it.
\<close>

lemma application_payloads_fit:
  assumes "ed25519_ok C" "hash_ok C" "box_ok C" "length hint = HINT_SIZE"
    and "encode_friend_request C eph p hint pub = Inr pl \<or> encode_friend_accept C eph q hint pub = Inr pl \<or>
      encode_friend_decline mid hint = Inr pl \<or> encode_direct_message C eph txt hint pub = Inr pl \<or>
      encode_location_response C eph r hint pub = Inr pl \<or> encode_location_query tok = Inr pl \<or>
      encode_location_revoke v = Inr pl \<or> encode_location_beacon lat lon acc = Inr pl"
    and "header_args_ok eid ts hops l zid mtype []"
  shows "\<exists>bs. build_signed_packet C i eid hops l zid mtype pl (Some ts) now = Inr bs \<and> check_size bs = None"
proof -
  have n: "length pl \<le> 321"
    using assms(4,5) friend_mail_length [OF assms(3)] location_mail_length(1) [OF assms(3)] location_mail_length(2-4)
    by (elim disjE) (fastforce simp: encode_friend_decline_def split: if_splits)+
  then have "header_args_ok eid ts hops l zid mtype pl" using assms(6) by (simp add: header_args_ok_def)
  from build_signed_packet_parse [OF assms(1,2) this, of i now] n show ?thesis
    by (auto simp: check_size_None)
qed

lemma application_payloads_fit_witness:
  "\<exists>bs. build_signed_packet toy_crypto demo_identity (replicate 16 2) 5 8 3 9 ([1, 2, 3, 4, 5, 6, 7, 8] @ replicate 16 1)
      (Some 1000) 0 = Inr bs \<and> check_size bs = None"
proof (rule application_payloads_fit [OF toy_ed25519_ok toy_hash_ok toy_box_ok])
  show "length [1, 2, 3, 4, 5, 6, 7, 8 :: byte] = HINT_SIZE" by simp
  let ?pl = "[1, 2, 3, 4, 5, 6, 7, 8] @ replicate 16 1"
  have "encode_friend_decline (replicate 16 1) [1, 2, 3, 4, 5, 6, 7, 8] = Inr ?pl"
    by (simp add: encode_friend_decline_def)
  then show "encode_friend_request toy_crypto [] undefined [1, 2, 3, 4, 5, 6, 7, 8] [] = Inr ?pl \<or>
      encode_friend_accept toy_crypto [] undefined [1, 2, 3, 4, 5, 6, 7, 8] [] = Inr ?pl \<or>
      encode_friend_decline (replicate 16 1) [1, 2, 3, 4, 5, 6, 7, 8] = Inr ?pl \<or>
      encode_direct_message toy_crypto [] [] [1, 2, 3, 4, 5, 6, 7, 8] [] = Inr ?pl \<or>
      encode_location_response toy_crypto [] undefined [1, 2, 3, 4, 5, 6, 7, 8] [] = Inr ?pl \<or>
      encode_location_query [] = Inr ?pl \<or>
      encode_location_revoke undefined = Inr ?pl \<or> encode_location_beacon 0 0 0 = Inr ?pl" by blast
  show "header_args_ok (replicate 16 2) 1000 5 8 3 9 []" by (simp add: header_args_ok_def)
qed

end
